(* ===== verification/Prelude.thy ===== *)
theory Prelude
  imports Main "HOL-Library.AList"
begin

text \<open>
  Shared vocabulary of the development: results of code that may throw, folds that stop at the
  first throw, JavaScript's insertion-ordered \<open>Map\<close> and its array primitives (\<open>slice\<close>,
  \<open>splice\<close>, \<open>indexOf\<close>, \<open>findLast\<close>), and the lemmas about them that several components use.
  The locale \<open>checked_fold\<close> is the contract shared by every component that consumes a session
  log one event at a time and rejects it at the first bad event.
\<close>

section \<open>Lemma collections\<close>

named_theorems run_simps \<open>equations that evaluate a fold over a log\<close>
named_theorems inv_intros \<open>introduction rules for component invariants\<close>

section \<open>Results of code that may throw\<close>

text \<open>\<open>Inl e\<close> is the thrown error \<open>e\<close>, \<open>Inr x\<close> the returned value \<open>x\<close>.\<close>

type_synonym ('e, 'a) result = "'e + 'a"

definition returns :: "'e + 'a \<Rightarrow> bool" where
  "returns r = (case r of Inl _ \<Rightarrow> False | Inr _ \<Rightarrow> True)"

lemma returns_simps [simp]: "returns (Inr x)" "\<not> returns (Inl e)"
  by (simp_all add: returns_def)

lemma returns_iff: "returns r \<longleftrightarrow> (\<exists>x. r = Inr x)"
  by (cases r) auto

text \<open>Sequencing: a throw of the first part is the throw of the whole.\<close>

definition rbind :: "'e + 'a \<Rightarrow> ('a \<Rightarrow> 'e + 'b) \<Rightarrow> 'e + 'b" where
  "rbind r f = (case r of Inl e \<Rightarrow> Inl e | Inr x \<Rightarrow> f x)"

lemma rbind_simps [simp]: "rbind (Inl e) f = Inl e" "rbind (Inr x) f = f x"
  by (simp_all add: rbind_def)

lemma rbind_Inr_iff: "rbind r f = Inr y \<longleftrightarrow> (\<exists>x. r = Inr x \<and> f x = Inr y)"
  by (cases r) auto

lemma rbind_assoc: "rbind (rbind r f) g = rbind r (\<lambda>x. rbind (f x) g)"
  by (cases r) auto

text \<open>Apply a throwing function to each element in order, stopping at the first throw.\<close>

fun map_result :: "('a \<Rightarrow> 'e + 'b) \<Rightarrow> 'a list \<Rightarrow> 'e + 'b list" where
  "map_result f [] = Inr []"
| "map_result f (x # xs) =
     rbind (f x) (\<lambda>y. rbind (map_result f xs) (\<lambda>ys. Inr (y # ys)))"

lemma map_result_all_Inr:
  "\<forall>x \<in> set xs. f x = Inr (g x) \<Longrightarrow> map_result f xs = Inr (map g xs)"
  by (induction xs) auto

lemma map_result_length: "map_result f xs = Inr ys \<Longrightarrow> length ys = length xs"
  by (induction xs arbitrary: ys) (auto simp: rbind_Inr_iff)

lemma map_result_append:
  "map_result f (xs @ ys) =
     rbind (map_result f xs) (\<lambda>us. rbind (map_result f ys) (\<lambda>vs. Inr (us @ vs)))"
proof (induction xs)
  case Nil
  show ?case by (cases "map_result f ys") simp_all
next
  case (Cons x xs)
  show ?case
    by (cases "f x"; cases "map_result f xs"; cases "map_result f ys") (simp_all add: Cons)
qed

section \<open>Folds that stop at the first throw\<close>

fun run :: "('s \<Rightarrow> 'a \<Rightarrow> 'e + 's) \<Rightarrow> 's \<Rightarrow> 'a list \<Rightarrow> 'e + 's" where
  "run f s [] = Inr s"
| "run f s (x # xs) = rbind (f s x) (\<lambda>s'. run f s' xs)"

declare run.simps [run_simps]

lemma run_append: "run f s (xs @ ys) = rbind (run f s xs) (\<lambda>s'. run f s' ys)"
  by (induction xs arbitrary: s) (auto simp: rbind_assoc)

lemma run_snoc: "run f s (xs @ [x]) = rbind (run f s xs) (\<lambda>s'. f s' x)"
proof -
  have "(\<lambda>s'. run f s' [x]) = (\<lambda>s'. f s' x)"
  proof
    fix s' show "run f s' [x] = f s' x" by (cases "f s' x") auto
  qed
  then show ?thesis by (simp add: run_append)
qed

lemma run_prefix: "run f s (xs @ ys) = Inr t \<Longrightarrow> \<exists>u. run f s xs = Inr u \<and> run f u ys = Inr t"
  by (auto simp: run_append rbind_Inr_iff)

locale checked_fold =
  fixes step :: "'s \<Rightarrow> 'a \<Rightarrow> 'e + 's"
    and start :: "'s"
    and inv :: "'s \<Rightarrow> bool"
  assumes inv_start: "inv start"
    and inv_step: "inv s \<Longrightarrow> step s x = Inr s' \<Longrightarrow> inv s'"
begin

lemma inv_run_from: "inv s \<Longrightarrow> run step s xs = Inr s' \<Longrightarrow> inv s'"
proof (induction xs arbitrary: s)
  case Nil
  then show ?case by simp
next
  case (Cons x xs)
  then show ?case by (auto simp: rbind_Inr_iff intro: inv_step)
qed

lemma inv_run: "run step start xs = Inr s \<Longrightarrow> inv s"
  using inv_run_from inv_start by blast

lemma inv_prefix: "run step start (xs @ ys) = Inr s \<Longrightarrow> \<exists>u. run step start xs = Inr u \<and> inv u"
  by (auto simp: run_append rbind_Inr_iff intro: inv_run)

end

text \<open>
  A loop over mutable state that throws leaves the state as of the step that threw: the state is
  returned in both cases, with the error beside it.
\<close>

fun run_keep :: "('s \<Rightarrow> 'a \<Rightarrow> 'e + 's) \<Rightarrow> 's \<Rightarrow> 'a list \<Rightarrow> 's \<times> 'e option" where
  "run_keep f s [] = (s, None)"
| "run_keep f s (x # xs) =
     (case f s x of Inl e \<Rightarrow> (s, Some e) | Inr s' \<Rightarrow> run_keep f s' xs)"

declare run_keep.simps [run_simps]

lemma run_keep_run:
  "run f s xs = (case run_keep f s xs of (s', None) \<Rightarrow> Inr s' | (_, Some e) \<Rightarrow> Inl e)"
  by (induction xs arbitrary: s) (auto split: sum.splits)

text \<open>
  The same with the consumed prefix in view: some folds look back into the log they consume.
\<close>

fun hrun :: "('a list \<Rightarrow> 's \<Rightarrow> 'a \<Rightarrow> 'e + 's) \<Rightarrow> 'a list \<Rightarrow> 's \<Rightarrow> 'a list \<Rightarrow> 'e + 's" where
  "hrun f xs s [] = Inr s"
| "hrun f xs s (y # ys) = rbind (f xs s y) (\<lambda>s'. hrun f (xs @ [y]) s' ys)"

declare hrun.simps [run_simps]

lemma hrun_append: "hrun f xs s (ys @ zs) = rbind (hrun f xs s ys) (\<lambda>s'. hrun f (xs @ ys) s' zs)"
  by (induction ys arbitrary: xs s) (auto simp: rbind_assoc)

lemma hrun_snoc: "hrun f xs s (ys @ [y]) = rbind (hrun f xs s ys) (\<lambda>s'. f (xs @ ys) s' y)"
proof -
  have "(\<lambda>s'. hrun f (xs @ ys) s' [y]) = (\<lambda>s'. f (xs @ ys) s' y)"
  proof
    fix s' show "hrun f (xs @ ys) s' [y] = f (xs @ ys) s' y" by (cases "f (xs @ ys) s' y") auto
  qed
  then show ?thesis by (simp add: hrun_append)
qed

lemma hrun_const: "hrun (\<lambda>_. f) xs s ys = run f s ys"
  by (induction ys arbitrary: xs s) (auto simp: rbind_def split: sum.splits)

locale history_fold =
  fixes hstep :: "'a list \<Rightarrow> 's \<Rightarrow> 'a \<Rightarrow> 'e + 's"
    and hstart :: "'s"
    and hinv :: "'a list \<Rightarrow> 's \<Rightarrow> bool"
  assumes hinv_start: "hinv [] hstart"
    and hinv_step: "hinv xs s \<Longrightarrow> hstep xs s y = Inr s' \<Longrightarrow> hinv (xs @ [y]) s'"
begin

lemma hinv_hrun_from: "hinv xs s \<Longrightarrow> hrun hstep xs s ys = Inr s' \<Longrightarrow> hinv (xs @ ys) s'"
proof (induction ys arbitrary: xs s)
  case Nil
  then show ?case by simp
next
  case (Cons y ys)
  from Cons.prems obtain t where t: "hstep xs s y = Inr t" "hrun hstep (xs @ [y]) t ys = Inr s'"
    by (auto simp: rbind_Inr_iff)
  from Cons.IH [OF hinv_step [OF Cons.prems(1) t(1)] t(2)] show ?case by simp
qed

lemma hinv_hrun: "hrun hstep [] hstart ys = Inr s \<Longrightarrow> hinv ys s"
  using hinv_hrun_from [OF hinv_start] by fastforce

end

sublocale checked_fold \<subseteq> history_fold "\<lambda>_. step" start "\<lambda>_. inv"
  by unfold_locales (auto intro: inv_start inv_step)

section \<open>Clients of a stateful object\<close>

text \<open>
  The answers an object gives to a sequence of calls, and the state they leave. \<open>simulation\<close> is
  the contract of an object that caches or indexes: every call on related states gives the same
  answer and related states again, so no client can tell the two objects apart.
\<close>

fun answers_to :: "('s \<Rightarrow> 'c \<Rightarrow> 's \<times> 'a) \<Rightarrow> 's \<Rightarrow> 'c list \<Rightarrow> 'a list" where
  "answers_to f s [] = []"
| "answers_to f s (c # cs) = snd (f s c) # answers_to f (fst (f s c)) cs"

fun state_after :: "('s \<Rightarrow> 'c \<Rightarrow> 's \<times> 'a) \<Rightarrow> 's \<Rightarrow> 'c list \<Rightarrow> 's" where
  "state_after f s [] = s"
| "state_after f s (c # cs) = state_after f (fst (f s c)) cs"

locale simulation =
  fixes concrete :: "'s \<Rightarrow> 'c \<Rightarrow> 's \<times> 'a"
    and abstract :: "'t \<Rightarrow> 'c \<Rightarrow> 't \<times> 'a"
    and rel :: "'s \<Rightarrow> 't \<Rightarrow> bool"
  assumes same_answer: "rel s t \<Longrightarrow> snd (concrete s c) = snd (abstract t c)"
    and still_related: "rel s t \<Longrightarrow> rel (fst (concrete s c)) (fst (abstract t c))"
begin

lemma same_answers: "rel s t \<Longrightarrow> answers_to concrete s cs = answers_to abstract t cs"
  by (induction cs arbitrary: s t) (simp_all add: same_answer still_related)

lemma related_after: "rel s t \<Longrightarrow> rel (state_after concrete s cs) (state_after abstract t cs)"
  by (induction cs arbitrary: s t) (simp_all add: still_related)

end

section \<open>JavaScript maps with insertion order\<close>

text \<open>
  A \<open>Map\<close> is an association list in insertion order: \<open>set\<close> of a present key keeps its position
  (this is \<open>AList.update\<close>), \<open>delete\<close> removes it (\<open>AList.delete\<close>).
\<close>

abbreviation map_set :: "'k \<Rightarrow> 'v \<Rightarrow> ('k \<times> 'v) list \<Rightarrow> ('k \<times> 'v) list" where
  "map_set \<equiv> AList.update"

abbreviation map_delete :: "'k \<Rightarrow> ('k \<times> 'v) list \<Rightarrow> ('k \<times> 'v) list" where
  "map_delete \<equiv> AList.delete"

lemma map_of_map_set [simp]: "map_of (map_set k v m) = (map_of m)(k \<mapsto> v)"
  by (rule update_conv')

lemma map_of_map_delete [simp]: "map_of (map_delete k m) = (map_of m)(k := None)"
  by (rule delete_conv')

lemma distinct_map_delete: "distinct (map fst m) \<Longrightarrow> distinct (map fst (map_delete k m))"
  by (rule distinct_delete)

lemma in_map_delete: "(j, v) \<in> set (map_delete k m) \<longleftrightarrow> j \<noteq> k \<and> (j, v) \<in> set m"
  by (auto simp: AList.delete_eq)

lemma set_map_set: "distinct (map fst m) \<Longrightarrow> (c, p) \<in> set (map_set k v m) \<longleftrightarrow>
    (c = k \<and> p = v) \<or> (c \<noteq> k \<and> (c, p) \<in> set m)"
  by (induction m) (auto simp: image_iff)

text \<open>\<open>Set.add\<close> on a set kept as its elements in insertion order.\<close>

definition set_add :: "'a \<Rightarrow> 'a list \<Rightarrow> 'a list" where
  "set_add x xs = (if x \<in> set xs then xs else xs @ [x])"

lemma set_set_add [simp]: "set (set_add x xs) = insert x (set xs)"
  by (auto simp: set_add_def)

section \<open>JavaScript array primitives\<close>

text \<open>\<open>xs.slice(a, b)\<close> for indices in range.\<close>

definition slice :: "nat \<Rightarrow> nat \<Rightarrow> 'a list \<Rightarrow> 'a list" where
  "slice a b xs = drop a (take b xs)"

text \<open>\<open>xs.splice(start, deleteCount, ...ins)\<close> for coordinates in range: removed part and result.\<close>

definition spliced :: "nat \<Rightarrow> nat \<Rightarrow> 'a list \<Rightarrow> 'a list \<Rightarrow> 'a list" where
  "spliced start cnt ins xs = take start xs @ ins @ drop (start + cnt) xs"

definition splice_removed :: "nat \<Rightarrow> nat \<Rightarrow> 'a list \<Rightarrow> 'a list" where
  "splice_removed start cnt xs = take cnt (drop start xs)"

lemma spliced_removed:
  "take start xs @ splice_removed start cnt xs @ drop (start + cnt) xs = xs"
  by (simp add: splice_removed_def add.commute flip: drop_drop)

lemma length_spliced:
  "start + cnt \<le> length xs \<Longrightarrow> length (spliced start cnt ins xs) = length xs - cnt + length ins"
  by (simp add: spliced_def)

text \<open>\<open>indexOf\<close>: the first position of a value, \<open>None\<close> for \<open>-1\<close>.\<close>

fun index_of :: "'a \<Rightarrow> 'a list \<Rightarrow> nat option" where
  "index_of x [] = None"
| "index_of x (y # ys) = (if y = x then Some 0 else map_option Suc (index_of x ys))"

lemma index_of_Some: "index_of x xs = Some i \<Longrightarrow> i < length xs \<and> xs ! i = x"
  by (induction xs arbitrary: i) (auto split: if_splits)

lemma index_of_None: "index_of x xs = None \<longleftrightarrow> x \<notin> set xs"
  by (induction xs) auto

lemma index_of_nth: "distinct xs \<Longrightarrow> i < length xs \<Longrightarrow> index_of (xs ! i) xs = Some i"
proof (induction xs arbitrary: i)
  case (Cons y ys)
  then show ?case by (cases i) auto
qed simp

text \<open>\<open>xs.findLast(p)\<close>.\<close>

definition find_last :: "('a \<Rightarrow> bool) \<Rightarrow> 'a list \<Rightarrow> 'a option" where
  "find_last p xs = List.find p (rev xs)"

text \<open>\<open>xs.at(-1)\<close>.\<close>

definition last_of :: "'a list \<Rightarrow> 'a option" where
  "last_of xs = (if xs = [] then None else Some (last xs))"

lemma last_of_snoc [simp]: "last_of (xs @ [x]) = Some x"
  by (simp add: last_of_def)

lemma last_of_Nil [simp]: "last_of [] = None"
  by (simp add: last_of_def)

lemma last_of_None [simp]: "last_of xs = None \<longleftrightarrow> xs = []"
  by (simp add: last_of_def)

lemma find_last_snoc: "find_last p (xs @ [x]) = (if p x then Some x else find_last p xs)"
  by (simp add: find_last_def)

lemma map_filter_snoc: "List.map_filter f (xs @ [x]) = List.map_filter f xs @ (case f x of None \<Rightarrow> [] | Some y \<Rightarrow> [y])"
  by (simp add: List.map_filter_def split: option.splits)

section \<open>Decimal notation\<close>

text \<open>A natural number in a template literal.\<close>

definition digit_char :: "nat \<Rightarrow> char" where
  "digit_char d = char_of (48 + d)"

fun show_nat :: "nat \<Rightarrow> string" where
  "show_nat n = (if n < 10 then [digit_char n] else show_nat (n div 10) @ [digit_char (n mod 10)])"

declare show_nat.simps [simp del]

definition digit_value :: "char \<Rightarrow> nat" where
  "digit_value c = of_char c - 48"

definition read_nat :: "string \<Rightarrow> nat" where
  "read_nat = foldl (\<lambda>a c. 10 * a + digit_value c) 0"

lemma digit_value_char: "d < 10 \<Longrightarrow> digit_value (digit_char d) = d"
  by (simp add: digit_value_def digit_char_def)

lemma read_show_nat: "read_nat (show_nat n) = n"
proof (induction n rule: show_nat.induct)
  case (1 n)
  show ?case
  proof (cases "n < 10")
    case True
    then show ?thesis by (simp add: show_nat.simps [of n] read_nat_def digit_value_char)
  next
    case False
    then have "read_nat (show_nat n) = 10 * read_nat (show_nat (n div 10)) + n mod 10"
      by (simp add: show_nat.simps [of n] read_nat_def digit_value_char)
    with False 1 show ?thesis by simp
  qed
qed

lemma show_nat_inject [simp]: "show_nat m = show_nat n \<longleftrightarrow> m = n"
  by (metis read_show_nat)

end
