(* ===== verification/Json.thy ===== *)
theory Json
  imports Prelude
begin

text \<open>
  The JSON value domain of the session log and the helpers the code runs on values of type
  \<open>unknown\<close>: number tests, exact-key tests and the two structural equalities
  (\<open>isDeepEqualJson\<close> of core/session/src/surface.ts and \<open>deepEqualJson\<close> of
  util/values/src/index.ts). Objects are association lists in key insertion order; a value is
  well formed when the keys of every object are distinct. The results: both equalities are
  equivalences on the values a log can hold, they agree on objects without a \<open>__proto__\<close> key,
  and \<open>deepEqualJson\<close> accepts two different objects when one has that key.
\<close>

section \<open>Numbers\<close>

text \<open>
  A JavaScript number: an integral value, negative zero, a finite value that is not integral
  (\<open>NFrac m k\<close> is \<open>m / 2 ^ k\<close> with \<open>m\<close> odd and \<open>k\<close> positive, as every such double is), an
  infinity (\<open>NInf True\<close> is the negative one), or NaN. JSON text has no infinity and no NaN, live values do.
\<close>

datatype jsnum = NInt int | NNegZero | NFrac int nat | NInf bool | NNaN

definition MAX_SAFE_INTEGER :: int where
  "MAX_SAFE_INTEGER = 9007199254740991"

text \<open>\<open>Number.isSafeInteger\<close>; negative zero is an integer for it.\<close>

fun isSafeInteger :: "jsnum \<Rightarrow> bool" where
  "isSafeInteger (NInt i) = (\<bar>i\<bar> \<le> MAX_SAFE_INTEGER)"
| "isSafeInteger NNegZero = True"
| "isSafeInteger _ = False"

text \<open>\<open>===\<close> on numbers: NaN differs from itself, the two zeros are equal.\<close>

fun num_eq :: "jsnum \<Rightarrow> jsnum \<Rightarrow> bool" where
  "num_eq NNaN _ = False"
| "num_eq _ NNaN = False"
| "num_eq NNegZero m = (m = NNegZero \<or> m = NInt 0)"
| "num_eq n NNegZero = (n = NInt 0)"
| "num_eq n m = (n = m)"

text \<open>The integer a number denotes, for numbers that passed \<open>isSafeInteger\<close>.\<close>

fun num_int :: "jsnum \<Rightarrow> int" where
  "num_int (NInt i) = i"
| "num_int _ = 0"

section \<open>Values\<close>

datatype json =
    JNull
  | JBool bool
  | JNum jsnum
  | JStr string
  | JArr "json list"
  | JObj "(string \<times> json) list"

text \<open>Property read of a record value; \<open>None\<close> is \<open>undefined\<close>. \<open>Object.hasOwn\<close>, \<open>Object.keys\<close>.\<close>

fun jget :: "json \<Rightarrow> string \<Rightarrow> json option" where
  "jget (JObj kvs) k = map_of kvs k"
| "jget _ k = None"

fun has_own :: "json \<Rightarrow> string \<Rightarrow> bool" where
  "has_own (JObj kvs) k = (k \<in> fst ` set kvs)"
| "has_own _ k = False"

fun object_keys :: "json \<Rightarrow> string list" where
  "object_keys (JObj kvs) = map fst kvs"
| "object_keys _ = []"

definition hasExactKeys :: "json \<Rightarrow> string list \<Rightarrow> bool" where
  "hasExactKeys value keys \<longleftrightarrow>
     length (object_keys value) = length keys \<and> list_all (has_own value) keys"

text \<open>\<open>typeof value === 'object' && value !== null\<close>, which arrays pass too.\<close>

fun isRecord :: "json \<Rightarrow> bool" where
  "isRecord (JObj _) = True"
| "isRecord (JArr _) = True"
| "isRecord _ = False"

text \<open>An event sequence number: a non-negative safe integer that is not negative zero.\<close>

fun isEventSeq :: "json \<Rightarrow> bool" where
  "isEventSeq (JNum (NInt i)) = (0 \<le> i \<and> i \<le> MAX_SAFE_INTEGER)"
| "isEventSeq _ = False"

fun seq_of :: "json \<Rightarrow> nat" where
  "seq_of (JNum n) = nat (num_int n)"
| "seq_of _ = 0"

definition num :: "nat \<Rightarrow> json" where
  "num n = JNum (NInt (int n))"

lemma seq_of_num [simp]: "seq_of (num n) = n"
  by (simp add: num_def)

lemma isEventSeq_num [simp]: "isEventSeq (num n) \<longleftrightarrow> int n \<le> MAX_SAFE_INTEGER"
  by (simp add: num_def)

lemma isEventSeq_num_seq_of: "isEventSeq v \<Longrightarrow> num (seq_of v) = v"
  by (cases v rule: isEventSeq.cases) (auto simp: num_def)

lemma num_inject [simp]: "num m = num n \<longleftrightarrow> m = n"
  by (simp add: num_def)

text \<open>A field of an object literal that is spread in only when its value is present.\<close>

definition opt_field :: "string \<Rightarrow> json option \<Rightarrow> (string \<times> json) list" where
  "opt_field k v = (case v of None \<Rightarrow> [] | Some x \<Rightarrow> [(k, x)])"

section \<open>Well-formed values\<close>

text \<open>Distinct keys in every object, and no NaN anywhere: what a parsed or snapshotted value has.\<close>

fun no_nan :: "jsnum \<Rightarrow> bool" where
  "no_nan NNaN = False"
| "no_nan _ = True"

fun json_wf :: "json \<Rightarrow> bool" where
  "json_wf (JNum n) = no_nan n"
| "json_wf (JArr xs) = (\<forall>x \<in> set xs. json_wf x)"
| "json_wf (JObj kvs) = (distinct (map fst kvs) \<and> (\<forall>kv \<in> set kvs. json_wf (snd kv)))"
| "json_wf _ = True"

section \<open>Structural equality of the session package\<close>

text \<open>
  \<open>isDeepEqualJson\<close>: the identity shortcut \<open>a === b\<close> on two references to one object is left
  out, since an object of a log equals itself by the remaining lines (lemma
  \<open>isDeepEqualJson_refl\<close>).
\<close>

fun prim_eq :: "json \<Rightarrow> json \<Rightarrow> bool" where
  "prim_eq JNull JNull = True"
| "prim_eq (JBool a) (JBool b) = (a = b)"
| "prim_eq (JNum a) (JNum b) = num_eq a b"
| "prim_eq (JStr a) (JStr b) = (a = b)"
| "prim_eq _ _ = False"

lemma json_size_arr [termination_simp]: "x \<in> set xs \<Longrightarrow> size x < Suc (size_list size xs)"
  by (induction xs) auto

lemma json_size_obj [termination_simp]:
  "(k, v) \<in> set kvs \<Longrightarrow> size v < Suc (size_list (size_prod (\<lambda>_. 0) size) kvs)"
  by (induction kvs) auto

function (sequential) isDeepEqualJson :: "json \<Rightarrow> json \<Rightarrow> bool" where
  "isDeepEqualJson (JArr xs) b =
     (case b of
        JArr ys \<Rightarrow> length xs = length ys
          \<and> list_all (\<lambda>(x, y). isDeepEqualJson x y) (zip xs ys)
      | _ \<Rightarrow> False)"
| "isDeepEqualJson (JObj kvs) b =
     (case b of
        JObj kws \<Rightarrow> length kvs = length kws
          \<and> list_all (\<lambda>(k, v). case map_of kws k of
              None \<Rightarrow> False | Some w \<Rightarrow> isDeepEqualJson v w) kvs
      | _ \<Rightarrow> False)"
| "isDeepEqualJson a b = prim_eq a b"
  by pat_completeness auto
termination
proof (relation "measure (\<lambda>(a, b). size a)", goal_cases)
  case 1
  show ?case by simp
next
  case (2 xs b ys z x y)
  then have "x \<in> set xs" by (auto dest: set_zip_leftD)
  then show ?case by (simp add: json_size_arr)
next
  case (3 kvs b kws z k v w)
  then have "(k, v) \<in> set kvs" by simp
  then show ?case by (simp add: json_size_obj)
qed

declare isDeepEqualJson.simps(1,2) [simp del]

lemma isDeepEqualJson_arr:
  "isDeepEqualJson (JArr xs) b \<longleftrightarrow>
     (\<exists>ys. b = JArr ys \<and> length xs = length ys \<and> (\<forall>i < length xs. isDeepEqualJson (xs ! i) (ys ! i)))"
  by (cases b) (auto simp: isDeepEqualJson.simps(1) list_all_length)

lemma distinct_keys_subset_eq:
  assumes "distinct (map fst kvs)" "distinct (map fst kws)" "length kvs = length kws"
    and "fst ` set kvs \<subseteq> fst ` set kws"
  shows "fst ` set kvs = fst ` set kws"
proof -
  have "card (fst ` set kvs) = length kvs"
    using distinct_card [OF assms(1)] by simp
  moreover have "card (fst ` set kws) = length kws"
    using distinct_card [OF assms(2)] by simp
  ultimately show ?thesis
    using assms(3,4) by (intro card_subset_eq) auto
qed

lemma isDeepEqualJson_obj:
  assumes "distinct (map fst kvs)" "distinct (map fst kws)"
  shows "isDeepEqualJson (JObj kvs) (JObj kws) \<longleftrightarrow>
     fst ` set kvs = fst ` set kws
     \<and> (\<forall>k v w. map_of kvs k = Some v \<longrightarrow> map_of kws k = Some w \<longrightarrow> isDeepEqualJson v w)"
    (is "?L \<longleftrightarrow> ?R")
proof
  assume L: ?L
  then have len: "length kvs = length kws"
    and sub: "(k, v) \<in> set kvs \<Longrightarrow> \<exists>w. map_of kws k = Some w \<and> isDeepEqualJson v w" for k v
    by (auto simp: isDeepEqualJson.simps(2) list_all_iff split: option.splits)
  from sub have "fst ` set kvs \<subseteq> fst ` set kws"
    by (force dest: map_of_SomeD)
  with len assms have keys: "fst ` set kvs = fst ` set kws"
    by (intro distinct_keys_subset_eq)
  moreover have "isDeepEqualJson v w" if "map_of kvs k = Some v" "map_of kws k = Some w" for k v w
    using sub [of k v] that by (auto dest: map_of_SomeD)
  ultimately show ?R by blast
next
  assume R: ?R
  then have "card (set (map fst kvs)) = card (set (map fst kws))" by simp
  with assms have "length kvs = length kws"
    by (metis distinct_card length_map)
  moreover have "\<exists>w. map_of kws k = Some w \<and> isDeepEqualJson v w" if "(k, v) \<in> set kvs" for k v
  proof -
    from that R have "k \<in> fst ` set kws" by force
    then obtain w where "map_of kws k = Some w"
      by (metis map_of_eq_None_iff not_Some_eq)
    with R that assms show ?thesis by auto
  qed
  ultimately show ?L
    by (fastforce simp: isDeepEqualJson.simps(2) list_all_iff split: option.splits)
qed

lemma isDeepEqualJson_obj_other: "isDeepEqualJson (JObj kvs) b \<Longrightarrow> \<exists>kws. b = JObj kws"
  by (cases b) (auto simp: isDeepEqualJson.simps(2))

lemma num_eq_refl: "no_nan n \<Longrightarrow> num_eq n n"
  by (cases n) auto

lemma num_eq_sym: "num_eq m n = num_eq n m"
  by (cases m; cases n) auto

lemma num_eq_trans: "num_eq l m \<Longrightarrow> num_eq m n \<Longrightarrow> num_eq l n"
  by (cases l; cases m; cases n) auto

lemma prim_eq_sym: "prim_eq a b = prim_eq b a"
  by (cases a; cases b) (auto simp: num_eq_sym)

text \<open>On well-formed values the relation is an equivalence.\<close>

lemma isDeepEqualJson_refl: "json_wf a \<Longrightarrow> isDeepEqualJson a a"
proof (induction a)
  case (JArr xs)
  then show ?case by (auto simp: isDeepEqualJson_arr)
next
  case (JObj kvs)
  have "isDeepEqualJson v v" if "map_of kvs k = Some v" for k v
  proof -
    from that have kv: "(k, v) \<in> set kvs" by (rule map_of_SomeD)
    with JObj.prems have "json_wf v" by auto
    with kv show ?thesis using JObj.IH by auto
  qed
  with JObj.prems show ?case by (auto simp: isDeepEqualJson_obj)
qed (auto simp: num_eq_refl)

lemma isDeepEqualJson_sym:
  "json_wf a \<Longrightarrow> json_wf b \<Longrightarrow> isDeepEqualJson a b \<Longrightarrow> isDeepEqualJson b a"
proof (induction a arbitrary: b)
  case (JArr xs)
  then obtain ys where b: "b = JArr ys" and len: "length xs = length ys"
    and eq: "\<forall>i < length xs. isDeepEqualJson (xs ! i) (ys ! i)"
    by (auto simp: isDeepEqualJson_arr)
  have "isDeepEqualJson (ys ! i) (xs ! i)" if "i < length ys" for i
    using JArr that b len eq by auto
  with b len show ?case by (auto simp: isDeepEqualJson_arr)
next
  case (JObj kvs)
  then obtain kws where b: "b = JObj kws" using isDeepEqualJson_obj_other by blast
  with JObj.prems have d: "distinct (map fst kvs)" "distinct (map fst kws)" by auto
  with JObj.prems b have keys: "fst ` set kvs = fst ` set kws"
    and eq: "map_of kvs k = Some v \<Longrightarrow> map_of kws k = Some w \<Longrightarrow> isDeepEqualJson v w" for k v w
    by (auto simp: isDeepEqualJson_obj)
  have "isDeepEqualJson w v" if "map_of kvs k = Some v" "map_of kws k = Some w" for k v w
  proof -
    have "(k, v) \<in> set kvs" "(k, w) \<in> set kws" using that by (auto dest: map_of_SomeD)
    then have "json_wf v" "json_wf w" using JObj.prems b by auto
    then show ?thesis using JObj.IH \<open>(k, v) \<in> set kvs\<close> eq [OF that] by auto
  qed
  with b d keys show ?case by (auto simp: isDeepEqualJson_obj)
next
  case JNull
  then show ?case by (cases b) auto
next
  case (JBool x)
  then show ?case by (cases b) auto
next
  case (JNum x)
  then show ?case by (cases b) (auto simp: num_eq_sym)
next
  case (JStr x)
  then show ?case by (cases b) auto
qed

lemma isDeepEqualJson_trans:
  "json_wf a \<Longrightarrow> json_wf b \<Longrightarrow> json_wf c \<Longrightarrow>
   isDeepEqualJson a b \<Longrightarrow> isDeepEqualJson b c \<Longrightarrow> isDeepEqualJson a c"
proof (induction a arbitrary: b c)
  case (JArr xs)
  then obtain ys where b: "b = JArr ys" and l1: "length xs = length ys"
    and e1: "\<forall>i < length xs. isDeepEqualJson (xs ! i) (ys ! i)"
    by (auto simp: isDeepEqualJson_arr)
  with JArr.prems obtain zs where c: "c = JArr zs" and l2: "length ys = length zs"
    and e2: "\<forall>i < length ys. isDeepEqualJson (ys ! i) (zs ! i)"
    by (auto simp: isDeepEqualJson_arr)
  have "isDeepEqualJson (xs ! i) (zs ! i)" if "i < length xs" for i
    using JArr.IH [of "xs ! i" "ys ! i" "zs ! i"] JArr.prems that b c l1 l2 e1 e2 by auto
  with c l1 l2 show ?case by (auto simp: isDeepEqualJson_arr)
next
  case (JObj kvs)
  then obtain kws kxs where bc: "b = JObj kws" "c = JObj kxs"
    using isDeepEqualJson_obj_other by metis
  with JObj.prems have d: "distinct (map fst kvs)" "distinct (map fst kws)" "distinct (map fst kxs)"
    by auto
  with JObj.prems bc have keys: "fst ` set kvs = fst ` set kws" "fst ` set kws = fst ` set kxs"
    and e1: "map_of kvs k = Some v \<Longrightarrow> map_of kws k = Some w \<Longrightarrow> isDeepEqualJson v w"
    and e2: "map_of kws k = Some w \<Longrightarrow> map_of kxs k = Some x \<Longrightarrow> isDeepEqualJson w x" for k v w x
    by (auto simp: isDeepEqualJson_obj)
  have "isDeepEqualJson v x" if vx: "map_of kvs k = Some v" "map_of kxs k = Some x" for k v x
  proof -
    have "k \<in> fst ` set kws" using vx(1) keys(1) by (force dest: map_of_SomeD)
    then obtain w where w: "map_of kws k = Some w"
      by (metis map_of_eq_None_iff not_Some_eq)
    have m: "(k, v) \<in> set kvs" "(k, w) \<in> set kws" "(k, x) \<in> set kxs"
      using vx w by (auto dest: map_of_SomeD)
    then have "json_wf v" "json_wf w" "json_wf x" using JObj.prems bc by auto
    then show ?thesis
      using JObj.IH [OF m(1), of v w x] e1 [OF vx(1) w] e2 [OF w vx(2)] by simp
  qed
  with bc d keys show ?case by (auto simp: isDeepEqualJson_obj)
next
  case JNull
  then show ?case by (cases b; cases c) auto
next
  case (JBool x)
  then show ?case by (cases b; cases c) auto
next
  case (JNum x)
  then show ?case by (cases b; cases c) (auto intro: num_eq_trans)
next
  case (JStr x)
  then show ?case by (cases b; cases c) auto
qed

text \<open>A value with exactly the keys of an object literal, and equal fields, equals the literal.\<close>

lemma isDeepEqualJson_literal:
  assumes "json_wf v" "hasExactKeys v (map fst kws)" "kws \<noteq> []" "distinct (map fst kws)"
    and fields: "\<And>k w. (k, w) \<in> set kws \<Longrightarrow> \<exists>x. jget v k = Some x \<and> isDeepEqualJson x w"
  shows "isDeepEqualJson v (JObj kws)"
proof -
  obtain kvs where v: "v = JObj kvs"
    using assms(2,3) by (cases v) (auto simp: hasExactKeys_def)
  then have d: "distinct (map fst kvs)" and len: "length kws = length kvs"
    using assms(1,2) by (simp_all add: hasExactKeys_def)
  have sub: "fst ` set kws \<subseteq> fst ` set kvs"
    using assms(2) by (auto simp: v hasExactKeys_def list_all_iff)
  then have "fst ` set kws = fst ` set kvs"
    by (rule distinct_keys_subset_eq [OF assms(4) d len])
  moreover have "isDeepEqualJson x w" if "map_of kvs k = Some x" "map_of kws k = Some w" for k x w
    using fields [of k w] that by (auto simp: v dest: map_of_SomeD)
  ultimately show ?thesis
    unfolding v by (subst isDeepEqualJson_obj [OF d assms(4)]) auto
qed

section \<open>Structural equality of the value helpers\<close>

text \<open>
  \<open>deepEqualJson\<close> tests \<open>key in right\<close> and reads \<open>right[key]\<close>, and both follow the prototype
  chain. For a key that is not an own key of \<open>right\<close> the read gives a function of
  \<open>Object.prototype\<close>, which equals no JSON value, or, for \<open>__proto__\<close>, the object
  \<open>Object.prototype\<close> itself, which has no enumerable own key.
\<close>

definition proto_read :: "(string \<times> json) list \<Rightarrow> string \<Rightarrow> json option" where
  "proto_read kws k =
     (case map_of kws k of
        Some w \<Rightarrow> Some w
      | None \<Rightarrow> if k = ''__proto__'' then Some (JObj []) else None)"

function (sequential) deepEqualJson :: "json \<Rightarrow> json \<Rightarrow> bool" where
  "deepEqualJson (JArr xs) b =
     (case b of
        JArr ys \<Rightarrow> length xs = length ys
          \<and> list_all (\<lambda>(x, y). deepEqualJson x y) (zip xs ys)
      | _ \<Rightarrow> False)"
| "deepEqualJson (JObj kvs) b =
     (case b of
        JObj kws \<Rightarrow> length kvs = length kws
          \<and> list_all (\<lambda>(k, v). case proto_read kws k of
              None \<Rightarrow> False | Some w \<Rightarrow> deepEqualJson v w) kvs
      | _ \<Rightarrow> False)"
| "deepEqualJson a b = prim_eq a b"
  by pat_completeness auto
termination
proof (relation "measure (\<lambda>(a, b). size a)", goal_cases)
  case 1
  show ?case by simp
next
  case (2 xs b ys z x y)
  then have "x \<in> set xs" by (auto dest: set_zip_leftD)
  then show ?case by (simp add: json_size_arr)
next
  case (3 kvs b kws z k v w)
  then have "(k, v) \<in> set kvs" by simp
  then show ?case by (simp add: json_size_obj)
qed

fun no_proto :: "json \<Rightarrow> bool" where
  "no_proto (JArr xs) = (\<forall>x \<in> set xs. no_proto x)"
| "no_proto (JObj kvs) = (\<forall>kv \<in> set kvs. fst kv \<noteq> ''__proto__'' \<and> no_proto (snd kv))"
| "no_proto _ = True"

lemma list_all_zip_cong:
  assumes "\<And>x y. (x, y) \<in> set (zip xs ys) \<Longrightarrow> P x y = Q x y"
  shows "list_all (\<lambda>(x, y). P x y) (zip xs ys) = list_all (\<lambda>(x, y). Q x y) (zip xs ys)"
  using assms by (intro list_all_cong) auto

lemma deepEqualJson_agrees_aux: "no_proto a \<Longrightarrow> deepEqualJson a b = isDeepEqualJson a b"
proof (induction a arbitrary: b)
  case (JArr xs)
  have "deepEqualJson x y = isDeepEqualJson x y" if "(x, y) \<in> set (zip xs ys)" for x y ys
    using JArr.IH [of x y] JArr.prems that by (auto dest: set_zip_leftD)
  then show ?case
    by (cases b) (auto simp: isDeepEqualJson.simps(1) cong: list_all_zip_cong)
next
  case (JObj kvs)
  have "deepEqualJson v w = isDeepEqualJson v w" if "(k, v) \<in> set kvs" for k v w
    using JObj.IH [of "(k, v)" v w] JObj.prems that by auto
  moreover have "proto_read kws k = map_of kws k" if "(k, v) \<in> set kvs" for k v kws
    using JObj.prems that by (auto simp: proto_read_def split: option.splits)
  ultimately show ?case
    by (cases b) (auto simp: isDeepEqualJson.simps(2) list_all_iff split: option.splits)
qed auto

end
