(* ===== verification/Deque.thy ===== *)
theory Deque
  imports Prelude
begin

text \<open>
  The circular deque of util/deque/src/index.ts. The buffer is a JavaScript array of fixed length
  whose vacant slots hold \<open>undefined\<close> (\<open>None\<close>); \<open>head\<close> is the index of the first entry and
  \<open>count\<close> the number of entries. The abstraction \<open>entries\<close> reads the entries in order. Each
  operation is shown to act on the abstraction as on a list, to keep the representation
  invariant, and to leave no reference to a removed entry in the buffer. The contract is the
  locale \<open>fifo\<close>, interpreted on this deque.
\<close>

section \<open>The class\<close>

definition MIN_CAPACITY :: nat where
  "MIN_CAPACITY = 16"

record 'a deque =
  buffer :: "'a option list"
  head :: nat
  count :: nat

definition new_deque :: "'a deque" where
  "new_deque = \<lparr>buffer = replicate MIN_CAPACITY None, head = 0, count = 0\<rparr>"

definition size_of :: "'a deque \<Rightarrow> nat" where
  "size_of d = count d"

text \<open>The copying loop of \<open>resize\<close>: \<open>i\<close> counts up to \<open>count\<close>, \<open>source\<close> wraps around.\<close>

function resize_loop :: "'a option list \<Rightarrow> nat \<Rightarrow> nat \<Rightarrow> nat \<Rightarrow> 'a option list \<Rightarrow> 'a option list" where
  "resize_loop buf cnt i source next_buf =
     (if i < cnt then
        (let next' = next_buf[i := buf ! source];
             source' = source + 1
         in resize_loop buf cnt (i + 1) (if source' = length buf then 0 else source') next')
      else next_buf)"
  by pat_completeness auto
termination
  by (relation "measure (\<lambda>(buf, cnt, i, source, next_buf). cnt - i)") auto

definition resize :: "nat \<Rightarrow> 'a deque \<Rightarrow> 'a deque" where
  "resize capacity d =
     d\<lparr>buffer := resize_loop (buffer d) (count d) 0 (head d) (replicate capacity None), head := 0\<rparr>"

definition ensureCapacity :: "'a deque \<Rightarrow> 'a deque" where
  "ensureCapacity d =
     (if count d < length (buffer d) then d else resize (length (buffer d) * 2) d)"

text \<open>
  \<open>buffer.length\<close> is always a power of two of at least \<open>MIN_CAPACITY\<close>, so the divisions of
  \<open>compact\<close> are exact; \<open>count \<le> length / 4\<close> is written without the quotient.
\<close>

definition compact :: "'a deque \<Rightarrow> 'a deque" where
  "compact d =
     (if count d = 0 then d\<lparr>head := 0\<rparr>
      else if MIN_CAPACITY < length (buffer d) \<and> 4 * count d \<le> length (buffer d)
      then resize (max MIN_CAPACITY (length (buffer d) div 2)) d
      else d)"

definition pushBack :: "'a \<Rightarrow> 'a deque \<Rightarrow> 'a deque" where
  "pushBack value d =
     (let d = ensureCapacity d;
          tail = head d + count d;
          slot = (if tail < length (buffer d) then tail else tail - length (buffer d))
      in d\<lparr>buffer := (buffer d)[slot := Some value], count := count d + 1\<rparr>)"

definition pushFront :: "'a \<Rightarrow> 'a deque \<Rightarrow> 'a deque" where
  "pushFront value d =
     (let d = ensureCapacity d;
          h = (if head d = 0 then length (buffer d) - 1 else head d - 1)
      in d\<lparr>head := h, buffer := (buffer d)[h := Some value], count := count d + 1\<rparr>)"

definition popFront :: "'a deque \<Rightarrow> 'a option \<times> 'a deque" where
  "popFront d =
     (if count d = 0 then (None, d)
      else
        let value = buffer d ! head d;
            h = head d + 1;
            d' = d\<lparr>buffer := (buffer d)[head d := None],
                   head := (if h = length (buffer d) then 0 else h),
                   count := count d - 1\<rparr>
        in (value, compact d'))"

definition clear :: "'a deque \<Rightarrow> 'a deque" where
  "clear d = new_deque"

section \<open>Abstraction and invariant\<close>

text \<open>\<open>at d i\<close> is the slot \<open>i\<close> places after the head, going round the buffer.\<close>

definition at :: "'a deque \<Rightarrow> nat \<Rightarrow> 'a option" where
  "at d i = buffer d ! ((head d + i) mod length (buffer d))"

definition entries :: "'a deque \<Rightarrow> 'a list" where
  "entries d = map (\<lambda>i. the (at d i)) [0..<count d]"

text \<open>
  Exactly the first \<open>count\<close> slots from the head are occupied: in particular no vacant slot
  retains an entry. The capacity is \<open>MIN_CAPACITY\<close> doubled some number of times.
\<close>

definition invar :: "'a deque \<Rightarrow> bool" where
  "invar d \<longleftrightarrow>
     (\<exists>k. length (buffer d) = MIN_CAPACITY * 2 ^ k)
     \<and> head d < length (buffer d) \<and> count d \<le> length (buffer d)
     \<and> (\<forall>i < length (buffer d). (at d i \<noteq> None) = (i < count d))"

lemma length_entries [simp]: "length (entries d) = count d"
  by (simp add: entries_def)

lemma entries_nth [simp]: "i < count d \<Longrightarrow> entries d ! i = the (at d i)"
  by (simp add: entries_def)

lemma invar_pos: "invar d \<Longrightarrow> 0 < length (buffer d)"
  by (auto simp: invar_def)

lemma invar_at: "invar d \<Longrightarrow> i < length (buffer d) \<Longrightarrow> (at d i \<noteq> None) = (i < count d)"
  by (simp add: invar_def)

lemma entries_eqI:
  assumes "count d = length xs" and "\<And>i. i < length xs \<Longrightarrow> at d i = Some (xs ! i)"
  shows "entries d = xs"
  using assms by (intro nth_equalityI) auto

lemma invarI:
  assumes "length (buffer d) = MIN_CAPACITY * 2 ^ k"
    and "head d < length (buffer d)" and "count d \<le> length (buffer d)"
    and "\<And>i. i < length (buffer d) \<Longrightarrow> (at d i \<noteq> None) = (i < count d)"
  shows "invar d"
  using assms by (auto simp: invar_def)

lemma mod_shift_inj:
  fixes h i j n :: nat
  assumes "i < n" "j < n"
  shows "(h + i) mod n = (h + j) mod n \<longleftrightarrow> i = j"
proof
  assume eq: "(h + i) mod n = (h + j) mod n"
  show "i = j"
  proof (cases "i \<le> j")
    case True
    with eq have "n dvd (h + j) - (h + i)" by (metis mod_eq_dvd_iff_nat add_le_cancel_left)
    with True assms show ?thesis by (auto dest: dvd_imp_le)
  next
    case False
    with eq have "n dvd (h + i) - (h + j)"
      by (metis mod_eq_dvd_iff_nat add_le_cancel_left nat_le_linear)
    with False assms show ?thesis by (auto dest: dvd_imp_le)
  qed
qed simp

section \<open>Resizing\<close>

declare resize_loop.simps [simp del]

lemma resize_loop_spec:
  assumes "source < length buf" "cnt \<le> length nb"
  shows "length (resize_loop buf cnt i source nb) = length nb
    \<and> (\<forall>j < length nb. resize_loop buf cnt i source nb ! j =
          (if i \<le> j \<and> j < cnt then buf ! ((source + (j - i)) mod length buf) else nb ! j))"
  using assms
proof (induction buf cnt i source nb rule: resize_loop.induct)
  case (1 buf cnt i source nb)
  show ?case
  proof (cases "i < cnt")
    case False
    then show ?thesis by (auto simp: resize_loop.simps [of buf cnt i])
  next
    case True
    define s' where "s' = (if source + 1 = length buf then 0 else source + 1)"
    have s': "s' < length buf" using "1.prems" by (auto simp: s'_def)
    have s'_mod: "s' = (source + 1) mod length buf"
      using "1.prems"(1) by (auto simp: s'_def)
    have step: "(s' + k) mod length buf = (source + (k + 1)) mod length buf" for k
      unfolding s'_mod by (metis mod_add_left_eq add.assoc add.commute)
    have IH: "length (resize_loop buf cnt (i + 1) s' (nb[i := buf ! source])) = length nb
      \<and> (\<forall>j < length nb. resize_loop buf cnt (i + 1) s' (nb[i := buf ! source]) ! j =
          (if i + 1 \<le> j \<and> j < cnt then buf ! ((s' + (j - (i + 1))) mod length buf)
           else nb[i := buf ! source] ! j))"
      using "1.IH" [OF True refl refl] "1.prems" s' by (simp add: s'_def)
    have unf: "resize_loop buf cnt i source nb = resize_loop buf cnt (i + 1) s' (nb[i := buf ! source])"
      using True by (subst resize_loop.simps) (simp add: Let_def s'_def)
    have "(if i + 1 \<le> j \<and> j < cnt then buf ! ((s' + (j - (i + 1))) mod length buf)
           else nb[i := buf ! source] ! j) =
        (if i \<le> j \<and> j < cnt then buf ! ((source + (j - i)) mod length buf) else nb ! j)"
      if "j < length nb" for j
    proof (cases "j = i")
      case True
      with that \<open>i < cnt\<close> "1.prems" show ?thesis by simp
    next
      case False
      moreover have "buf ! ((s' + (j - (i + 1))) mod length buf) =
          buf ! ((source + (j - i)) mod length buf)" if "i + 1 \<le> j"
      proof -
        from that have "j - (i + 1) + 1 = j - i" by simp
        then show ?thesis by (simp only: step)
      qed
      ultimately show ?thesis by (cases "i + 1 \<le> j") auto
    qed
    with IH unf show ?thesis by simp
  qed
qed

lemma resize_fields [simp]: "head (resize c d) = 0" "count (resize c d) = count d"
  by (simp_all add: resize_def)

lemma resize_spec:
  assumes "invar d" "count d \<le> c"
  shows "length (buffer (resize c d)) = c"
    and "i < c \<Longrightarrow> at (resize c d) i = (if i < count d then at d i else None)"
proof -
  have "head d < length (buffer d)" using assms by (simp add: invar_def)
  note spec = resize_loop_spec [OF this, of "count d" "replicate c None" 0]
  from spec assms show len: "length (buffer (resize c d)) = c" by (simp add: resize_def)
  show "at (resize c d) i = (if i < count d then at d i else None)" if "i < c"
    using spec assms that by (simp add: resize_def at_def)
qed

lemma resize_correct:
  assumes "invar d" "count d \<le> c" "c = MIN_CAPACITY * 2 ^ k"
  shows "invar (resize c d)" "entries (resize c d) = entries d"
proof -
  have occ: "i < count d \<Longrightarrow> at d i \<noteq> None" for i
    using assms by (auto simp: invar_def)
  have c: "0 < c" using assms by (simp add: MIN_CAPACITY_def)
  show "invar (resize c d)"
    using assms c resize_spec [OF assms(1,2)] occ by (intro invarI [of _ k]) auto
  show "entries (resize c d) = entries d"
  proof (rule entries_eqI)
    fix i assume "i < length (entries d)"
    then have "i < count d" by simp
    with assms(2) occ [OF this] show "at (resize c d) i = Some (entries d ! i)"
      using resize_spec(2) [OF assms(1,2), of i] by auto
  qed simp
qed

lemma ensureCapacity_correct:
  assumes "invar d"
  shows "invar (ensureCapacity d)" "entries (ensureCapacity d) = entries d"
    "count (ensureCapacity d) = count d"
    "count (ensureCapacity d) < length (buffer (ensureCapacity d))"
proof -
  obtain k where k: "length (buffer d) = MIN_CAPACITY * 2 ^ k"
    using assms by (auto simp: invar_def)
  have le: "count d \<le> length (buffer d) * 2" using assms by (auto simp: invar_def)
  have c: "length (buffer d) * 2 = MIN_CAPACITY * 2 ^ Suc k" by (simp add: k)
  note r = resize_correct [OF assms le c]
  show "invar (ensureCapacity d)" "entries (ensureCapacity d) = entries d"
    "count (ensureCapacity d) = count d"
    using r assms by (auto simp: ensureCapacity_def)
  show "count (ensureCapacity d) < length (buffer (ensureCapacity d))"
    using assms invar_pos [OF assms] resize_spec(1) [OF assms le]
    by (auto simp: ensureCapacity_def invar_def)
qed

lemma compact_correct:
  assumes "invar d"
  shows "invar (compact d)" "entries (compact d) = entries d" "count (compact d) = count d"
proof -
  obtain k where k: "length (buffer d) = MIN_CAPACITY * 2 ^ k"
    using assms by (auto simp: invar_def)
  consider (empty) "count d = 0"
    | (shrink) "count d \<noteq> 0" "MIN_CAPACITY < length (buffer d)" "4 * count d \<le> length (buffer d)"
    | (keep) "count d \<noteq> 0" "\<not> (MIN_CAPACITY < length (buffer d) \<and> 4 * count d \<le> length (buffer d))"
    by blast
  then have "invar (compact d) \<and> entries (compact d) = entries d \<and> count (compact d) = count d"
  proof cases
    case empty
    have none: "buffer d ! i = None" if "i < length (buffer d)" for i
    proof -
      have "at d ((i + length (buffer d) - head d) mod length (buffer d)) = None"
        using assms empty invar_pos [OF assms] by (auto simp: invar_def)
      moreover have "(head d + (i + length (buffer d) - head d) mod length (buffer d))
          mod length (buffer d) = i"
        using assms that by (simp add: invar_def mod_add_right_eq)
      ultimately show ?thesis by (simp add: at_def)
    qed
    have "invar (compact d)"
      using assms empty none k invar_pos [OF assms]
      by (intro invarI [of _ k]) (auto simp: compact_def at_def)
    with empty show ?thesis by (simp add: compact_def entries_def)
  next
    case shrink
    then obtain j where j: "k = Suc j" using k by (cases k) auto
    have c: "max MIN_CAPACITY (length (buffer d) div 2) = MIN_CAPACITY * 2 ^ j"
      by (simp add: k j max_def)
    have "count d \<le> max MIN_CAPACITY (length (buffer d) div 2)"
      using shrink by simp
    from resize_correct [OF assms this c] shrink show ?thesis by (simp add: compact_def)
  next
    case keep
    with assms show ?thesis by (auto simp: compact_def)
  qed
  then show "invar (compact d)" "entries (compact d) = entries d" "count (compact d) = count d"
    by auto
qed

section \<open>The operations on the abstraction\<close>

lemma new_deque_correct: "invar new_deque" "entries new_deque = []"
  by (auto simp: new_deque_def invar_def at_def entries_def MIN_CAPACITY_def intro: exI [of _ 0])

lemma pushBack_correct:
  assumes "invar d"
  shows "invar (pushBack v d)" "entries (pushBack v d) = entries d @ [v]"
proof -
  define e where "e = ensureCapacity d"
  note e = ensureCapacity_correct [OF assms, folded e_def]
  define n where "n = length (buffer e)"
  define slot where "slot = (if head e + count e < n then head e + count e else head e + count e - n)"
  have hd: "head e < n" and lt: "count e < n" using e by (auto simp: invar_def n_def)
  have slot: "slot = (head e + count e) mod n"
    using hd lt by (auto simp: slot_def mod_if)
  have slot_lt: "slot < n" using hd by (simp add: slot)
  define d' where "d' = pushBack v d"
  have d': "d' = e\<lparr>buffer := (buffer e)[slot := Some v], count := count e + 1\<rparr>"
    by (simp add: d'_def pushBack_def Let_def slot_def n_def flip: e_def)
  have at': "at d' i = (if i = count e then Some v else at e i)" if "i < n" for i
  proof -
    have "(head e + i) mod n = slot \<longleftrightarrow> i = count e"
      unfolding slot by (rule mod_shift_inj [OF that lt])
    with slot_lt slot show ?thesis by (auto simp: d' at_def n_def)
  qed
  obtain k where k: "n = MIN_CAPACITY * 2 ^ k" using e(1) by (auto simp: invar_def n_def)
  have "invar d'"
  proof (rule invarI [of _ k])
    show "length (buffer d') = MIN_CAPACITY * 2 ^ k" using k by (simp add: d' n_def)
    show "head d' < length (buffer d')" "count d' \<le> length (buffer d')"
      using hd lt by (simp_all add: d' n_def)
    fix i assume "i < length (buffer d')"
    then have i: "i < n" by (simp add: d' n_def)
    with e(1) have "(at e i \<noteq> None) = (i < count e)" by (simp add: invar_def n_def)
    with at' [OF i] show "(at d' i \<noteq> None) = (i < count d')" by (auto simp: d')
  qed
  moreover have "entries d' = entries d @ [v]"
  proof (rule entries_eqI)
    show "count d' = length (entries d @ [v])" using e(3) by (simp add: d')
    fix i assume "i < length (entries d @ [v])"
    then have i: "i < count e + 1" using e(3) by simp
    have occ: "i < count e \<Longrightarrow> at e i \<noteq> None" using e(1) lt by (auto simp: invar_def n_def)
    from i lt at' [of i] occ show "at d' i = Some ((entries d @ [v]) ! i)"
      using e(2,3) by (auto simp: nth_append simp flip: e(2))
  qed
  ultimately show "invar (pushBack v d)" "entries (pushBack v d) = entries d @ [v]"
    by (simp_all add: d'_def)
qed

lemma pushFront_correct:
  assumes "invar d"
  shows "invar (pushFront v d)" "entries (pushFront v d) = v # entries d"
proof -
  define e where "e = ensureCapacity d"
  note e = ensureCapacity_correct [OF assms, folded e_def]
  define n where "n = length (buffer e)"
  define h where "h = (if head e = 0 then n - 1 else head e - 1)"
  have hd: "head e < n" and lt: "count e < n" using e by (auto simp: invar_def n_def)
  have h: "h < n" "(h + 1) mod n = head e" using hd by (auto simp: h_def)
  define d' where "d' = pushFront v d"
  have d': "d' = e\<lparr>head := h, buffer := (buffer e)[h := Some v], count := count e + 1\<rparr>"
    by (simp add: d'_def pushFront_def Let_def h_def n_def flip: e_def)
  have at0: "at d' 0 = Some v" using h by (simp add: d' at_def n_def)
  have atS: "at d' (Suc i) = at e i" if "Suc i < n" for i
  proof -
    have "(h + Suc i) mod n = (head e + i) mod n"
      using h(2) by (metis add_Suc_shift mod_add_left_eq plus_1_eq_Suc add.commute)
    moreover have "(h + Suc i) mod n \<noteq> (h + 0) mod n"
      using mod_shift_inj [of "Suc i" n 0 h] that by simp
    ultimately show ?thesis using h(1) by (simp add: d' at_def n_def)
  qed
  obtain k where k: "n = MIN_CAPACITY * 2 ^ k" using e(1) by (auto simp: invar_def n_def)
  have "invar d'"
  proof (rule invarI [of _ k])
    show "length (buffer d') = MIN_CAPACITY * 2 ^ k" using k by (simp add: d' n_def)
    show "head d' < length (buffer d')" "count d' \<le> length (buffer d')"
      using h lt by (simp_all add: d' n_def)
    fix i assume "i < length (buffer d')"
    then have i: "i < n" by (simp add: d' n_def)
    show "(at d' i \<noteq> None) = (i < count d')"
    proof (cases i)
      case 0
      with at0 show ?thesis by (simp add: d')
    next
      case (Suc j)
      with i have "(at e j \<noteq> None) = (j < count e)" using e(1) by (simp add: invar_def n_def)
      with Suc i atS [of j] show ?thesis by (simp add: d')
    qed
  qed
  moreover have "entries d' = v # entries d"
  proof (rule entries_eqI)
    show "count d' = length (v # entries d)" using e(3) by (simp add: d')
    fix i assume i: "i < length (v # entries d)"
    show "at d' i = Some ((v # entries d) ! i)"
    proof (cases i)
      case 0
      with at0 show ?thesis by simp
    next
      case (Suc j)
      with i e(3) have j: "j < count e" by simp
      then have "at e j \<noteq> None" using e(1) lt by (auto simp: invar_def n_def)
      with Suc j lt atS [of j] show ?thesis by (auto simp flip: e(2))
    qed
  qed
  ultimately show "invar (pushFront v d)" "entries (pushFront v d) = v # entries d"
    by (simp_all add: d'_def)
qed

lemma popFront_empty: "entries d = [] \<Longrightarrow> popFront d = (None, d)"
  by (auto simp: popFront_def simp flip: length_entries)

lemma popFront_correct:
  assumes "invar d" "entries d \<noteq> []"
  shows "fst (popFront d) = Some (hd (entries d))"
    and "invar (snd (popFront d))" "entries (snd (popFront d)) = tl (entries d)"
proof -
  define n where "n = length (buffer d)"
  have c: "0 < count d" using assms(2) by (simp flip: length_entries)
  have hd: "head d < n" and le: "count d \<le> n" using assms by (auto simp: invar_def n_def)
  have at0: "at d 0 = buffer d ! head d" using hd by (simp add: at_def n_def)
  have "0 < length (buffer d)" using assms(1) by (rule invar_pos)
  then have "at d 0 \<noteq> None" using invar_at [OF assms(1)] c by blast
  then have v: "buffer d ! head d = Some (hd (entries d))"
    using at0 c by (auto simp: hd_conv_nth assms(2))
  define h where "h = (if head d + 1 = n then 0 else head d + 1)"
  have h: "h < n" "h = (head d + 1) mod n" using hd by (auto simp: h_def)
  define d' where "d' = d\<lparr>buffer := (buffer d)[head d := None], head := h, count := count d - 1\<rparr>"
  have pop: "popFront d = (buffer d ! head d, compact d')"
    using c by (simp add: popFront_def Let_def d'_def h_def n_def)
  have slot: "(h + i) mod n = (head d + Suc i) mod n" for i
    unfolding h(2) by (metis add_Suc_shift mod_add_left_eq plus_1_eq_Suc add.commute)
  have at': "at d' i = (if Suc i < n then at d (Suc i) else None)" if "i < n" for i
  proof (cases "Suc i < n")
    case True
    then have "(head d + Suc i) mod n \<noteq> (head d + 0) mod n"
      using mod_shift_inj [of "Suc i" n 0 "head d"] by simp
    with True hd slot show ?thesis by (simp add: d'_def at_def n_def)
  next
    case False
    with that have "Suc i = n" by simp
    with hd slot [of i] show ?thesis by (simp add: d'_def at_def n_def)
  qed
  obtain k where k: "n = MIN_CAPACITY * 2 ^ k" using assms by (auto simp: invar_def n_def)
  have inv': "invar d'"
  proof (rule invarI [of _ k])
    show "length (buffer d') = MIN_CAPACITY * 2 ^ k" using k by (simp add: d'_def n_def)
    show "head d' < length (buffer d')" "count d' \<le> length (buffer d')"
      using h le by (simp_all add: d'_def n_def)
    fix i assume "i < length (buffer d')"
    then have i: "i < n" by (simp add: d'_def n_def)
    have "Suc i < n \<Longrightarrow> (at d (Suc i) \<noteq> None) = (Suc i < count d)"
      using assms by (simp add: invar_def n_def)
    with at' [OF i] le c show "(at d' i \<noteq> None) = (i < count d')" by (auto simp: d'_def)
  qed
  have ent': "entries d' = tl (entries d)"
  proof (rule entries_eqI)
    show "count d' = length (tl (entries d))" by (simp add: d'_def)
    fix i assume "i < length (tl (entries d))"
    then have i: "Suc i < count d" by simp
    with le have "Suc i < n" by simp
    moreover from this i assms have "at d (Suc i) \<noteq> None" by (simp add: invar_def n_def)
    ultimately show "at d' i = Some (tl (entries d) ! i)"
      using at' [of i] i by (auto simp: nth_tl)
  qed
  show "fst (popFront d) = Some (hd (entries d))" by (simp add: pop v)
  show "invar (snd (popFront d))" "entries (snd (popFront d)) = tl (entries d)"
    using compact_correct [OF inv'] by (simp_all add: pop ent')
qed

section \<open>The contract and its clients\<close>

text \<open>
  A client sees a sequence of calls and the values they return. \<open>exec_ops\<close> runs such a sequence
  on any implementation of the four operations; the reference implementation works on lists.
\<close>

datatype 'a deque_op = PushBack 'a | PushFront 'a | PopFront | Clear

fun exec_ops ::
  "('a \<Rightarrow> 'd \<Rightarrow> 'd) \<Rightarrow> ('a \<Rightarrow> 'd \<Rightarrow> 'd) \<Rightarrow> ('d \<Rightarrow> 'a option \<times> 'd) \<Rightarrow> ('d \<Rightarrow> 'd) \<Rightarrow>
   'a deque_op list \<Rightarrow> 'd \<Rightarrow> 'a option list \<times> 'd" where
  "exec_ops pb pf pop clr [] d = ([], d)"
| "exec_ops pb pf pop clr (PushBack x # ops) d = exec_ops pb pf pop clr ops (pb x d)"
| "exec_ops pb pf pop clr (PushFront x # ops) d = exec_ops pb pf pop clr ops (pf x d)"
| "exec_ops pb pf pop clr (PopFront # ops) d =
     (let (r, d') = pop d; (rs, d'') = exec_ops pb pf pop clr ops d' in (r # rs, d''))"
| "exec_ops pb pf pop clr (Clear # ops) d = exec_ops pb pf pop clr ops (clr d)"

definition list_pop :: "'a list \<Rightarrow> 'a option \<times> 'a list" where
  "list_pop xs = (case xs of [] \<Rightarrow> (None, []) | y # ys \<Rightarrow> (Some y, ys))"

definition run_deque :: "'a deque_op list \<Rightarrow> 'a option list \<times> 'a deque" where
  "run_deque ops = exec_ops pushBack pushFront popFront clear ops new_deque"

definition run_list :: "'a deque_op list \<Rightarrow> 'a option list \<times> 'a list" where
  "run_list ops = exec_ops (\<lambda>x xs. xs @ [x]) (\<lambda>x xs. x # xs) list_pop (\<lambda>_. []) ops []"

locale fifo =
  fixes push_back :: "'a \<Rightarrow> 'd \<Rightarrow> 'd"
    and push_front :: "'a \<Rightarrow> 'd \<Rightarrow> 'd"
    and pop_front :: "'d \<Rightarrow> 'a option \<times> 'd"
    and drop_all :: "'d \<Rightarrow> 'd"
    and abs :: "'d \<Rightarrow> 'a list"
    and ok :: "'d \<Rightarrow> bool"
  assumes push_back: "ok d \<Longrightarrow> abs (push_back x d) = abs d @ [x]" "ok d \<Longrightarrow> ok (push_back x d)"
    and push_front: "ok d \<Longrightarrow> abs (push_front x d) = x # abs d" "ok d \<Longrightarrow> ok (push_front x d)"
    and pop_result: "ok d \<Longrightarrow> fst (pop_front d) = fst (list_pop (abs d))"
    and pop_rest: "ok d \<Longrightarrow> abs (snd (pop_front d)) = snd (list_pop (abs d))"
    and pop_ok: "ok d \<Longrightarrow> ok (snd (pop_front d))"
    and drop_all: "abs (drop_all d) = []" "ok (drop_all d)"
begin

lemma exec_refines:
  "ok d \<Longrightarrow>
   (let (rs, d') = exec_ops push_back push_front pop_front drop_all ops d;
        (ss, xs) = exec_ops (\<lambda>x xs. xs @ [x]) (\<lambda>x xs. x # xs) list_pop (\<lambda>_. []) ops (abs d)
    in rs = ss \<and> abs d' = xs \<and> ok d')"
proof (induction ops arbitrary: d)
  case Nil
  then show ?case by simp
next
  case (Cons op ops)
  show ?case
  proof (cases op)
    case (PushBack x)
    with Cons.IH [of "push_back x d"] Cons.prems push_back show ?thesis by simp
  next
    case (PushFront x)
    with Cons.IH [of "push_front x d"] Cons.prems push_front show ?thesis by simp
  next
    case PopFront
    with Cons.IH [of "snd (pop_front d)"] Cons.prems pop_result pop_rest pop_ok show ?thesis
      by (simp add: Let_def split_beta)
  next
    case Clear
    with Cons.IH [of "drop_all d"] drop_all show ?thesis by simp
  qed
qed

end

lemma popFront_list:
  assumes "invar d"
  shows "fst (popFront d) = fst (list_pop (entries d))"
    and "entries (snd (popFront d)) = snd (list_pop (entries d))"
    and "invar (snd (popFront d))"
  using assms popFront_empty [of d] popFront_correct [OF assms]
  by (cases "entries d"; simp add: list_pop_def)+

interpretation dq: fifo pushBack pushFront popFront clear entries invar
  by unfold_locales
    (auto simp: pushBack_correct pushFront_correct popFront_list clear_def new_deque_correct)

text \<open>
  C7: any sequence of calls on a fresh deque returns the values, and leaves the entries, that the
  same calls on a list do; the buffer then still satisfies its invariant, so every slot outside
  the live range is vacant.
\<close>

theorem deque_refines_list:
  "fst (run_deque ops) = fst (run_list ops)
   \<and> entries (snd (run_deque ops)) = snd (run_list ops)
   \<and> invar (snd (run_deque ops))"
  using dq.exec_refines [OF new_deque_correct(1), of ops]
  by (simp add: run_deque_def run_list_def new_deque_correct split_beta Let_def)

end
