(* ===== verification/Session_Types.thy ===== *)
theory Session_Types
  imports Json
begin

text \<open>
  The data model of the session log: messages and content blocks (llm/llm/src/message.ts and
  types.ts), request headers (llm/llm/src/call-config.ts, core/session/src/types.ts) and the
  events of \<open>SessionEventMap\<close>, the plugin-merged inbox, compaction, goal and schedule events
  included. \<open>event_data\<close> is the discriminated union over \<open>type\<close>; the envelope fields
  \<open>sourceEventSeqs\<close> and \<open>surfaceOp\<close>, which the code reads as \<open>unknown\<close> before it has validated
  them, are raw JSON values. Payloads the modelled code never inspects (stream chunks, usage,
  images, tool schemas, failures) are raw JSON values too; the last field of a compaction summary
  holds the fields of its payload that only presentation reads.
\<close>

section \<open>Messages\<close>

datatype content_block =
    TextBlock string
  | ReasoningBlock string
  | ImageBlock json
  | ToolCallBlock (call_id: string) (call_name: string) (call_arguments: string)
  | ToolResultBlock (result_call_id: string) "content_block list" "bool option"

datatype role = System | User | Assistant

datatype message_source =
    UserSource
  | PluginSource (source_plugin: string) "(string \<times> json) list"
  | ModelSource (source_provider: string) (source_model: string) "json option"
  | ToolSource (source_call_id: string)
  | GoalSource (source_goal_id: json) (source_revision: jsnum) (source_round: jsnum)
  | OtherSource string "(string \<times> json) list"

record message =
  msg_id :: string
  msg_role :: role
  msg_content :: "content_block list"
  msg_source :: message_source

section \<open>Why a turn ended\<close>

datatype cancel_cause =
    CancelUser | CancelParent | CancelHook string | CancelDisposed | CancelLegacy

datatype turn_end_reason =
    Completed
  | Aborted cancel_cause
  | Blocked
  | Errored json
  | MaxTokens
  | Interrupted
  | OtherReason string

section \<open>Request headers\<close>

record call_config =
  cc_provider :: string
  cc_model :: string
  cc_reasoningEffort :: "string option"
  cc_temperature :: "jsnum option"
  cc_maxTokens :: "jsnum option"
  cc_stop :: "string list option"

text \<open>Each marker is \<open>true\<close> or absent.\<close>

record adapter_defaults =
  ad_reasoningEffort :: bool
  ad_maxTokens :: bool

record epoch_header =
  eh_config :: call_config
  eh_adapterDefaults :: "adapter_defaults option"
  eh_system :: "string option"
  eh_tools :: "json list option"

record request_context =
  rc_provider :: string
  rc_model :: string
  rc_contextWindow :: "jsnum option"

section \<open>Payloads of plugin events\<close>

datatype inbox_target = NextTurn | NextStep

record inbox_splice =
  sp_target :: inbox_target
  sp_start :: int
  sp_removedCount :: "int option"
  sp_inserted :: "message list"
  sp_canceled :: bool

record tool_result =
  tr_turn :: int
  tr_step :: int
  tr_message :: message
  tr_error :: "(string \<times> string) option"
  tr_meta :: "json option"

record shadow =
  sh_start :: json
  sh_end :: json
  sh_seqs :: "json list"
  sh_tokenCount :: jsnum

section \<open>Events\<close>

datatype event_data =
    TurnStart int
  | TurnEnd int turn_end_reason
  | StepStart int int
  | StepEnd int int
  | UserMessage message
  | AssistantChunk int int json
  | AssistantMessage int int message "json option" bool
  | ToolCall int int string string string
  | ToolResult tool_result
  | RequestHeader epoch_header string bool
  | RequestContext request_context
  | EndSeed
  | InboxSpliced inbox_splice
  | CompactionStart json "json option" "int option"
  | CompactionSummary json "json option" shadow "(string \<times> json) list"
  | CompactionEnd json "json option" "int option" "string option"
  | CompactionPrune shadow
  | GoalChange json
  | ScheduleChange json
  | OtherEvent string json

record session_event =
  ev_seq :: nat
  ev_time :: int
  ev_data :: event_data
  ev_ignorable :: bool
  ev_sources :: "json option"
  ev_surfaceOp :: "json option"

text \<open>The discriminator \<open>event.type\<close>.\<close>

fun event_type :: "event_data \<Rightarrow> string" where
  "event_type (TurnStart _) = ''turn/start''"
| "event_type (TurnEnd _ _) = ''turn/end''"
| "event_type (StepStart _ _) = ''step/start''"
| "event_type (StepEnd _ _) = ''step/end''"
| "event_type (UserMessage _) = ''user/message''"
| "event_type (AssistantChunk _ _ _) = ''assistant/chunk''"
| "event_type (AssistantMessage _ _ _ _ _) = ''assistant/message''"
| "event_type (ToolCall _ _ _ _ _) = ''tool/call''"
| "event_type (ToolResult _) = ''tool/result''"
| "event_type (RequestHeader _ _ _) = ''request/header''"
| "event_type (RequestContext _) = ''request/context''"
| "event_type EndSeed = ''session/end-seed''"
| "event_type (InboxSpliced _) = ''agent/inbox/spliced''"
| "event_type (CompactionStart _ _ _) = ''compaction/start''"
| "event_type (CompactionSummary _ _ _ _) = ''compaction/summary''"
| "event_type (CompactionEnd _ _ _ _) = ''compaction/end''"
| "event_type (CompactionPrune _) = ''compaction/prune''"
| "event_type (GoalChange _) = ''goal/change''"
| "event_type (ScheduleChange _) = ''schedule/change''"
| "event_type (OtherEvent t _) = t"

text \<open>The log-only events carry no surface metadata; a shorthand builds them.\<close>

definition log_event :: "nat \<Rightarrow> int \<Rightarrow> event_data \<Rightarrow> session_event" where
  "log_event s t d =
     \<lparr>ev_seq = s, ev_time = t, ev_data = d, ev_ignorable = False, ev_sources = None, ev_surfaceOp = None\<rparr>"

lemma log_event_simps [simp]:
  "ev_seq (log_event s t d) = s" "ev_time (log_event s t d) = t" "ev_data (log_event s t d) = d"
  "ev_sources (log_event s t d) = None" "ev_surfaceOp (log_event s t d) = None"
  by (simp_all add: log_event_def)

text \<open>The two \<open>SurfaceOp\<close> variants as the values that enter the log.\<close>

definition append_op :: json where
  "append_op = JStr ''append''"

definition replace_op :: "nat \<Rightarrow> nat \<Rightarrow> json" where
  "replace_op s e = JObj [(''op'', JStr ''replace''), (''start'', num s), (''end'', num e)]"

section \<open>Contiguous logs\<close>

text \<open>\<open>seq = log.length\<close> at every append: event \<open>i\<close> of a log has sequence number \<open>i\<close>.\<close>

definition contiguous :: "session_event list \<Rightarrow> bool" where
  "contiguous log \<longleftrightarrow> (\<forall>i < length log. ev_seq (log ! i) = i)"

lemma contiguous_Nil [simp]: "contiguous []"
  by (simp add: contiguous_def)

lemma contiguous_snoc [simp]: "contiguous (log @ [e]) \<longleftrightarrow> contiguous log \<and> ev_seq e = length log"
  by (auto simp: contiguous_def nth_append less_Suc_eq)

lemma contiguous_take: "contiguous log \<Longrightarrow> contiguous (take n log)"
  by (auto simp: contiguous_def)

lemma contiguous_prefix: "contiguous (xs @ ys) \<Longrightarrow> contiguous xs"
  using contiguous_take [of "xs @ ys" "length xs"] by simp

section \<open>JSON view of a tool result\<close>

text \<open>The value the comparison of a rewrite with its original reads.\<close>

fun block_json :: "content_block \<Rightarrow> json" where
  "block_json (TextBlock t) = JObj [(''type'', JStr ''text''), (''text'', JStr t)]"
| "block_json (ReasoningBlock t) = JObj [(''type'', JStr ''reasoning''), (''text'', JStr t)]"
| "block_json (ImageBlock a) = JObj [(''type'', JStr ''image''), (''attachment'', a)]"
| "block_json (ToolCallBlock i n a) =
     JObj [(''type'', JStr ''tool-call''), (''id'', JStr i), (''name'', JStr n), (''arguments'', JStr a)]"
| "block_json (ToolResultBlock i c e) =
     JObj ([(''type'', JStr ''tool-result''), (''toolCallId'', JStr i), (''content'', JArr (map block_json c))]
       @ (case e of None \<Rightarrow> [] | Some b \<Rightarrow> [(''isError'', JBool b)]))"

fun role_json :: "role \<Rightarrow> json" where
  "role_json System = JStr ''system''"
| "role_json User = JStr ''user''"
| "role_json Assistant = JStr ''assistant''"

fun source_json :: "message_source \<Rightarrow> json" where
  "source_json UserSource = JObj [(''kind'', JStr ''user'')]"
| "source_json (PluginSource p fs) = JObj ([(''kind'', JStr ''plugin''), (''plugin'', JStr p)] @ fs)"
| "source_json (ModelSource p m r) =
     JObj ([(''kind'', JStr ''model''), (''provider'', JStr p), (''model'', JStr m)]
       @ (case r of None \<Rightarrow> [] | Some v \<Rightarrow> [(''replayState'', v)]))"
| "source_json (ToolSource c) = JObj [(''kind'', JStr ''tool''), (''callId'', JStr c)]"
| "source_json (GoalSource g r n) =
     JObj [(''kind'', JStr ''goal''), (''goalId'', g), (''revision'', JNum r), (''round'', JNum n)]"
| "source_json (OtherSource k fs) = JObj ((''kind'', JStr k) # fs)"

end
