(* ===== verification/Seq_Ranges.thy ===== *)
theory Seq_Ranges
  imports Session_Types
begin

text \<open>
  The range codec for stored \<open>sourceEventSeqs\<close> arrays, core/session/src/seq-ranges.ts. Runs of at
  least three consecutive sequence numbers become inclusive pairs. The decoder works on parsed
  JSON of unknown shape and rejects what the encoder cannot have written. The results: decoding
  inverts encoding, the encoding is never longer than the list, and whatever the decoder accepts
  holds only sequence numbers, at most \<open>maxEntries\<close> of them.
\<close>

section \<open>Encoding\<close>

fun isStrictlyIncreasing :: "nat list \<Rightarrow> bool" where
  "isStrictlyIncreasing [] = True"
| "isStrictlyIncreasing [x] = True"
| "isStrictlyIncreasing (x # y # zs) = (x < y \<and> isStrictlyIncreasing (y # zs))"

text \<open>The inner \<open>while\<close>: the last index of the consecutive run that starts at \<open>e\<close>.\<close>

function run_end :: "nat list \<Rightarrow> nat \<Rightarrow> nat" where
  "run_end vs e =
     (if e + 1 < length vs \<and> vs ! (e + 1) = vs ! e + 1 then run_end vs (e + 1) else e)"
  by pat_completeness auto
termination
  by (relation "measure (\<lambda>(vs, e). length vs - e)") auto

declare run_end.simps [simp del]

lemma run_end_ge: "e \<le> run_end vs e"
proof (induction vs e rule: run_end.induct)
  case (1 vs e)
  then show ?case by (subst run_end.simps) (auto split: if_splits)
qed

function encode_from :: "nat list \<Rightarrow> nat \<Rightarrow> json list" where
  "encode_from vs start =
     (if start < length vs then
        let e = run_end vs start in
        (if e - start \<ge> 2 then [JArr [num (vs ! start), num (vs ! e)]]
         else map num (slice start (e + 1) vs))
        @ encode_from vs (e + 1)
      else [])"
  by pat_completeness auto
termination
proof (relation "measure (\<lambda>(vs, start). length vs - start)", goal_cases)
  case (2 vs start e)
  then show ?case using run_end_ge [of start vs] by auto
qed simp

declare encode_from.simps [simp del]

definition encodeSeqRanges :: "nat list \<Rightarrow> json list" where
  "encodeSeqRanges vs =
     (if \<not> isStrictlyIncreasing vs then map num vs else encode_from vs 0)"

section \<open>Decoding\<close>

datatype seq_error =
    NotAnArray | NotASeq | ExceedsEvent | NotAPair | StartAfterEnd | RangeExceedsEvent
  | NotIncreasing | NegativeZero

text \<open>\<open>assertSeq\<close> lets negative zero pass; the \<open>SessionSeq\<close> constructor then rejects it.\<close>

fun assertSeq :: "json \<Rightarrow> bool" where
  "assertSeq (JNum n) = (isSafeInteger n \<and> 0 \<le> num_int n)"
| "assertSeq _ = False"

fun seqValue :: "json \<Rightarrow> seq_error + nat" where
  "seqValue (JNum NNegZero) = Inl NegativeZero"
| "seqValue v = Inr (seq_of v)"

definition decode_entry ::
  "int \<Rightarrow> nat list \<times> bool \<Rightarrow> json \<Rightarrow> seq_error + nat list \<times> bool" where
  "decode_entry maxEntries st entry =
     (let (decoded, hasRange) = st in
      case entry of
        JNum n \<Rightarrow>
          if \<not> assertSeq entry then Inl NotASeq
          else if maxEntries \<le> int (length decoded) then Inl ExceedsEvent
          else rbind (seqValue entry) (\<lambda>s. Inr (decoded @ [s], hasRange))
      | JArr [s, e] \<Rightarrow>
          if \<not> assertSeq s then Inl NotASeq
          else if \<not> assertSeq e then Inl NotASeq
          else if seq_of e < seq_of s then Inl StartAfterEnd
          else if maxEntries - int (length decoded) < int (seq_of e) - int (seq_of s) + 1
          then Inl RangeExceedsEvent
          else rbind (seqValue s) (\<lambda>s'. Inr (decoded @ [s'..<Suc (seq_of e)], True))
      | _ \<Rightarrow> Inl NotAPair)"

definition decodeSeqRanges :: "json \<Rightarrow> int \<Rightarrow> seq_error + nat list" where
  "decodeSeqRanges value maxEntries =
     (case value of
        JArr xs \<Rightarrow>
          rbind (run (decode_entry maxEntries) ([], False) xs) (\<lambda>(decoded, hasRange).
            if hasRange \<and> \<not> isStrictlyIncreasing decoded then Inl NotIncreasing
            else Inr decoded)
      | _ \<Rightarrow> Inl NotAnArray)"

section \<open>Round trip\<close>

lemma run_end_bound: "e < length vs \<Longrightarrow> run_end vs e < length vs"
proof (induction vs e rule: run_end.induct)
  case (1 vs e)
  then show ?case by (subst run_end.simps) auto
qed

lemma run_end_run: "e \<le> j \<Longrightarrow> j \<le> run_end vs e \<Longrightarrow> vs ! j = vs ! e + (j - e)"
proof (induction vs e rule: run_end.induct)
  case (1 vs e)
  show ?case
  proof (cases "e + 1 < length vs \<and> vs ! (e + 1) = vs ! e + 1 \<and> j \<noteq> e")
    case True
    with "1.prems" have "j \<le> run_end vs (e + 1)" by (simp add: run_end.simps [of vs e])
    with True "1.IH" "1.prems" have "vs ! j = vs ! (e + 1) + (j - (e + 1))" by simp
    moreover have "vs ! (e + 1) = vs ! e + 1" "e < j" using True "1.prems" by auto
    ultimately show ?thesis by arith
  next
    case False
    with "1.prems" show ?thesis by (auto simp: run_end.simps [of vs e] split: if_splits)
  qed
qed

lemma run_slice:
  assumes "start < length vs"
  shows "slice start (Suc (run_end vs start)) vs = [vs ! start ..< Suc (vs ! run_end vs start)]"
proof (rule nth_equalityI)
  note ge = run_end_ge [of start vs] and lt = run_end_bound [OF assms]
  have e: "vs ! run_end vs start = vs ! start + (run_end vs start - start)"
    using run_end_run [OF ge order_refl] .
  show "length (slice start (Suc (run_end vs start)) vs)
      = length [vs ! start ..< Suc (vs ! run_end vs start)]"
    using ge lt e by (simp add: slice_def) arith
  fix i assume "i < length (slice start (Suc (run_end vs start)) vs)"
  then have i: "start + i \<le> run_end vs start" using lt by (simp add: slice_def)
  then have "vs ! (start + i) = vs ! start + i" using run_end_run [of start "start + i" vs] by simp
  with i e lt show "slice start (Suc (run_end vs start)) vs ! i
      = [vs ! start ..< Suc (vs ! run_end vs start)] ! i"
    by (simp add: slice_def nth_upt del: upt_Suc)
qed

lemma decode_num:
  assumes "int s \<le> MAX_SAFE_INTEGER" "int (length dec) < maxE"
  shows "decode_entry maxE (dec, b) (num s) = Inr (dec @ [s], b)"
  using assms by (simp add: decode_entry_def num_def)

lemma decode_nums:
  assumes "\<forall>s \<in> set ss. int s \<le> MAX_SAFE_INTEGER" "int (length dec + length ss) \<le> maxE"
  shows "run (decode_entry maxE) (dec, b) (map num ss) = Inr (dec @ ss, b)"
  using assms by (induction ss arbitrary: dec) (auto simp: decode_num)

lemma decode_range:
  assumes "s \<le> e" "int e \<le> MAX_SAFE_INTEGER" "int (length dec) + (int e - int s) + 1 \<le> maxE"
  shows "decode_entry maxE (dec, b) (JArr [num s, num e]) = Inr (dec @ [s..<Suc e], True)"
  using assms by (simp add: decode_entry_def num_def del: upt_Suc)

lemma decode_encode_from:
  assumes "\<forall>s \<in> set vs. int s \<le> MAX_SAFE_INTEGER" "int (length vs) \<le> maxE" "start \<le> length vs"
  shows "\<exists>b'. run (decode_entry maxE) (take start vs, b) (encode_from vs start) = Inr (vs, b')"
  using assms
proof (induction vs start arbitrary: b rule: encode_from.induct)
  case (1 vs start)
  show ?case
  proof (cases "start < length vs")
    case False
    with "1.prems" show ?thesis by (simp add: encode_from.simps [of vs "length vs"])
  next
    case True
    define e where "e = run_end vs start"
    note ge = run_end_ge [of start vs, folded e_def] and lt = run_end_bound [OF True, folded e_def]
    note sl = run_slice [OF True, folded e_def]
    have tk: "take start vs @ slice start (Suc e) vs = take (Suc e) vs"
      using ge append_take_drop_id [of start "take (Suc e) vs"] by (simp add: slice_def min_def)
    have IH: "\<exists>b'. run (decode_entry maxE) (take (Suc e) vs, c) (encode_from vs (Suc e)) = Inr (vs, b')"
      for c using "1.IH" [OF True refl, folded e_def, of c] "1.prems" lt by (simp add: e_def)
    have unf: "encode_from vs start =
        (if 2 \<le> e - start then [JArr [num (vs ! start), num (vs ! e)]]
         else map num (slice start (Suc e) vs)) @ encode_from vs (Suc e)"
      using True by (subst encode_from.simps) (simp add: Let_def e_def)
    have val: "vs ! e = vs ! start + (e - start)"
      using run_end_run [of start e vs] ge by (simp add: e_def)
    show ?thesis
    proof (cases "2 \<le> e - start")
      case True
      have "decode_entry maxE (take start vs, b) (JArr [num (vs ! start), num (vs ! e)])
          = Inr (take start vs @ [vs ! start ..< Suc (vs ! e)], True)"
      proof (rule decode_range)
        show "vs ! start \<le> vs ! e" using val by simp
        show "int (vs ! e) \<le> MAX_SAFE_INTEGER" using "1.prems"(1) lt by simp
        show "int (length (take start vs)) + (int (vs ! e) - int (vs ! start)) + 1 \<le> maxE"
          using "1.prems"(2,3) val lt ge by simp
      qed
      with True IH [of True] tk sl unf show ?thesis by (simp del: upt_Suc)
    next
      case False
      have "set (slice start (Suc e) vs) \<subseteq> set vs"
        by (auto simp: slice_def dest: in_set_dropD in_set_takeD)
      moreover have "length (take start vs) + length (slice start (Suc e) vs) \<le> length vs"
        using lt by (simp add: slice_def)
      ultimately have "run (decode_entry maxE) (take start vs, b) (map num (slice start (Suc e) vs))
          = Inr (take (Suc e) vs, b)"
        using "1.prems" tk by (subst decode_nums) auto
      with False IH [of b] unf show ?thesis by (simp add: run_append)
    qed
  qed
qed

text \<open>
  C9: decoding the stored form of any list of sequence numbers gives the list back, for every
  event whose bound admits the list.
\<close>

theorem decode_encode_seqs:
  assumes "\<forall>s \<in> set vs. int s \<le> MAX_SAFE_INTEGER" "int (length vs) \<le> maxE"
  shows "decodeSeqRanges (JArr (encodeSeqRanges vs)) maxE = Inr vs"
proof (cases "isStrictlyIncreasing vs")
  case True
  with decode_encode_from [OF assms, of 0 False] show ?thesis
    by (auto simp: decodeSeqRanges_def encodeSeqRanges_def)
next
  case False
  with assms decode_nums [of vs "[]" maxE False] show ?thesis
    by (simp add: decodeSeqRanges_def encodeSeqRanges_def)
qed

theorem decode_encode_seqs_witness:
  "decodeSeqRanges (JArr (encodeSeqRanges [3, 5, 6, 7, 8, 11])) 20 = Inr [3, 5, 6, 7, 8, 11]"
  by (rule decode_encode_seqs) (simp_all add: MAX_SAFE_INTEGER_def)

section \<open>What the decoder accepts\<close>

definition decoded_ok :: "int \<Rightarrow> nat list \<times> bool \<Rightarrow> bool" where
  "decoded_ok maxE st \<longleftrightarrow>
     int (length (fst st)) \<le> maxE \<and> (\<forall>s \<in> set (fst st). int s \<le> MAX_SAFE_INTEGER)"

lemma assertSeq_bound: "assertSeq v \<Longrightarrow> int (seq_of v) \<le> MAX_SAFE_INTEGER"
  by (cases v rule: assertSeq.cases; cases "case v of JNum n \<Rightarrow> n")
    (auto simp: MAX_SAFE_INTEGER_def split: jsnum.splits elim!: isSafeInteger.elims)

lemma seqValue_Inr: "seqValue v = Inr s \<Longrightarrow> s = seq_of v"
  by (cases v rule: seqValue.cases) auto

lemma decode_entry_ok:
  assumes "decoded_ok maxE st" "decode_entry maxE st entry = Inr st'"
  shows "decoded_ok maxE st'"
proof -
  obtain dec b where st: "st = (dec, b)" by (cases st)
  show ?thesis
  proof (cases entry)
    case (JNum n)
    with assms st show ?thesis
      using assertSeq_bound [of entry] seqValue_Inr [of entry]
      by (auto simp: decode_entry_def decoded_ok_def rbind_Inr_iff split: if_splits)
  next
    case (JArr xs)
    with assms st obtain s e where xs: "xs = [s, e]"
      by (auto simp: decode_entry_def split: list.splits)
    with JArr assms st show ?thesis
      using assertSeq_bound [of s] assertSeq_bound [of e] seqValue_Inr [of s]
      by (auto simp: decode_entry_def decoded_ok_def rbind_Inr_iff split: if_splits)
  qed (use assms st in \<open>auto simp: decode_entry_def\<close>)
qed

interpretation seq_decoder: checked_fold "decode_entry (int n)" "([], False)" "decoded_ok (int n)"
  for n
proof
  show "decoded_ok (int n) ([], False)" by (simp add: decoded_ok_def)
qed (rule decode_entry_ok)

text \<open>
  Whatever the decoder accepts under the bound of an event holds at most that many entries,
  each of them an admissible sequence number; and for accepted input the two stated rejections
  (an entry beyond the bound, a range beyond the bound) are the only ones that read the bound.
\<close>

theorem decode_seqs_bounded:
  assumes "decodeSeqRanges value (int n) = Inr vs"
  shows "length vs \<le> n \<and> (\<forall>s \<in> set vs. int s \<le> MAX_SAFE_INTEGER)"
proof -
  from assms obtain xs b where "run (decode_entry (int n)) ([], False) xs = Inr (vs, b)"
    by (auto simp: decodeSeqRanges_def rbind_Inr_iff split: json.splits if_splits)
  from seq_decoder.inv_run [OF this] show ?thesis by (simp add: decoded_ok_def)
qed

theorem decode_seqs_bounded_witness:
  "length [2, 4, 5, 6 :: nat] \<le> 4 \<and> int 6 \<le> MAX_SAFE_INTEGER"
proof -
  have "decodeSeqRanges (JArr [num 2, JArr [num 4, num 6]]) (int 4) = Inr [2, 4, 5, 6]"
    by (simp add: decodeSeqRanges_def decode_entry_def num_def MAX_SAFE_INTEGER_def upt_rec)
  from decode_seqs_bounded [OF this] show ?thesis by simp
qed

end
