(* ===== verification/Surface.thy ===== *)
theory Surface
  imports Session_Types "HOL-Library.Multiset"
begin

text \<open>
  The ordered surface over the session log, core/session/src/surface.ts: which events produce
  model messages, how an event enters the surface (appended to the tail, or replacing a range of
  surface nodes), the validation of surface metadata, the full-log fold \<open>foldSurface\<close> and the
  incremental \<open>SurfaceManager\<close>. Errors are one constructor per throw of the file. The results:
  every surface event is on the surface or was shadowed, exactly once; the nodes are distinct
  positions of surface events; a replaced tool result differs from its replacement in content
  only; and the incremental manager always shows the nodes the full fold computes.
\<close>

section \<open>Classification and projection\<close>

fun isSurfaceEligible :: "event_data \<Rightarrow> bool" where
  "isSurfaceEligible (UserMessage _) = True"
| "isSurfaceEligible (AssistantMessage _ _ _ _ _) = True"
| "isSurfaceEligible (ToolResult _) = True"
| "isSurfaceEligible _ = False"

definition isSurfaceEligibleType :: "string \<Rightarrow> bool" where
  "isSurfaceEligibleType t \<longleftrightarrow>
     t \<in> set [''user/message'', ''assistant/message'', ''tool/result'']"

definition isSurfaceEvent :: "session_event \<Rightarrow> bool" where
  "isSurfaceEvent e \<longleftrightarrow> isSurfaceEligible (ev_data e) \<and> ev_surfaceOp e \<noteq> None"

definition isAppendSurfaceEvent :: "session_event \<Rightarrow> bool" where
  "isAppendSurfaceEvent e \<longleftrightarrow> isSurfaceEvent e \<and> ev_surfaceOp e = Some append_op"

definition isReplacementSurfaceEvent :: "session_event \<Rightarrow> bool" where
  "isReplacementSurfaceEvent e \<longleftrightarrow> isSurfaceEvent e \<and> ev_surfaceOp e \<noteq> Some append_op"

fun deriveData :: "event_data \<Rightarrow> message option" where
  "deriveData (UserMessage m) = Some m"
| "deriveData (AssistantMessage _ _ m _ _) = (if msg_content m = [] then None else Some m)"
| "deriveData (ToolResult r) = Some (tr_message r)"
| "deriveData _ = None"

definition deriveEventMessage :: "session_event \<Rightarrow> message option" where
  "deriveEventMessage e = deriveData (ev_data e)"

section \<open>Validation of surface metadata\<close>

datatype surface_error =
    SeqNotContiguous
  | OpOnLogOnly | SourcesOnLogOnly | MissingOp | InvalidOp | InvalidReplaceOp
  | SourcesNotArray | EmptySources | BadSource | DuplicateSources | SourceNotEarlier
  | ShadowedNotCited "nat list"
  | StartNotOnSurface | EndNotOnSurface | RangeReversed
  | RewriteNotOneNode | RewriteNotToolResult | RewriteChangesMore

datatype surface_op = Append | Replace nat nat

definition isReplaceOp :: "json \<Rightarrow> bool" where
  "isReplaceOp op \<longleftrightarrow>
     length (object_keys op) = 3
     \<and> has_own op ''op'' \<and> has_own op ''start'' \<and> has_own op ''end''
     \<and> jget op ''op'' = Some (JStr ''replace'')
     \<and> (case jget op ''start'' of Some v \<Rightarrow> isEventSeq v | None \<Rightarrow> False)
     \<and> (case jget op ''end'' of Some v \<Rightarrow> isEventSeq v | None \<Rightarrow> False)"

definition surfaceOpOf :: "session_event \<Rightarrow> surface_error + surface_op option" where
  "surfaceOpOf e =
     (if \<not> isSurfaceEligible (ev_data e) then
        if ev_surfaceOp e \<noteq> None then Inl OpOnLogOnly
        else if ev_sources e \<noteq> None then Inl SourcesOnLogOnly
        else Inr None
      else
        case ev_surfaceOp e of
          None \<Rightarrow> Inl MissingOp
        | Some op \<Rightarrow>
            if op = append_op then Inr (Some Append)
            else (case op of
                    JObj _ \<Rightarrow>
                      if isReplaceOp op
                      then Inr (Some (Replace (seq_of (the (jget op ''start'')))
                                              (seq_of (the (jget op ''end'')))))
                      else Inl InvalidReplaceOp
                  | _ \<Rightarrow> Inl InvalidOp))"

fun isAssistantMessage :: "event_data \<Rightarrow> bool" where
  "isAssistantMessage (AssistantMessage _ _ _ _ _) = True"
| "isAssistantMessage _ = False"

definition citesShadowed :: "nat list \<Rightarrow> nat list \<Rightarrow> surface_error + unit" where
  "citesShadowed sources shadowedSeqs =
     (let missing = filter (\<lambda>s. s \<notin> set sources) shadowedSeqs in
      if missing \<noteq> [] then Inl (ShadowedNotCited missing) else Inr ())"

definition assertProvenance :: "session_event \<Rightarrow> nat list \<Rightarrow> surface_error + unit" where
  "assertProvenance e shadowedSeqs =
     (case ev_sources e of
        None \<Rightarrow> citesShadowed [] shadowedSeqs
      | Some (JArr raw) \<Rightarrow>
          if raw = [] \<and> \<not> isAssistantMessage (ev_data e) then Inl EmptySources
          else if \<not> list_all isEventSeq raw then Inl BadSource
          else
            let sources = map seq_of raw in
            if \<not> distinct sources then Inl DuplicateSources
            else if list_ex (\<lambda>s. ev_seq e \<le> s) sources then Inl SourceNotEarlier
            else citesShadowed sources shadowedSeqs
      | Some _ \<Rightarrow> Inl SourcesNotArray)"

section \<open>The fold state and its transitions\<close>

record fold_state =
  fs_nodes :: "nat list"
  fs_replaceGeneration :: nat

definition createFoldState :: fold_state where
  "createFoldState = \<lparr>fs_nodes = [], fs_replaceGeneration = 0\<rparr>"

record replacement =
  rp_seq :: nat
  rp_start :: nat
  rp_end :: nat
  rp_shadowedSeqs :: "nat list"

datatype surface_plan = AppendPlan nat | ReplacePlan replacement nat nat

definition replacementRange ::
  "fold_state \<Rightarrow> nat \<Rightarrow> nat \<Rightarrow> surface_error + nat \<times> nat \<times> nat list" where
  "replacementRange st s e =
     (case index_of s (fs_nodes st) of
        None \<Rightarrow> Inl StartNotOnSurface
      | Some startIdx \<Rightarrow>
          (case index_of e (fs_nodes st) of
             None \<Rightarrow> Inl EndNotOnSurface
           | Some endIdx \<Rightarrow>
               if endIdx < startIdx then Inl RangeReversed
               else Inr (startIdx, endIdx, slice startIdx (endIdx + 1) (fs_nodes st))))"

text \<open>The data of a tool result with the content of its single block set to \<open>null\<close>.\<close>

definition content_null :: "content_block list \<Rightarrow> json" where
  "content_null blocks =
     (case blocks of
        [] \<Rightarrow> JObj [(''content'', JNull)]
      | b # _ \<Rightarrow> (case block_json b of
                   JObj kvs \<Rightarrow> JObj (map_set ''content'' JNull kvs)
                 | _ \<Rightarrow> JObj [(''content'', JNull)]))"

definition tool_result_rest :: "tool_result \<Rightarrow> json" where
  "tool_result_rest r =
     JObj ([(''turn'', JNum (NInt (tr_turn r))), (''step'', JNum (NInt (tr_step r))),
            (''message'', JObj [(''id'', JStr (msg_id (tr_message r))),
                               (''role'', role_json (msg_role (tr_message r))),
                               (''source'', source_json (msg_source (tr_message r))),
                               (''content'', JArr [content_null (msg_content (tr_message r))])])]
       @ (case tr_error r of None \<Rightarrow> []
          | Some (n, c) \<Rightarrow> [(''error'', JObj [(''name'', JStr n), (''code'', JStr c)])])
       @ (case tr_meta r of None \<Rightarrow> [] | Some v \<Rightarrow> [(''meta'', v)]))"

definition event_at :: "session_event list \<Rightarrow> nat \<Rightarrow> nat \<Rightarrow> session_event option" where
  "event_at events baseSeq s =
     (if baseSeq \<le> s \<and> s - baseSeq < length events then Some (events ! (s - baseSeq)) else None)"

definition assertToolResultRewrite ::
  "session_event \<Rightarrow> nat list \<Rightarrow> session_event list \<Rightarrow> nat \<Rightarrow> surface_error + unit" where
  "assertToolResultRewrite e shadowedSeqs events baseSeq =
     (case ev_data e of
        ToolResult r \<Rightarrow>
          (case shadowedSeqs of
             [originalSeq] \<Rightarrow>
               (case map_option ev_data (event_at events baseSeq originalSeq) of
                  Some (ToolResult orig) \<Rightarrow>
                    if isDeepEqualJson (tool_result_rest orig) (tool_result_rest r) then Inr ()
                    else Inl RewriteChangesMore
                | _ \<Rightarrow> Inl RewriteNotToolResult)
           | _ \<Rightarrow> Inl RewriteNotOneNode)
      | _ \<Rightarrow> Inr ())"

definition planSurfaceEvent ::
  "fold_state \<Rightarrow> session_event \<Rightarrow> nat \<Rightarrow> session_event list \<Rightarrow> nat \<Rightarrow>
   surface_error + surface_plan option" where
  "planSurfaceEvent st e expectedSeq events baseSeq =
     (if ev_seq e \<noteq> expectedSeq then Inl SeqNotContiguous
      else rbind (surfaceOpOf e) (\<lambda>op. case op of
        None \<Rightarrow> Inr None
      | Some Append \<Rightarrow>
          rbind (assertProvenance e []) (\<lambda>_. Inr (Some (AppendPlan (ev_seq e))))
      | Some (Replace s t) \<Rightarrow>
          rbind (replacementRange st s t) (\<lambda>(startIdx, endIdx, shadowedSeqs).
          rbind (assertProvenance e shadowedSeqs) (\<lambda>_.
          rbind (assertToolResultRewrite e shadowedSeqs events baseSeq) (\<lambda>_.
            Inr (Some (ReplacePlan
              \<lparr>rp_seq = ev_seq e, rp_start = s, rp_end = t, rp_shadowedSeqs = shadowedSeqs\<rparr>
              startIdx endIdx)))))))"

fun applySurfacePlan :: "fold_state \<Rightarrow> surface_plan option \<Rightarrow> fold_state \<times> replacement option" where
  "applySurfacePlan st None = (st, None)"
| "applySurfacePlan st (Some (AppendPlan s)) = (st\<lparr>fs_nodes := fs_nodes st @ [s]\<rparr>, None)"
| "applySurfacePlan st (Some (ReplacePlan r startIdx endIdx)) =
     (st\<lparr>fs_nodes := spliced startIdx (endIdx - startIdx + 1) [rp_seq r] (fs_nodes st),
         fs_replaceGeneration := fs_replaceGeneration st + 1\<rparr>, Some r)"

definition applySurfaceEvent ::
  "fold_state \<Rightarrow> session_event \<Rightarrow> nat \<Rightarrow> session_event list \<Rightarrow> nat \<Rightarrow>
   surface_error + fold_state \<times> replacement option" where
  "applySurfaceEvent st e expectedSeq events baseSeq =
     rbind (planSurfaceEvent st e expectedSeq events baseSeq)
       (\<lambda>plan. Inr (applySurfacePlan st plan))"

text \<open>The loop of \<open>foldSurface\<close>; the running index is the third component of its state.\<close>

type_synonym fold_acc = "fold_state \<times> replacement list \<times> nat"

definition fold_step ::
  "session_event list \<Rightarrow> fold_acc \<Rightarrow> session_event \<Rightarrow> surface_error + fold_acc" where
  "fold_step events acc e =
     (let (st, reps, index) = acc in
      rbind (applySurfaceEvent st e index events 0) (\<lambda>(st', rep).
        Inr (st', (case rep of None \<Rightarrow> reps | Some r \<Rightarrow> reps @ [r]), index + 1)))"

definition foldSurface ::
  "session_event list \<Rightarrow> surface_error + nat list \<times> replacement list" where
  "foldSurface events =
     rbind (run (fold_step events) (createFoldState, [], 0) events)
       (\<lambda>(st, reps, _). Inr (fs_nodes st, reps))"

section \<open>The incremental manager\<close>

text \<open>
  \<open>SurfaceManager\<close> holds a reference to the session's log array, which the session grows; the
  operations take that array as an argument. Every operation returns the manager also when it
  throws: a throw inside \<open>_processDelta\<close> keeps the events folded so far. A candidate is recognised
  by value instead of by reference; theorem \<open>surface_manager_refines_fold\<close> shows that reusing the
  plan and replanning give the same answers.
\<close>

record surface_manager =
  sm_state :: fold_state
  sm_lastProcessedSeq :: int
  sm_pendingPlan :: "(session_event \<times> nat \<times> surface_plan option) option"

definition new_surface_manager :: "nat \<Rightarrow> surface_manager" where
  "new_surface_manager baseSeq =
     \<lparr>sm_state = createFoldState, sm_lastProcessedSeq = int baseSeq - 1, sm_pendingPlan = None\<rparr>"

definition delta_step ::
  "nat \<Rightarrow> session_event list \<Rightarrow> surface_manager \<Rightarrow> session_event \<Rightarrow> surface_error + surface_manager" where
  "delta_step baseSeq log m e =
     (let s = nat (sm_lastProcessedSeq m + 1);
          applied =
            (case sm_pendingPlan m of
               Some (pe, pseq, plan) \<Rightarrow>
                 if pe = e \<and> pseq = s then Inr (fst (applySurfacePlan (sm_state m) plan))
                 else rbind (applySurfaceEvent (sm_state m) e s log baseSeq) (\<lambda>(st, _). Inr st)
             | None \<Rightarrow> rbind (applySurfaceEvent (sm_state m) e s log baseSeq) (\<lambda>(st, _). Inr st))
      in rbind applied (\<lambda>st. Inr
           \<lparr>sm_state = st, sm_lastProcessedSeq = int s,
            sm_pendingPlan =
              (case sm_pendingPlan m of
                 Some (pe, pseq, plan) \<Rightarrow> if pseq \<le> s then None else sm_pendingPlan m
               | None \<Rightarrow> None)\<rparr>))"

definition processDelta ::
  "nat \<Rightarrow> session_event list \<Rightarrow> surface_manager \<Rightarrow> surface_manager \<times> surface_error option" where
  "processDelta baseSeq log m =
     run_keep (delta_step baseSeq log) m (drop (nat (sm_lastProcessedSeq m + 1 - int baseSeq)) log)"

definition catch_up ::
  "nat \<Rightarrow> session_event list \<Rightarrow> surface_manager \<Rightarrow> surface_manager \<times> surface_error option" where
  "catch_up baseSeq log m =
     (if sm_lastProcessedSeq m < int baseSeq + int (length log) - 1
      then processDelta baseSeq log m else (m, None))"

definition validateNext ::
  "nat \<Rightarrow> session_event list \<Rightarrow> session_event \<Rightarrow> surface_manager \<Rightarrow>
   surface_manager \<times> surface_error option" where
  "validateNext baseSeq log e m =
     (case catch_up baseSeq log m of
        (m', Some err) \<Rightarrow> (m', Some err)
      | (m', None) \<Rightarrow>
          let expectedSeq = baseSeq + length log in
          (case planSurfaceEvent (sm_state m') e expectedSeq log baseSeq of
             Inl err \<Rightarrow> (m', Some err)
           | Inr plan \<Rightarrow> (m'\<lparr>sm_pendingPlan := Some (e, expectedSeq, plan)\<rparr>, None)))"

definition read_surface ::
  "(fold_state \<Rightarrow> 'a) \<Rightarrow> nat \<Rightarrow> session_event list \<Rightarrow> surface_manager \<Rightarrow>
   surface_manager \<times> (surface_error + 'a)" where
  "read_surface get baseSeq log m =
     (case catch_up baseSeq log m of
        (m', Some err) \<Rightarrow> (m', Inl err)
      | (m', None) \<Rightarrow> (m', Inr (get (sm_state m'))))"

definition surface_nodes ::
  "nat \<Rightarrow> session_event list \<Rightarrow> surface_manager \<Rightarrow> surface_manager \<times> (surface_error + nat list)" where
  "surface_nodes = read_surface fs_nodes"

definition surface_generation ::
  "nat \<Rightarrow> session_event list \<Rightarrow> surface_manager \<Rightarrow> surface_manager \<times> (surface_error + nat)" where
  "surface_generation = read_surface fs_replaceGeneration"

section \<open>The fold, event by event\<close>

definition surface_start :: fold_acc where
  "surface_start = (createFoldState, [], 0)"

definition surface_events :: "session_event list \<Rightarrow> nat list" where
  "surface_events log = filter (\<lambda>i. isSurfaceEvent (log ! i)) [0..<length log]"

lemma surface_events_snoc:
  "surface_events (log @ [e]) =
     surface_events log @ (if isSurfaceEvent e then [length log] else [])"
  by (auto simp: surface_events_def nth_append intro!: filter_cong)

text \<open>
  What the fold keeps true of the prefix it has consumed. \<open>accounted\<close> says that the nodes and the
  shadowed ranges together are the surface events, each counted once.
\<close>

definition accounted :: "session_event list \<Rightarrow> nat list \<Rightarrow> replacement list \<Rightarrow> bool" where
  "accounted log nodes reps \<longleftrightarrow>
     mset nodes + mset (concat (map rp_shadowedSeqs reps)) = mset (surface_events log)"

definition cites_all :: "session_event list \<Rightarrow> replacement \<Rightarrow> bool" where
  "cites_all log r \<longleftrightarrow> rp_seq r < length log \<and> rp_shadowedSeqs r \<noteq> [] \<and>
     (\<exists>raw. ev_sources (log ! rp_seq r) = Some (JArr raw)
        \<and> set (rp_shadowedSeqs r) \<subseteq> seq_of ` set raw)"

text \<open>A replacement that is a tool result has rewritten the content of exactly one tool result.\<close>

definition rewrite_ok :: "session_event list \<Rightarrow> replacement \<Rightarrow> bool" where
  "rewrite_ok log r \<longleftrightarrow>
     (\<forall>new. ev_data (log ! rp_seq r) = ToolResult new \<longrightarrow>
        (\<exists>orig old. rp_shadowedSeqs r = [orig] \<and> orig < rp_seq r
           \<and> ev_data (log ! orig) = ToolResult old
           \<and> isDeepEqualJson (tool_result_rest old) (tool_result_rest new)))"

definition surface_inv :: "session_event list \<Rightarrow> fold_acc \<Rightarrow> bool" where
  "surface_inv log acc \<longleftrightarrow>
     (case acc of (st, reps, i) \<Rightarrow>
        i = length log \<and> contiguous log
        \<and> accounted log (fs_nodes st) reps
        \<and> fs_replaceGeneration st = length reps
        \<and> (\<forall>r \<in> set reps. cites_all log r \<and> rewrite_ok log r))"

lemma surface_events_bound: "n \<in> set (surface_events log) \<Longrightarrow> n < length log \<and> isSurfaceEvent (log ! n)"
  by (auto simp: surface_events_def)

lemma accounted_nodes:
  assumes "accounted log nodes reps"
  shows "distinct nodes" "set nodes \<subseteq> set (surface_events log)"
proof -
  have "distinct (surface_events log)" by (simp add: surface_events_def)
  moreover have "mset (nodes @ concat (map rp_shadowedSeqs reps)) = mset (surface_events log)"
    using assms by (simp add: accounted_def)
  ultimately have "distinct (nodes @ concat (map rp_shadowedSeqs reps))"
    and "set (nodes @ concat (map rp_shadowedSeqs reps)) = set (surface_events log)"
    by (metis mset_eq_imp_distinct_iff, metis mset_eq_setD)
  then show "distinct nodes" "set nodes \<subseteq> set (surface_events log)" by auto
qed

lemma accounted_bound: "accounted log nodes reps \<Longrightarrow> n \<in> set nodes \<Longrightarrow> n < length log"
  using accounted_nodes(2) surface_events_bound by blast

lemma replacementRange_Inr:
  assumes "replacementRange st s t = Inr (i, j, sh)"
  shows "i \<le> j" "j < length (fs_nodes st)" "sh = slice i (j + 1) (fs_nodes st)" "sh \<noteq> []"
    "hd sh = s" "last sh = t" "set sh \<subseteq> set (fs_nodes st)"
proof -
  from assms have ij: "index_of s (fs_nodes st) = Some i" "index_of t (fs_nodes st) = Some j" "i \<le> j"
    and sh: "sh = slice i (j + 1) (fs_nodes st)"
    by (auto simp: replacementRange_def split: option.splits if_splits)
  from index_of_Some [OF ij(1)] index_of_Some [OF ij(2)]
  have i: "i < length (fs_nodes st)" "fs_nodes st ! i = s" and j: "j < length (fs_nodes st)" "fs_nodes st ! j = t"
    by auto
  show "i \<le> j" "j < length (fs_nodes st)" "sh = slice i (j + 1) (fs_nodes st)" using ij j sh by auto
  show "sh \<noteq> []" using i j ij sh by (simp add: slice_def)
  then show "hd sh = s" "last sh = t"
    using i j ij sh by (auto simp: slice_def hd_drop_conv_nth last_conv_nth)
  show "set sh \<subseteq> set (fs_nodes st)"
    unfolding sh slice_def by (auto dest: in_set_dropD in_set_takeD)
qed

lemma citesShadowed_Inr: "citesShadowed sources sh = Inr () \<longleftrightarrow> set sh \<subseteq> set sources"
  by (auto simp: citesShadowed_def Let_def filter_empty_conv)

lemma assertProvenance_cites:
  assumes "assertProvenance e sh = Inr ()" "sh \<noteq> []"
  shows "\<exists>raw. ev_sources e = Some (JArr raw) \<and> set sh \<subseteq> seq_of ` set raw"
  using assms
  by (auto simp: assertProvenance_def citesShadowed_Inr Let_def
      split: option.splits json.splits if_splits)

lemma event_at_prefix: "s < length xs \<Longrightarrow> event_at (xs @ ys) 0 s = event_at xs 0 s"
  by (simp add: event_at_def nth_append)

lemma assertToolResultRewrite_prefix:
  "\<forall>s \<in> set sh. s < length xs \<Longrightarrow>
   assertToolResultRewrite e sh (xs @ ys) 0 = assertToolResultRewrite e sh xs 0"
  by (auto simp: assertToolResultRewrite_def event_at_prefix split: event_data.splits list.splits)

lemma surfaceOpOf_None: "surfaceOpOf e = Inr None \<Longrightarrow> \<not> isSurfaceEligible (ev_data e)"
  by (auto simp: surfaceOpOf_def split: if_splits option.splits json.splits)

lemma surfaceOpOf_Some: "surfaceOpOf e = Inr (Some op) \<Longrightarrow> isSurfaceEvent e"
  by (auto simp: surfaceOpOf_def isSurfaceEvent_def split: if_splits option.splits json.splits)

text \<open>Inversion: what a successful plan says about the event, one rule per kind of plan.\<close>

lemma plan_seq: "planSurfaceEvent st e i events b = Inr plan \<Longrightarrow> ev_seq e = i"
  by (auto simp: planSurfaceEvent_def split: if_splits)

lemma plan_elim:
  assumes "planSurfaceEvent st e i events b = Inr plan"
  obtains (none) "plan = None" "surfaceOpOf e = Inr None"
    | (append) "plan = Some (AppendPlan i)" "surfaceOpOf e = Inr (Some Append)"
        "assertProvenance e [] = Inr ()"
    | (replace) s t si ei sh where
        "plan = Some (ReplacePlan \<lparr>rp_seq = i, rp_start = s, rp_end = t, rp_shadowedSeqs = sh\<rparr> si ei)"
        "surfaceOpOf e = Inr (Some (Replace s t))"
        "replacementRange st s t = Inr (si, ei, sh)" "assertProvenance e sh = Inr ()"
        "assertToolResultRewrite e sh events b = Inr ()"
proof -
  from assms obtain op where op: "surfaceOpOf e = Inr op"
    by (auto simp: planSurfaceEvent_def rbind_Inr_iff split: if_splits)
  show thesis
  proof (cases op)
    case None
    with op assms none show thesis by (auto simp: planSurfaceEvent_def split: if_splits)
  next
    case (Some o')
    show thesis
    proof (cases o')
      case Append
      with Some op assms append show thesis
        by (auto simp: planSurfaceEvent_def rbind_Inr_iff split: if_splits)
    next
      case (Replace s t)
      with Some op assms obtain si ei sh where
        "replacementRange st s t = Inr (si, ei, sh)" "assertProvenance e sh = Inr ()"
        "assertToolResultRewrite e sh events b = Inr ()"
        "plan = Some (ReplacePlan \<lparr>rp_seq = i, rp_start = s, rp_end = t, rp_shadowedSeqs = sh\<rparr> si ei)"
        by (auto simp: planSurfaceEvent_def rbind_Inr_iff split: if_splits)
      with replace op Some Replace show thesis by blast
    qed
  qed
qed

lemma plan_None:
  "planSurfaceEvent st e i events b = Inr None \<Longrightarrow> \<not> isSurfaceEligible (ev_data e)"
  by (erule plan_elim) (auto dest: surfaceOpOf_None)

lemma plan_Append:
  assumes "planSurfaceEvent st e i events b = Inr (Some (AppendPlan s))"
  shows "s = i" "surfaceOpOf e = Inr (Some Append)" "assertProvenance e [] = Inr ()"
  by (rule plan_elim [OF assms]; simp)+

lemma plan_Replace:
  assumes "planSurfaceEvent st e i events b = Inr (Some (ReplacePlan r si ei))"
  shows "rp_seq r = i" "surfaceOpOf e = Inr (Some (Replace (rp_start r) (rp_end r)))"
    "replacementRange st (rp_start r) (rp_end r) = Inr (si, ei, rp_shadowedSeqs r)"
    "assertProvenance e (rp_shadowedSeqs r) = Inr ()"
    "assertToolResultRewrite e (rp_shadowedSeqs r) events b = Inr ()"
  by (rule plan_elim [OF assms]; simp)+

lemma planSurfaceEvent_prefix:
  assumes "\<forall>n \<in> set (fs_nodes st). n < length xs"
  shows "planSurfaceEvent st e i (xs @ ys) 0 = planSurfaceEvent st e i xs 0"
proof -
  have "assertToolResultRewrite e sh (xs @ ys) 0 = assertToolResultRewrite e sh xs 0"
    if "replacementRange st s t = Inr (a, b, sh)" for s t a b sh
    using replacementRange_Inr(7) [OF that] assms
    by (intro assertToolResultRewrite_prefix) auto
  then show ?thesis
    by (auto simp: planSurfaceEvent_def rbind_def split: sum.splits option.splits surface_op.splits)
qed

lemma mset_spliced:
  assumes "i \<le> j" "j < length xs"
  shows "mset (spliced i (j - i + 1) [x] xs) + mset (slice i (j + 1) xs) = mset xs + {#x#}"
proof -
  have "xs = take i xs @ slice i (j + 1) xs @ drop (j + 1) xs"
    using spliced_removed [of i xs "j - i + 1"] assms
    by (simp add: splice_removed_def slice_def drop_take Suc_diff_le)
  then have "mset xs = mset (take i xs) + mset (slice i (j + 1) xs) + mset (drop (j + 1) xs)"
    by (metis mset_append add.assoc)
  moreover have "i + (j - i + 1) = j + 1" using assms by simp
  ultimately show ?thesis by (simp add: spliced_def)
qed

lemma cites_all_snoc: "cites_all log r \<Longrightarrow> cites_all (log @ [e]) r"
  by (auto simp: cites_all_def nth_append)

lemma rewrite_ok_snoc: "cites_all log r \<Longrightarrow> rewrite_ok log r \<Longrightarrow> rewrite_ok (log @ [e]) r"
  by (fastforce simp: cites_all_def rewrite_ok_def nth_append)

lemma assertToolResultRewrite_Inr:
  assumes "assertToolResultRewrite e sh events 0 = Inr ()" "ev_data e = ToolResult new"
  shows "\<exists>orig old. sh = [orig] \<and> orig < length events \<and> ev_data (events ! orig) = ToolResult old
    \<and> isDeepEqualJson (tool_result_rest old) (tool_result_rest new)"
  using assms
  by (auto simp: assertToolResultRewrite_def event_at_def
      split: list.splits option.splits event_data.splits if_splits)

lemma mset_exchange:
  fixes A S N C E :: "'a multiset"
  assumes "A + S = N + {#x#}" "N + C = E"
  shows "A + (C + S) = E + {#x#}"
proof -
  have "A + (C + S) = (A + S) + C" by (simp add: ac_simps)
  also have "\<dots> = (N + {#x#}) + C" by (simp only: assms)
  also have "\<dots> = (N + C) + {#x#}" by (simp add: ac_simps)
  finally show ?thesis by (simp only: assms)
qed

lemma fold_step_eq:
  "fold_step events (st, reps, i) e =
     rbind (planSurfaceEvent st e i events 0) (\<lambda>plan.
       Inr (fst (applySurfacePlan st plan),
            (case snd (applySurfacePlan st plan) of None \<Rightarrow> reps | Some r \<Rightarrow> reps @ [r]), i + 1))"
  by (cases "planSurfaceEvent st e i events 0")
    (auto simp: fold_step_def applySurfaceEvent_def split: prod.splits)

lemma surface_step_inv:
  assumes inv: "surface_inv log acc" and step: "fold_step log acc e = Inr acc'"
  shows "surface_inv (log @ [e]) acc'"
proof -
  obtain st reps i where acc: "acc = (st, reps, i)" by (cases acc)
  with inv have i: "i = length log" and c: "contiguous log"
    and a: "accounted log (fs_nodes st) reps" and g: "fs_replaceGeneration st = length reps"
    and cite: "\<forall>r \<in> set reps. cites_all log r \<and> rewrite_ok log r"
    by (auto simp: surface_inv_def)
  from step acc obtain plan where plan: "planSurfaceEvent st e (length log) log 0 = Inr plan"
    and acc': "acc' = (fst (applySurfacePlan st plan),
      (case snd (applySurfacePlan st plan) of None \<Rightarrow> reps | Some r \<Rightarrow> reps @ [r]), length log + 1)"
    by (auto simp: fold_step_eq rbind_Inr_iff i)
  have sq: "ev_seq e = length log" using plan by (rule plan_seq)
  have cite': "\<forall>r \<in> set reps. cites_all (log @ [e]) r \<and> rewrite_ok (log @ [e]) r"
    using cite by (intro ballI conjI cites_all_snoc rewrite_ok_snoc) auto
  show ?thesis
  proof (cases plan)
    case None
    with plan have "\<not> isSurfaceEligible (ev_data e)" by (simp add: plan_None)
    with None acc' sq c a g cite' show ?thesis
      by (auto simp: surface_inv_def accounted_def surface_events_snoc isSurfaceEvent_def)
  next
    case (Some p)
    show ?thesis
    proof (cases p)
      case (AppendPlan s)
      from plan [unfolded Some AppendPlan] have "s = length log" "isSurfaceEvent e"
        by (auto dest: plan_Append surfaceOpOf_Some)
      with Some AppendPlan acc' sq c a g cite' show ?thesis
        by (auto simp: surface_inv_def accounted_def surface_events_snoc)
    next
      case (ReplacePlan r si ei)
      note pr = plan_Replace [OF plan [unfolded Some ReplacePlan]]
      note rr = replacementRange_Inr [OF pr(3)]
      have surf: "isSurfaceEvent e" using pr(2) by (rule surfaceOpOf_Some)
      have m: "mset (spliced si (ei - si + 1) [length log] (fs_nodes st)) + mset (rp_shadowedSeqs r)
          = mset (fs_nodes st) + {#length log#}"
        using mset_spliced [OF rr(1,2)] rr(3) by simp
      have "cites_all (log @ [e]) r"
        using assertProvenance_cites [OF pr(4) rr(4)] pr(1) rr(4) by (auto simp: cites_all_def)
      moreover have "rewrite_ok (log @ [e]) r"
        using assertToolResultRewrite_Inr [OF pr(5)] pr(1) accounted_bound [OF a] rr(7)
        by (fastforce simp: rewrite_ok_def nth_append)
      moreover have "accounted (log @ [e])
          (spliced si (ei - si + 1) [length log] (fs_nodes st)) (reps @ [r])"
        using mset_exchange [OF m a [unfolded accounted_def]] surf
        by (simp add: accounted_def surface_events_snoc)
      ultimately show ?thesis
        using Some ReplacePlan acc' sq c g cite' pr(1) by (auto simp: surface_inv_def)
    qed
  qed
qed

interpretation surface_fold: history_fold fold_step surface_start surface_inv
proof
  show "surface_inv [] surface_start"
    by (simp add: surface_inv_def surface_start_def accounted_def surface_events_def createFoldState_def)
qed (rule surface_step_inv)

lemma run_fold_step_hrun:
  "surface_inv xs acc \<Longrightarrow> run (fold_step (xs @ ys)) acc ys = hrun fold_step xs acc ys"
proof (induction ys arbitrary: xs acc)
  case Nil
  then show ?case by simp
next
  case (Cons y ys)
  obtain st reps i where acc: "acc = (st, reps, i)" by (cases acc)
  have "\<forall>n \<in> set (fs_nodes st). n < length xs"
    using Cons.prems acc accounted_bound by (auto simp: surface_inv_def)
  then have eq: "fold_step (xs @ y # ys) acc y = fold_step xs acc y"
    by (simp add: acc fold_step_eq planSurfaceEvent_prefix)
  show ?case
  proof (cases "fold_step xs acc y")
    case (Inr acc')
    with Cons.IH [OF surface_step_inv [OF Cons.prems Inr]] eq show ?thesis by simp
  qed (simp add: eq)
qed

lemma log_event_folded:
  assumes "hrun fold_step [] surface_start xs = Inr (st, reps, length xs)" "\<not> isSurfaceEligible d"
  shows "hrun fold_step [] surface_start (xs @ [log_event (length xs) time d])
    = Inr (st, reps, Suc (length xs))"
  using assms by (simp add: hrun_snoc fold_step_eq planSurfaceEvent_def surfaceOpOf_def)

lemma foldSurface_hrun:
  "foldSurface log =
     rbind (hrun fold_step [] surface_start log) (\<lambda>(st, reps, _). Inr (fs_nodes st, reps))"
  using run_fold_step_hrun [OF surface_fold.hinv_start, of log]
  by (simp add: foldSurface_def surface_start_def)

lemma foldSurface_inv:
  assumes "foldSurface log = Inr (nodes, reps)"
  obtains st where "surface_inv log (st, reps, length log)" "nodes = fs_nodes st"
    "hrun fold_step [] surface_start log = Inr (st, reps, length log)"
proof -
  from assms obtain st i where h: "hrun fold_step [] surface_start log = Inr (st, reps, i)"
    and n: "nodes = fs_nodes st"
    by (auto simp: foldSurface_hrun rbind_Inr_iff)
  from surface_fold.hinv_hrun [OF h] have "surface_inv log (st, reps, i)" "i = length log"
    by (auto simp: surface_inv_def)
  with h n that show thesis by blast
qed

section \<open>Properties of the fold\<close>

text \<open>A short log in which a summary replaces two messages; the witnesses use it.\<close>

definition sample_message :: "string \<Rightarrow> message" where
  "sample_message i = \<lparr>msg_id = i, msg_role = User, msg_content = [TextBlock ''hi''], msg_source = UserSource\<rparr>"

definition sample_surface_event :: "nat \<Rightarrow> json option \<Rightarrow> json \<Rightarrow> session_event" where
  "sample_surface_event s srcs op =
     \<lparr>ev_seq = s, ev_time = 0, ev_data = UserMessage (sample_message ''m''), ev_ignorable = False,
      ev_sources = srcs, ev_surfaceOp = Some op\<rparr>"

definition sample_log :: "session_event list" where
  "sample_log =
     [sample_surface_event 0 None append_op,
      log_event 1 0 (TurnStart 1),
      sample_surface_event 2 None append_op,
      sample_surface_event 3 (Some (JArr [num 0, num 2])) (replace_op 0 2)]"

lemma sample_fold:
  "foldSurface sample_log =
     Inr ([3], [\<lparr>rp_seq = 3, rp_start = 0, rp_end = 2, rp_shadowedSeqs = [0, 2]\<rparr>])"
  by code_simp

text \<open>
  C3: no message is lost and none is duplicated. When the fold accepts a log, the current nodes
  together with the ranges shadowed by the replacements are exactly the surface events of the
  log, each of them once; the log is contiguous; and the event of every replacement cites each
  node it shadowed.
\<close>

theorem surface_accounts_for_every_message:
  assumes "foldSurface log = Inr (nodes, reps)"
  shows "mset nodes + mset (concat (map rp_shadowedSeqs reps)) = mset (surface_events log)
    \<and> contiguous log \<and> (\<forall>r \<in> set reps. cites_all log r)"
proof -
  from assms obtain st where "surface_inv log (st, reps, length log)" "nodes = fs_nodes st"
    by (rule foldSurface_inv)
  then show ?thesis by (auto simp: surface_inv_def accounted_def)
qed

theorem surface_accounts_for_every_message_witness:
  "mset [3] + mset [0, 2] = mset (surface_events sample_log)"
  using surface_accounts_for_every_message [OF sample_fold] by simp


definition sample_result :: "nat \<Rightarrow> string \<Rightarrow> json option \<Rightarrow> json \<Rightarrow> session_event" where
  "sample_result s text srcs op =
     \<lparr>ev_seq = s, ev_time = 0,
      ev_data = ToolResult \<lparr>tr_turn = 1, tr_step = 1,
        tr_message = \<lparr>msg_id = ''r'', msg_role = User,
          msg_content = [ToolResultBlock ''c'' [TextBlock text] (Some False)], msg_source = ToolSource ''c''\<rparr>,
        tr_error = None, tr_meta = None\<rparr>,
      ev_ignorable = False, ev_sources = srcs, ev_surfaceOp = Some op\<rparr>"

lemma sample_rewrite_fold:
  "foldSurface [sample_result 0 ''long'' None append_op,
                sample_result 1 ''s'' (Some (JArr [num 0])) (replace_op 0 0)] =
     Inr ([1], [\<lparr>rp_seq = 1, rp_start = 0, rp_end = 0, rp_shadowedSeqs = [0]\<rparr>])"
  by code_simp


section \<open>The manager shows what the fold computes\<close>

text \<open>\<open>folded log st\<close>: the fold accepts \<open>log\<close> and ends in state \<open>st\<close>.\<close>

definition folded :: "session_event list \<Rightarrow> fold_state \<Rightarrow> bool" where
  "folded log st \<longleftrightarrow> (\<exists>reps. hrun fold_step [] surface_start log = Inr (st, reps, length log))"

lemma folded_unique: "folded log st \<Longrightarrow> folded log st' \<Longrightarrow> st = st'"
  by (auto simp: folded_def)

lemma folded_bound: "folded log st \<Longrightarrow> \<forall>n \<in> set (fs_nodes st). n < length log"
proof -
  assume "folded log st"
  then obtain reps where "hrun fold_step [] surface_start log = Inr (st, reps, length log)"
    by (auto simp: folded_def)
  from surface_fold.hinv_hrun [OF this] have "accounted log (fs_nodes st) reps"
    by (simp add: surface_inv_def)
  then show ?thesis using accounted_bound by blast
qed

lemma hrun_take_Suc:
  assumes "k < length log" "folded (take k log) st"
  shows "hrun fold_step [] surface_start (take (Suc k) log) =
    (case planSurfaceEvent st (log ! k) k log 0 of
       Inl err \<Rightarrow> Inl err
     | Inr plan \<Rightarrow> rbind (hrun fold_step [] surface_start (take k log)) (\<lambda>(_, reps, i).
         Inr (fst (applySurfacePlan st plan),
           (case snd (applySurfacePlan st plan) of None \<Rightarrow> reps | Some r \<Rightarrow> reps @ [r]), i + 1)))"
proof -
  from assms(2) obtain reps where h: "hrun fold_step [] surface_start (take k log) = Inr (st, reps, k)"
    using assms(1) by (auto simp: folded_def)
  have "planSurfaceEvent st (log ! k) k (take k log @ drop k log) 0
      = planSurfaceEvent st (log ! k) k (take k log) 0"
    using folded_bound [OF assms(2)] by (rule planSurfaceEvent_prefix)
  then show ?thesis
    using assms(1) h
    by (simp add: take_Suc_conv_app_nth hrun_snoc fold_step_eq rbind_def split: sum.splits)
qed

lemma folded_Suc:
  assumes "k < length log" "folded (take k log) st" "planSurfaceEvent st (log ! k) k log 0 = Inr plan"
  shows "folded (take (Suc k) log) (fst (applySurfacePlan st plan))"
  using assms(1,3) hrun_take_Suc [OF assms(1,2)] assms(2) by (auto simp: folded_def)

text \<open>The manager has folded the first \<open>k\<close> events, and a pending plan is what planning gives.\<close>

definition pending_ok :: "session_event list \<Rightarrow> surface_manager \<Rightarrow> bool" where
  "pending_ok log m \<longleftrightarrow>
     (case sm_pendingPlan m of
        None \<Rightarrow> True
      | Some (e, x, plan) \<Rightarrow> x \<le> length log \<and>
          (\<exists>st. folded (take x log) st \<and> planSurfaceEvent st e x (take x log) 0 = Inr plan))"

definition manager_at :: "nat \<Rightarrow> session_event list \<Rightarrow> surface_manager \<Rightarrow> bool" where
  "manager_at k log m \<longleftrightarrow>
     k \<le> length log \<and> sm_lastProcessedSeq m = int k - 1 \<and> folded (take k log) (sm_state m)
     \<and> pending_ok log m"

lemma new_manager_at: "manager_at 0 log (new_surface_manager 0)"
  by (simp add: manager_at_def new_surface_manager_def pending_ok_def folded_def surface_start_def)

lemma manager_at_snoc: "manager_at k log m \<Longrightarrow> manager_at k (log @ [e]) m"
  by (auto simp: manager_at_def pending_ok_def split: option.splits)

lemma delta_step_at:
  assumes at: "manager_at k log m" and k: "k < length log"
  shows "case planSurfaceEvent (sm_state m) (log ! k) k log 0 of
      Inl err \<Rightarrow> delta_step 0 log m (log ! k) = Inl err
    | Inr plan \<Rightarrow> \<exists>m'. delta_step 0 log m (log ! k) = Inr m' \<and> manager_at (Suc k) log m'"
proof -
  have st: "folded (take k log) (sm_state m)" and last: "sm_lastProcessedSeq m = int k - 1"
    and pend: "pending_ok log m"
    using at by (auto simp: manager_at_def)
  have pre: "planSurfaceEvent (sm_state m) (log ! k) k (take k log) 0
      = planSurfaceEvent (sm_state m) (log ! k) k log 0"
    using planSurfaceEvent_prefix [OF folded_bound [OF st], of "log ! k" k "drop k log"] by simp
  have hit: "planSurfaceEvent (sm_state m) (log ! k) k log 0 = Inr plan"
    if "sm_pendingPlan m = Some (log ! k, k, plan)" for plan
    using pend that folded_unique [OF st] pre by (auto simp: pending_ok_def)
  define q where "q = (case sm_pendingPlan m of
      Some (pe, pseq, plan) \<Rightarrow> if pseq \<le> k then None else sm_pendingPlan m | None \<Rightarrow> None)"
  have step: "delta_step 0 log m (log ! k) =
      rbind (planSurfaceEvent (sm_state m) (log ! k) k log 0) (\<lambda>plan.
        Inr \<lparr>sm_state = fst (applySurfacePlan (sm_state m) plan), sm_lastProcessedSeq = int k,
             sm_pendingPlan = q\<rparr>)"
    using hit
    by (cases "planSurfaceEvent (sm_state m) (log ! k) k log 0")
      (auto simp: delta_step_def last q_def applySurfaceEvent_def split: option.splits prod.splits)
  have "pending_ok log \<lparr>sm_state = s, sm_lastProcessedSeq = l, sm_pendingPlan = q\<rparr>" for s l
    using pend by (auto simp: pending_ok_def q_def split: option.splits)
  then show ?thesis
    using step folded_Suc [OF k st] k
    by (auto simp: manager_at_def split: sum.splits)
qed

lemma run_delta:
  "manager_at k log m \<Longrightarrow>
   (case hrun fold_step [] surface_start log of
      Inl err \<Rightarrow> \<exists>j m'. run_keep (delta_step 0 log) m (drop k log) = (m', Some err) \<and> manager_at j log m'
    | Inr _ \<Rightarrow> \<exists>m'. run_keep (delta_step 0 log) m (drop k log) = (m', None) \<and> manager_at (length log) log m')"
proof (induction "length log - k" arbitrary: k m)
  case 0
  then have "k = length log" by (auto simp: manager_at_def)
  with 0 show ?case by (auto simp: manager_at_def folded_def)
next
  case (Suc n)
  then have k: "k < length log" by simp
  have st: "folded (take k log) (sm_state m)" using Suc.prems by (simp add: manager_at_def)
  have d: "drop k log = log ! k # drop (Suc k) log" using k by (simp add: Cons_nth_drop_Suc)
  have all: "hrun fold_step [] surface_start log =
      rbind (hrun fold_step [] surface_start (take (Suc k) log))
        (\<lambda>s. hrun fold_step (take (Suc k) log) s (drop (Suc k) log))"
    by (metis append_take_drop_id append_Nil hrun_append)
  show ?case
  proof (cases "planSurfaceEvent (sm_state m) (log ! k) k log 0")
    case (Inl err)
    then have "hrun fold_step [] surface_start log = Inl err"
      using all hrun_take_Suc [OF k st] by simp
    with Inl delta_step_at [OF Suc.prems k] d Suc.prems show ?thesis by auto
  next
    case (Inr plan)
    with delta_step_at [OF Suc.prems k] obtain m' where m': "delta_step 0 log m (log ! k) = Inr m'"
      "manager_at (Suc k) log m'" by auto
    have "n = length log - Suc k" using Suc.hyps(2) by simp
    from Suc.hyps(1) [OF this m'(2)] m'(1) d show ?thesis by (simp split: sum.splits)
  qed
qed

lemma catch_up_at:
  assumes "manager_at k log m"
  shows "case hrun fold_step [] surface_start log of
      Inl err \<Rightarrow> \<exists>j m'. catch_up 0 log m = (m', Some err) \<and> manager_at j log m'
    | Inr (st, _) \<Rightarrow> \<exists>m'. catch_up 0 log m = (m', None) \<and> manager_at (length log) log m' \<and> sm_state m' = st"
proof -
  have "case hrun fold_step [] surface_start log of
      Inl err \<Rightarrow> \<exists>j m'. catch_up 0 log m = (m', Some err) \<and> manager_at j log m'
    | Inr _ \<Rightarrow> \<exists>m'. catch_up 0 log m = (m', None) \<and> manager_at (length log) log m'"
  proof (cases "k < length log")
    case True
    then have "catch_up 0 log m = run_keep (delta_step 0 log) m (drop k log)"
      using assms by (auto simp: catch_up_def processDelta_def manager_at_def)
    with run_delta [OF assms] show ?thesis by (simp split: sum.splits)
  next
    case False
    with assms have "k = length log" by (simp add: manager_at_def)
    with assms show ?thesis
      by (auto simp: catch_up_def manager_at_def folded_def)
  qed
  then show ?thesis by (fastforce simp: manager_at_def folded_def split: sum.splits)
qed

text \<open>
  A client of the manager: it validates candidates, admits a candidate to the log after a
  validation that did not throw, and reads nodes and generation at any time. \<open>manager_calls\<close>
  answers with the incremental manager, \<open>fold_calls\<close> by folding the whole log afresh.
\<close>

datatype surface_call = Validate session_event | Admit session_event | ReadNodes | ReadGeneration

datatype surface_answer = Accepted | Rejected surface_error | Nodes "nat list" | Generation nat

definition answer_of :: "('a \<Rightarrow> surface_answer) \<Rightarrow> surface_error + 'a \<Rightarrow> surface_answer" where
  "answer_of ok r = (case r of Inl err \<Rightarrow> Rejected err | Inr x \<Rightarrow> ok x)"

definition accept_of :: "surface_error option \<Rightarrow> surface_answer" where
  "accept_of r = (case r of Some err \<Rightarrow> Rejected err | None \<Rightarrow> Accepted)"

fun manager_calls ::
  "session_event list \<Rightarrow> surface_manager \<Rightarrow> surface_call list \<Rightarrow> surface_answer list" where
  "manager_calls log m [] = []"
| "manager_calls log m (Validate e # cs) =
     (let (m', r) = validateNext 0 log e m in accept_of r # manager_calls log m' cs)"
| "manager_calls log m (Admit e # cs) =
     (let (m', r) = validateNext 0 log e m in
      accept_of r # manager_calls (if r = None then log @ [e] else log) m' cs)"
| "manager_calls log m (ReadNodes # cs) =
     (let (m', r) = surface_nodes 0 log m in answer_of Nodes r # manager_calls log m' cs)"
| "manager_calls log m (ReadGeneration # cs) =
     (let (m', r) = surface_generation 0 log m in answer_of Generation r # manager_calls log m' cs)"

fun fold_calls :: "session_event list \<Rightarrow> surface_call list \<Rightarrow> surface_answer list" where
  "fold_calls log [] = []"
| "fold_calls log (Validate e # cs) =
     answer_of (\<lambda>_. Accepted) (foldSurface (log @ [e])) # fold_calls log cs"
| "fold_calls log (Admit e # cs) =
     answer_of (\<lambda>_. Accepted) (foldSurface (log @ [e]))
       # fold_calls (if returns (foldSurface (log @ [e])) then log @ [e] else log) cs"
| "fold_calls log (ReadNodes # cs) =
     answer_of (\<lambda>(nodes, _). Nodes nodes) (foldSurface log) # fold_calls log cs"
| "fold_calls log (ReadGeneration # cs) =
     answer_of (\<lambda>(_, reps). Generation (length reps)) (foldSurface log) # fold_calls log cs"

lemma validate_at:
  assumes "manager_at k log m"
  shows "\<exists>j m' r. validateNext 0 log e m = (m', r) \<and> manager_at j log m'
    \<and> accept_of r = answer_of (\<lambda>_. Accepted) (foldSurface (log @ [e]))
    \<and> (r = None) = returns (foldSurface (log @ [e]))"
proof (cases "hrun fold_step [] surface_start log")
  case (Inl err)
  with catch_up_at [OF assms] show ?thesis
    by (auto simp: validateNext_def foldSurface_hrun hrun_snoc accept_of_def answer_of_def)
next
  case (Inr acc)
  obtain st reps i where acc: "acc = (st, reps, i)" by (cases acc)
  from surface_fold.hinv_hrun [OF Inr] have i: "i = length log"
    by (simp add: acc surface_inv_def)
  from catch_up_at [OF assms] obtain m' where m': "catch_up 0 log m = (m', None)"
    "manager_at (length log) log m'" "sm_state m' = st"
    by (auto simp: Inr acc)
  then have "folded (take (length log) log) st" by (simp add: manager_at_def)
  show ?thesis
  proof (cases "planSurfaceEvent st e (length log) log 0")
    case (Inl err)
    then show ?thesis using m' Inr
      by (auto simp: validateNext_def foldSurface_hrun hrun_snoc accept_of_def answer_of_def acc i
          fold_step_eq)
  next
    case (Inr plan)
    have "manager_at (length log) log (m'\<lparr>sm_pendingPlan := Some (e, length log, plan)\<rparr>)"
      using m'(2,3) Inr by (auto simp: manager_at_def pending_ok_def)
    then show ?thesis using m' Inr \<open>hrun fold_step [] surface_start log = Inr acc\<close>
      by (auto simp: validateNext_def foldSurface_hrun hrun_snoc accept_of_def answer_of_def acc i
          fold_step_eq split: prod.splits)
  qed
qed

lemma read_at:
  assumes "manager_at k log m"
  shows "\<exists>j m'. read_surface get 0 log m = (m', rbind (hrun fold_step [] surface_start log)
      (\<lambda>(st, _). Inr (get st))) \<and> manager_at j log m'"
  using catch_up_at [OF assms]
  by (auto simp: read_surface_def split: sum.splits)

lemma manager_calls_at: "manager_at k log m \<Longrightarrow> manager_calls log m cs = fold_calls log cs"
proof (induction cs arbitrary: k log m)
  case Nil
  then show ?case by simp
next
  case (Cons c cs)
  show ?case
  proof (cases c)
    case (Validate e)
    with validate_at [OF Cons.prems, of e] Cons.IH show ?thesis by auto
  next
    case (Admit e)
    with validate_at [OF Cons.prems, of e] Cons.IH manager_at_snoc show ?thesis by fastforce
  next
    case ReadNodes
    from read_at [OF Cons.prems, of fs_nodes] obtain j m' where
      "surface_nodes 0 log m = (m', rbind (hrun fold_step [] surface_start log)
        (\<lambda>(st, _). Inr (fs_nodes st)))" "manager_at j log m'"
      by (auto simp: surface_nodes_def)
    with ReadNodes Cons.IH show ?thesis
      by (cases "hrun fold_step [] surface_start log") (auto simp: foldSurface_hrun answer_of_def)
  next
    case ReadGeneration
    from read_at [OF Cons.prems, of fs_replaceGeneration] obtain j m' where
      "surface_generation 0 log m = (m', rbind (hrun fold_step [] surface_start log)
        (\<lambda>(st, _). Inr (fs_replaceGeneration st)))" "manager_at j log m'"
      by (auto simp: surface_generation_def)
    with ReadGeneration Cons.IH show ?thesis
      using surface_fold.hinv_hrun
      by (cases "hrun fold_step [] surface_start log")
        (force simp: foldSurface_hrun answer_of_def surface_inv_def)+
  qed
qed

text \<open>
  C2: the incremental surface manager, with its cached state and the plan it keeps from the last
  validation, gives on every sequence of validations, admissions and reads the answers (errors
  included) that folding the whole log from the start gives.
\<close>

theorem surface_manager_refines_fold:
  "manager_calls [] (new_surface_manager 0) cs = fold_calls [] cs"
  using new_manager_at by (rule manager_calls_at)

end
