(* ===== verification/Session_Trace.thy ===== *)
theory Session_Trace
  imports Prelude Session_Types
begin

text \<open>
  The relational invariants of the session log, core/session/src/invariant.ts: the trace a
  companion keeps per session, the validation of one candidate event against it, the deferred
  transition, and the two-phase protocol in which a dispatched event is validated before other
  listeners may veto it and applied only when it is published. The results: the turn and step
  boundaries of an accepted log form a word of an explicit grammar with consecutive numbers; a
  recorded tool result answers a call of the same step that nothing answered before; and the
  two-phase protocol keeps the trace of exactly the published events.
\<close>

section \<open>The trace\<close>

definition TOOL_NOT_STARTED :: string where
  "TOOL_NOT_STARTED = ''TOOL_NOT_STARTED''"

definition TOOL_OUTCOME_UNKNOWN :: string where
  "TOOL_OUTCOME_UNKNOWN = ''TOOL_OUTCOME_UNKNOWN''"

record session_trace =
  tc_lastSeq :: int
  tc_openTurn :: "int option"
  tc_openStep :: "int option"
  tc_nextTurn :: int
  tc_nextStep :: int
  tc_pendingCalls :: "string list"

definition freshTrace :: session_trace where
  "freshTrace = \<lparr>tc_lastSeq = -1, tc_openTurn = None, tc_openStep = None,
     tc_nextTurn = 1, tc_nextStep = 1, tc_pendingCalls = []\<rparr>"

datatype pending_change = NoChange | AddCall string | DeleteCall "string option" | ClearCalls

record trace_transition =
  tx_lastSeq :: int
  tx_openTurn :: "int option"
  tx_openStep :: "int option"
  tx_nextTurn :: int
  tx_nextStep :: int
  tx_pendingCalls :: pending_change

datatype trace_error =
    SeqNotIncreasing | TurnStillOpen | UnexpectedTurn | TurnEndMismatch | StepStillOpen
  | StepOutsideTurn | UnexpectedStep | NotInOpenStep | RewriteOutsideTurn | NoResultBlock
  | ResultWithoutCall | HeaderOutsideTurn | PublishedWithoutValidation

section \<open>Validation of one event\<close>

text \<open>\<open>message.source.callId\<close>; only a tool source has one.\<close>

definition result_call :: "message \<Rightarrow> string option" where
  "result_call m = (case msg_source m of ToolSource c \<Rightarrow> Some c | _ \<Rightarrow> None)"

definition first_isError :: "content_block \<Rightarrow> bool" where
  "first_isError b = (case b of ToolResultBlock _ _ (Some True) \<Rightarrow> True | _ \<Rightarrow> False)"

definition syntheticNotStarted :: "content_block \<Rightarrow> tool_result \<Rightarrow> bool" where
  "syntheticNotStarted b r \<longleftrightarrow>
     first_isError b \<and> (case tr_error r of Some (_, code) \<Rightarrow> code = TOOL_NOT_STARTED | None \<Rightarrow> False)"

definition requireOpenStep :: "session_trace \<Rightarrow> int \<Rightarrow> int \<Rightarrow> trace_error + unit" where
  "requireOpenStep tr turn step =
     (if tc_openTurn tr \<noteq> Some turn \<or> tc_openStep tr \<noteq> Some step then Inl NotInOpenStep else Inr ())"

definition moved :: "session_trace \<Rightarrow> session_event \<Rightarrow> trace_transition" where
  "moved tr e = \<lparr>tx_lastSeq = int (ev_seq e), tx_openTurn = tc_openTurn tr, tx_openStep = tc_openStep tr,
     tx_nextTurn = tc_nextTurn tr, tx_nextStep = tc_nextStep tr, tx_pendingCalls = NoChange\<rparr>"

definition validateResult ::
  "session_trace \<Rightarrow> session_event \<Rightarrow> tool_result \<Rightarrow> trace_error + trace_transition" where
  "validateResult tr e r =
     (if ev_surfaceOp e \<noteq> Some append_op then
        if tc_openTurn tr = None then Inl RewriteOutsideTurn else Inr (moved tr e)
      else rbind (requireOpenStep tr (tr_turn r) (tr_step r)) (\<lambda>_.
        case msg_content (tr_message r) of
          [] \<Rightarrow> Inl NoResultBlock
        | b # _ \<Rightarrow>
            let callId = result_call (tr_message r) in
            if (case callId of Some c \<Rightarrow> c \<notin> set (tc_pendingCalls tr) | None \<Rightarrow> True)
               \<and> \<not> syntheticNotStarted b r
            then Inl ResultWithoutCall
            else Inr ((moved tr e)\<lparr>tx_pendingCalls := DeleteCall callId\<rparr>)))"

definition validateEvent :: "session_trace \<Rightarrow> session_event \<Rightarrow> trace_error + trace_transition" where
  "validateEvent tr e =
     (if int (ev_seq e) \<le> tc_lastSeq tr then Inl SeqNotIncreasing
      else case ev_data e of
        TurnStart turn \<Rightarrow>
          if tc_openTurn tr \<noteq> None then Inl TurnStillOpen
          else if turn \<noteq> tc_nextTurn tr then Inl UnexpectedTurn
          else Inr ((moved tr e)\<lparr>tx_openTurn := Some turn, tx_nextStep := 1\<rparr>)
      | TurnEnd turn _ \<Rightarrow>
          if tc_openTurn tr \<noteq> Some turn then Inl TurnEndMismatch
          else if tc_openStep tr \<noteq> None then Inl StepStillOpen
          else Inr ((moved tr e)\<lparr>tx_openTurn := None, tx_nextTurn := tc_nextTurn tr + 1\<rparr>)
      | StepStart turn step \<Rightarrow>
          if tc_openTurn tr \<noteq> Some turn then Inl StepOutsideTurn
          else if tc_openStep tr \<noteq> None then Inl StepStillOpen
          else if step \<noteq> tc_nextStep tr then Inl UnexpectedStep
          else Inr ((moved tr e)\<lparr>tx_openStep := Some step\<rparr>)
      | StepEnd turn step \<Rightarrow>
          rbind (requireOpenStep tr turn step) (\<lambda>_.
            Inr ((moved tr e)\<lparr>tx_openStep := None, tx_nextStep := tc_nextStep tr + 1,
                              tx_pendingCalls := ClearCalls\<rparr>))
      | AssistantChunk turn step _ \<Rightarrow>
          rbind (requireOpenStep tr turn step) (\<lambda>_. Inr (moved tr e))
      | AssistantMessage turn step _ _ _ \<Rightarrow>
          rbind (requireOpenStep tr turn step) (\<lambda>_. Inr (moved tr e))
      | ToolCall turn step callId _ _ \<Rightarrow>
          rbind (requireOpenStep tr turn step) (\<lambda>_.
            Inr ((moved tr e)\<lparr>tx_pendingCalls := AddCall callId\<rparr>))
      | ToolResult r \<Rightarrow> validateResult tr e r
      | RequestHeader _ _ _ \<Rightarrow>
          if tc_openTurn tr = None then Inl HeaderOutsideTurn else Inr (moved tr e)
      | RequestContext _ \<Rightarrow>
          if tc_openTurn tr = None then Inl HeaderOutsideTurn else Inr (moved tr e)
      | _ \<Rightarrow> Inr (moved tr e))"

text \<open>A JavaScript \<open>Set\<close> of call ids, in insertion order.\<close>

fun applyPending :: "pending_change \<Rightarrow> string list \<Rightarrow> string list" where
  "applyPending NoChange pending = pending"
| "applyPending (AddCall c) pending = set_add c pending"
| "applyPending (DeleteCall None) pending = pending"
| "applyPending (DeleteCall (Some c)) pending = removeAll c pending"
| "applyPending ClearCalls pending = []"

definition applyTransition :: "session_trace \<Rightarrow> trace_transition \<Rightarrow> session_trace" where
  "applyTransition tr tx =
     \<lparr>tc_lastSeq = tx_lastSeq tx, tc_openTurn = tx_openTurn tx, tc_openStep = tx_openStep tx,
      tc_nextTurn = tx_nextTurn tx, tc_nextStep = tx_nextStep tx,
      tc_pendingCalls = applyPending (tx_pendingCalls tx) (tc_pendingCalls tr)\<rparr>"

definition trace_step :: "session_trace \<Rightarrow> session_event \<Rightarrow> trace_error + session_trace" where
  "trace_step tr e = rbind (validateEvent tr e) (\<lambda>tx. Inr (applyTransition tr tx))"

definition seedSession :: "session_event list \<Rightarrow> trace_error + session_trace" where
  "seedSession log = run trace_step freshTrace log"

section \<open>The two-phase protocol\<close>

text \<open>
  One session's share of the companion: its trace (the \<open>traces\<close> entry) and the transitions staged
  by a dispatch, keyed by the dispatched event.
\<close>

record trace_companion =
  tp_trace :: session_trace
  tp_staged :: "(session_event \<times> trace_transition) list"

definition companion_dispatch :: "trace_companion \<Rightarrow> session_event \<Rightarrow> trace_error + trace_companion" where
  "companion_dispatch c e =
     rbind (validateEvent (tp_trace c) e) (\<lambda>tx.
       Inr (c\<lparr>tp_staged := map_set e tx (tp_staged c)\<rparr>))"

definition companion_publish :: "trace_companion \<Rightarrow> session_event \<Rightarrow> trace_error + trace_companion" where
  "companion_publish c e =
     (case map_of (tp_staged c) e of
        None \<Rightarrow> Inl PublishedWithoutValidation
      | Some tx \<Rightarrow> Inr \<lparr>tp_trace = applyTransition (tp_trace c) tx,
                       tp_staged = map_delete e (tp_staged c)\<rparr>)"

section \<open>Inversion of a trace step\<close>

lemma requireOpenStep_Inr [simp]:
  "requireOpenStep tr turn step = Inr u \<longleftrightarrow> tc_openTurn tr = Some turn \<and> tc_openStep tr = Some step"
  by (auto simp: requireOpenStep_def)

text \<open>Events that move no boundary and touch no call.\<close>

fun plain_data :: "event_data \<Rightarrow> bool" where
  "plain_data (TurnStart _) = False"
| "plain_data (TurnEnd _ _) = False"
| "plain_data (StepStart _ _) = False"
| "plain_data (StepEnd _ _) = False"
| "plain_data (ToolCall _ _ _ _ _) = False"
| "plain_data (ToolResult _) = False"
| "plain_data _ = True"

lemma trace_step_elim:
  assumes "trace_step tr e = Inr tr'"
  obtains (turn_start) turn where "ev_data e = TurnStart turn" "tc_openTurn tr = None" "turn = tc_nextTurn tr"
      "tr' = tr\<lparr>tc_lastSeq := int (ev_seq e), tc_openTurn := Some turn, tc_nextStep := 1\<rparr>"
    | (turn_end) turn reason where "ev_data e = TurnEnd turn reason" "tc_openTurn tr = Some turn"
      "tc_openStep tr = None"
      "tr' = tr\<lparr>tc_lastSeq := int (ev_seq e), tc_openTurn := None, tc_nextTurn := tc_nextTurn tr + 1\<rparr>"
    | (step_start) turn step where "ev_data e = StepStart turn step" "tc_openTurn tr = Some turn"
      "tc_openStep tr = None" "step = tc_nextStep tr"
      "tr' = tr\<lparr>tc_lastSeq := int (ev_seq e), tc_openStep := Some step\<rparr>"
    | (step_end) turn step where "ev_data e = StepEnd turn step" "tc_openTurn tr = Some turn"
      "tc_openStep tr = Some step"
      "tr' = tr\<lparr>tc_lastSeq := int (ev_seq e), tc_openStep := None, tc_nextStep := tc_nextStep tr + 1,
                tc_pendingCalls := []\<rparr>"
    | (tool_call) turn step c n a where "ev_data e = ToolCall turn step c n a" "tc_openTurn tr = Some turn"
      "tc_openStep tr = Some step"
      "tr' = tr\<lparr>tc_lastSeq := int (ev_seq e), tc_pendingCalls := set_add c (tc_pendingCalls tr)\<rparr>"
    | (rewrite) r where "ev_data e = ToolResult r" "ev_surfaceOp e \<noteq> Some append_op"
      "tc_openTurn tr \<noteq> None" "tr' = tr\<lparr>tc_lastSeq := int (ev_seq e)\<rparr>"
    | (tool_result) r b bs where "ev_data e = ToolResult r" "ev_surfaceOp e = Some append_op"
      "tc_openTurn tr = Some (tr_turn r)" "tc_openStep tr = Some (tr_step r)"
      "msg_content (tr_message r) = b # bs"
      "syntheticNotStarted b r \<or> (\<exists>c \<in> set (tc_pendingCalls tr). result_call (tr_message r) = Some c)"
      "tr' = tr\<lparr>tc_lastSeq := int (ev_seq e),
                tc_pendingCalls := applyPending (DeleteCall (result_call (tr_message r))) (tc_pendingCalls tr)\<rparr>"
    | (plain) "plain_data (ev_data e)" "tr' = tr\<lparr>tc_lastSeq := int (ev_seq e)\<rparr>"
proof -
  from assms obtain tx where v: "validateEvent tr e = Inr tx" and tr': "tr' = applyTransition tr tx"
    by (auto simp: trace_step_def rbind_Inr_iff)
  show thesis
  proof (cases "ev_data e")
    case (ToolResult r)
    show thesis
    proof (cases "ev_surfaceOp e = Some append_op")
      case True
      with v ToolResult tr' show thesis
        by (intro tool_result [of r "hd (msg_content (tr_message r))" "tl (msg_content (tr_message r))"])
          (auto simp: validateEvent_def validateResult_def rbind_Inr_iff applyTransition_def moved_def
            Let_def split: if_splits list.splits option.splits)
    next
      case False
      with v ToolResult tr' show thesis
        by (intro rewrite [of r])
          (auto simp: validateEvent_def validateResult_def applyTransition_def moved_def split: if_splits)
    qed
  qed (use v tr' in \<open>auto simp: validateEvent_def rbind_Inr_iff applyTransition_def moved_def split: if_splits
      intro: turn_start turn_end step_start step_end tool_call plain\<close>)
qed

lemma trace_step_seq:
  assumes "trace_step tr e = Inr tr'"
  shows "tc_lastSeq tr < int (ev_seq e)" "tc_lastSeq tr' = int (ev_seq e)"
proof -
  show "tc_lastSeq tr < int (ev_seq e)"
    using assms by (auto simp: trace_step_def rbind_Inr_iff validateEvent_def split: if_splits)
  show "tc_lastSeq tr' = int (ev_seq e)"
    using assms by (rule trace_step_elim) auto
qed

section \<open>The grammar of boundaries\<close>

fun closes_step :: "event_data \<Rightarrow> bool" where
  "closes_step (StepEnd _ _) = True"
| "closes_step _ = False"

datatype boundary = BTurn int | BTurnEnd int | BStep int int | BStepEnd int int

fun boundary_of :: "event_data \<Rightarrow> boundary list" where
  "boundary_of (TurnStart turn) = [BTurn turn]"
| "boundary_of (TurnEnd turn _) = [BTurnEnd turn]"
| "boundary_of (StepStart turn step) = [BStep turn step]"
| "boundary_of (StepEnd turn step) = [BStepEnd turn step]"
| "boundary_of _ = []"

definition boundaries :: "session_event list \<Rightarrow> boundary list" where
  "boundaries log = concat (map (boundary_of \<circ> ev_data) log)"

lemma boundaries_snoc [simp]: "boundaries (log @ [e]) = boundaries log @ boundary_of (ev_data e)"
  by (simp add: boundaries_def)

lemma boundaries_Nil [simp]: "boundaries [] = []"
  by (simp add: boundaries_def)

lemma plain_boundary: "plain_data d \<Longrightarrow> boundary_of d = []"
  by (cases d) auto

lemma plain_not_close:
  "plain_data d \<Longrightarrow> \<not> closes_step d"
  by (cases d) auto

text \<open>The first \<open>n\<close> steps of turn \<open>k\<close>, a whole turn, and consecutive whole turns from \<open>k\<close>.\<close>

fun steps_word :: "int \<Rightarrow> nat \<Rightarrow> boundary list" where
  "steps_word k 0 = []"
| "steps_word k (Suc n) = steps_word k n @ [BStep k (int n + 1), BStepEnd k (int n + 1)]"

definition turn_word :: "int \<Rightarrow> nat \<Rightarrow> boundary list" where
  "turn_word k n = BTurn k # steps_word k n @ [BTurnEnd k]"

fun turns_word :: "int \<Rightarrow> nat list \<Rightarrow> boundary list" where
  "turns_word k [] = []"
| "turns_word k (n # ns) = turn_word k n @ turns_word (k + 1) ns"

lemma turns_word_snoc: "turns_word k (ns @ [n]) = turns_word k ns @ turn_word (k + int (length ns)) n"
  by (induction ns arbitrary: k) (simp_all add: add.assoc)

text \<open>What may be open at the end: nothing, a turn after \<open>n\<close> steps, or its next step as well.\<close>

datatype open_tail = NothingOpen | TurnOpen nat | StepOpen nat

fun tail_word :: "int \<Rightarrow> open_tail \<Rightarrow> boundary list" where
  "tail_word k NothingOpen = []"
| "tail_word k (TurnOpen n) = BTurn k # steps_word k n"
| "tail_word k (StepOpen n) = BTurn k # steps_word k n @ [BStep k (int n + 1)]"

definition tail_state :: "session_trace \<Rightarrow> open_tail \<Rightarrow> bool" where
  "tail_state tr ot =
     (case ot of
        NothingOpen \<Rightarrow> tc_openTurn tr = None \<and> tc_openStep tr = None
      | TurnOpen n \<Rightarrow> tc_openTurn tr = Some (tc_nextTurn tr) \<and> tc_openStep tr = None
                     \<and> tc_nextStep tr = int n + 1
      | StepOpen n \<Rightarrow> tc_openTurn tr = Some (tc_nextTurn tr) \<and> tc_openStep tr = Some (int n + 1)
                     \<and> tc_nextStep tr = int n + 1)"

text \<open>\<open>awaiting log turn step c\<close>: a call of \<open>c\<close> in that step that no later event closes or answers.\<close>

definition answers :: "session_event \<Rightarrow> string \<Rightarrow> bool" where
  "answers e c \<longleftrightarrow> (case ev_data e of
     ToolResult r \<Rightarrow> ev_surfaceOp e = Some append_op \<and> result_call (tr_message r) = Some c
   | _ \<Rightarrow> False)"

definition awaiting :: "session_event list \<Rightarrow> int \<Rightarrow> int \<Rightarrow> string \<Rightarrow> bool" where
  "awaiting log turn step c \<longleftrightarrow>
     (\<exists>xs e ys n a. log = xs @ e # ys \<and> ev_data e = ToolCall turn step c n a
        \<and> (\<forall>f \<in> set ys. \<not> closes_step (ev_data f) \<and> \<not> answers f c))"

lemma awaiting_snoc:
  "awaiting log turn step c \<Longrightarrow> \<not> closes_step (ev_data e) \<Longrightarrow> \<not> answers e c \<Longrightarrow>
   awaiting (log @ [e]) turn step c"
proof -
  assume a: "awaiting log turn step c" "\<not> closes_step (ev_data e)" "\<not> answers e c"
  from a(1) obtain xs f ys n b where f: "log = xs @ f # ys" "ev_data f = ToolCall turn step c n b"
    "\<forall>g \<in> set ys. \<not> closes_step (ev_data g) \<and> \<not> answers g c"
    by (auto simp: awaiting_def)
  have "log @ [e] = xs @ f # (ys @ [e])" using f by simp
  moreover have "\<forall>g \<in> set (ys @ [e]). \<not> closes_step (ev_data g) \<and> \<not> answers g c"
    using f(3) a by auto
  ultimately show ?thesis unfolding awaiting_def using f(2) by blast
qed

lemma awaiting_call: "ev_data e = ToolCall turn step c n a \<Longrightarrow> awaiting (log @ [e]) turn step c"
  by (auto simp: awaiting_def intro: exI [of _ log])

definition trace_inv :: "session_event list \<Rightarrow> session_trace \<Rightarrow> bool" where
  "trace_inv log tr \<longleftrightarrow>
     tc_lastSeq tr = (if log = [] then -1 else int (ev_seq (last log)))
     \<and> (\<exists>ns ot. boundaries log = turns_word 1 ns @ tail_word (1 + int (length ns)) ot
           \<and> tc_nextTurn tr = 1 + int (length ns) \<and> tail_state tr ot)
     \<and> (tc_openStep tr = None \<longrightarrow> tc_pendingCalls tr = [])
     \<and> (\<forall>c \<in> set (tc_pendingCalls tr).
           awaiting log (the (tc_openTurn tr)) (the (tc_openStep tr)) c)"

lemma trace_start_inv: "trace_inv [] freshTrace"
  by (auto simp: trace_inv_def freshTrace_def tail_state_def intro!: exI [of _ "[]"] exI [of _ NothingOpen])

lemma trace_words:
  assumes "trace_inv log tr"
  obtains ns ot where "boundaries log = turns_word 1 ns @ tail_word (1 + int (length ns)) ot"
    "tc_nextTurn tr = 1 + int (length ns)" "tail_state tr ot"
  using assms by (auto simp: trace_inv_def)

lemma trace_pending:
  assumes "trace_inv log tr"
  shows "tc_openStep tr = None \<Longrightarrow> tc_pendingCalls tr = []"
    "c \<in> set (tc_pendingCalls tr) \<Longrightarrow> awaiting log (the (tc_openTurn tr)) (the (tc_openStep tr)) c"
  using assms by (auto simp: trace_inv_def)

text \<open>A step that opens and closes nothing keeps the grammar part of the invariant.\<close>

lemma trace_inv_kept:
  assumes inv: "trace_inv log tr" and b: "boundary_of (ev_data e) = []"
    and same: "tc_openTurn tr' = tc_openTurn tr" "tc_openStep tr' = tc_openStep tr"
      "tc_nextTurn tr' = tc_nextTurn tr" "tc_nextStep tr' = tc_nextStep tr"
      "tc_lastSeq tr' = int (ev_seq e)"
    and pend: "tc_openStep tr = None \<Longrightarrow> tc_pendingCalls tr' = []"
      "\<And>c. c \<in> set (tc_pendingCalls tr') \<Longrightarrow>
         awaiting (log @ [e]) (the (tc_openTurn tr)) (the (tc_openStep tr)) c"
  shows "trace_inv (log @ [e]) tr'"
proof -
  from inv obtain ns ot where w: "boundaries log = turns_word 1 ns @ tail_word (1 + int (length ns)) ot"
    "tc_nextTurn tr = 1 + int (length ns)" "tail_state tr ot"
    by (rule trace_words)
  then have "tail_state tr' ot" using same by (simp add: tail_state_def split: open_tail.splits)
  with w show ?thesis using b same pend
    unfolding trace_inv_def by (auto intro!: exI [of _ ns] exI [of _ ot])
qed

lemma trace_inv_moved:
  assumes inv: "trace_inv log tr" and last: "tc_lastSeq tr' = int (ev_seq e)"
    and w: "boundaries (log @ [e]) = turns_word 1 ns @ tail_word (1 + int (length ns)) ot"
      "tc_nextTurn tr' = 1 + int (length ns)" "tail_state tr' ot"
    and pend: "tc_pendingCalls tr' = []"
  shows "trace_inv (log @ [e]) tr'"
  using assms unfolding trace_inv_def by (auto intro!: exI [of _ ns] exI [of _ ot])

lemma trace_step_inv:
  assumes inv: "trace_inv log tr" and st: "trace_step tr e = Inr tr'"
  shows "trace_inv (log @ [e]) tr'"
proof -
  from inv obtain ns ot where w: "boundaries log = turns_word 1 ns @ tail_word (1 + int (length ns)) ot"
    "tc_nextTurn tr = 1 + int (length ns)" "tail_state tr ot"
    by (rule trace_words)
  note pend = trace_pending [OF inv]
  from st show ?thesis
  proof (cases rule: trace_step_elim)
    case (turn_start turn)
    then have "ot = NothingOpen" using w by (auto simp: tail_state_def split: open_tail.splits)
    then show ?thesis using turn_start w pend inv
      by (intro trace_inv_moved [where ns = ns and ot = "TurnOpen 0"]) (auto simp: tail_state_def)
  next
    case (turn_end turn reason)
    then obtain n where ot: "ot = TurnOpen n" using w by (auto simp: tail_state_def split: open_tail.splits)
    show ?thesis using turn_end w pend inv ot
      by (intro trace_inv_moved [where ns = "ns @ [n]" and ot = NothingOpen])
        (auto simp: tail_state_def turns_word_snoc turn_word_def)
  next
    case (step_start turn step)
    then obtain n where "ot = TurnOpen n" using w by (auto simp: tail_state_def split: open_tail.splits)
    then show ?thesis using step_start w pend inv
      by (intro trace_inv_moved [where ns = ns and ot = "StepOpen n"]) (auto simp: tail_state_def)
  next
    case (step_end turn step)
    then obtain n where "ot = StepOpen n" using w by (auto simp: tail_state_def split: open_tail.splits)
    then show ?thesis using step_end w inv
      by (intro trace_inv_moved [where ns = ns and ot = "TurnOpen (Suc n)"]) (auto simp: tail_state_def)
  next
    case (tool_call turn step c n a)
    have "awaiting (log @ [e]) turn step d" if "d \<in> set (set_add c (tc_pendingCalls tr))" for d
    proof (cases "d = c")
      case True
      with tool_call show ?thesis by (auto intro: awaiting_call)
    next
      case False
      with that tool_call pend(2) [of d] show ?thesis by (auto intro!: awaiting_snoc simp: answers_def)
    qed
    with tool_call show ?thesis by (intro trace_inv_kept [OF inv]) auto
  next
    case (rewrite r)
    then show ?thesis using pend
      by (intro trace_inv_kept [OF inv]) (auto intro!: awaiting_snoc simp: answers_def)
  next
    case (tool_result r b bs)
    then show ?thesis using pend
      by (intro trace_inv_kept [OF inv])
        (cases "result_call (tr_message r)"; auto intro!: awaiting_snoc simp: answers_def)+
  next
    case plain
    then show ?thesis using pend
      by (intro trace_inv_kept [OF inv])
        (auto intro!: awaiting_snoc simp: answers_def plain_boundary plain_not_close split: event_data.splits)
  qed
qed

interpretation trace_fold: history_fold "\<lambda>_. trace_step" freshTrace trace_inv
  by unfold_locales (auto intro: trace_start_inv trace_step_inv)

lemma seedSession_inv: "seedSession log = Inr tr \<Longrightarrow> trace_inv log tr"
  using trace_fold.hinv_hrun by (simp add: seedSession_def hrun_const)

section \<open>Properties of accepted logs\<close>

text \<open>
  C4: turns and steps are well bracketed and consecutively numbered. The boundary events of a log
  the companion accepts are whole turns 1, 2, ..., each of whole steps 1, 2, ..., followed by at
  most one open turn with at most one open step, and the trace names exactly what is open and the
  numbers that come next.
\<close>

theorem accepted_boundaries_form_turns:
  assumes "seedSession log = Inr tr"
  shows "\<exists>ns ot. boundaries log = turns_word 1 ns @ tail_word (1 + int (length ns)) ot
    \<and> tc_nextTurn tr = 1 + int (length ns) \<and> tail_state tr ot"
  using trace_words [OF seedSession_inv [OF assms]] by metis

definition sample_trace_log :: "session_event list" where
  "sample_trace_log =
     [log_event 0 0 (TurnStart 1),
      log_event 1 0 (StepStart 1 1),
      log_event 2 0 (ToolCall 1 1 ''c'' ''read'' ''{}''),
      \<lparr>ev_seq = 3, ev_time = 0,
       ev_data = ToolResult \<lparr>tr_turn = 1, tr_step = 1,
         tr_message = \<lparr>msg_id = ''r'', msg_role = User,
           msg_content = [ToolResultBlock ''c'' [] (Some False)], msg_source = ToolSource ''c''\<rparr>,
         tr_error = None, tr_meta = None\<rparr>,
       ev_ignorable = False, ev_sources = None, ev_surfaceOp = Some append_op\<rparr>]"

lemma sample_trace_run:
  "seedSession sample_trace_log = Inr \<lparr>tc_lastSeq = 3, tc_openTurn = Some 1, tc_openStep = Some 1,
     tc_nextTurn = 1, tc_nextStep = 1, tc_pendingCalls = []\<rparr>"
  by code_simp

theorem accepted_boundaries_form_turns_witness:
  "\<exists>ot. [BTurn 1, BStep 1 1] = tail_word 1 ot"
  using accepted_boundaries_form_turns [OF sample_trace_run]
  by (simp add: sample_trace_log_def boundaries_def log_event_def) blast

text \<open>
  C5: every recorded tool result has its call. In an accepted log, a tool result that enters the
  surface by appending, and is not the synthetic result of a call that never started, names a
  call recorded earlier in the same turn and step that no earlier result answered.
\<close>

theorem tool_result_answers_open_call:
  assumes "seedSession (xs @ e # ys) = Inr tr" and "ev_data e = ToolResult r"
    and "ev_surfaceOp e = Some append_op"
    and "\<not> syntheticNotStarted (hd (msg_content (tr_message r))) r"
  shows "\<exists>c. result_call (tr_message r) = Some c \<and> awaiting xs (tr_turn r) (tr_step r) c"
proof -
  from assms(1) obtain u where u: "seedSession xs = Inr u" "returns (trace_step u e)"
    by (auto simp: seedSession_def run_append rbind_Inr_iff)
  then obtain u' where u': "trace_step u e = Inr u'" by (auto simp: returns_iff)
  note pend = trace_pending [OF seedSession_inv [OF u(1)]]
  from u' show ?thesis
    by (cases rule: trace_step_elim) (use assms(2-4) pend in force)+
qed

theorem tool_result_answers_open_call_witness:
  "\<exists>c. Some ''c'' = Some c \<and> awaiting (take 3 sample_trace_log) 1 1 c"
proof -
  let ?e = "sample_trace_log ! 3"
  have "take 3 sample_trace_log @ ?e # [] = sample_trace_log" by (simp add: sample_trace_log_def)
  then have "seedSession (take 3 sample_trace_log @ ?e # []) = Inr \<lparr>tc_lastSeq = 3,
      tc_openTurn = Some 1, tc_openStep = Some 1, tc_nextTurn = 1, tc_nextStep = 1, tc_pendingCalls = []\<rparr>"
    by (simp add: sample_trace_run)
  note t = tool_result_answers_open_call [OF this]
  show ?thesis
    using t by (simp add: sample_trace_log_def syntheticNotStarted_def first_isError_def result_call_def)
qed

section \<open>The two-phase protocol keeps the trace of the published events\<close>

text \<open>
  One attempt to append an event: it is dispatched (a failed validation rejects it), another
  listener may veto it, and otherwise it is published and enters the log.
\<close>

definition attempt ::
  "trace_companion \<times> session_event list \<Rightarrow> session_event \<times> bool \<Rightarrow> trace_companion \<times> session_event list" where
  "attempt s a =
     (let (c, log) = s; (e, veto) = a in
      case companion_dispatch c e of
        Inl _ \<Rightarrow> (c, log)
      | Inr c' \<Rightarrow>
          if veto then (c', log)
          else (case companion_publish c' e of
                  Inl _ \<Rightarrow> (c', log)
                | Inr c'' \<Rightarrow> (c'', log @ [e])))"

definition attempts :: "(session_event \<times> bool) list \<Rightarrow> trace_companion \<times> session_event list" where
  "attempts as = foldl attempt (\<lparr>tp_trace = freshTrace, tp_staged = []\<rparr>, []) as"

lemma attempt_trace:
  assumes "seedSession log = Inr (tp_trace c)"
  shows "seedSession (snd (attempt (c, log) a)) = Inr (tp_trace (fst (attempt (c, log) a)))"
  using assms
  by (auto simp: attempt_def companion_dispatch_def companion_publish_def seedSession_def run_snoc
      trace_step_def rbind_def split: sum.splits option.splits prod.splits)

text \<open>
  C8: abandoning a validated event leaves no trace. Whatever events are attempted and whichever
  of them are vetoed between validation and publication, the companion's trace is the trace of
  exactly the published log, so the log it guards is always an accepted one.
\<close>

theorem companion_traces_published_log:
  "seedSession (snd (attempts as)) = Inr (tp_trace (fst (attempts as)))"
proof (induction as rule: rev_induct)
  case Nil
  show ?case by (simp add: attempts_def seedSession_def)
next
  case (snoc a as)
  have "attempts (as @ [a]) = attempt (fst (attempts as), snd (attempts as)) a"
    by (simp add: attempts_def)
  with attempt_trace [OF snoc] show ?case by metis
qed

end
