(* ===== verification/Repair.thy ===== *)
theory Repair
  imports Session_Trace Surface
begin

text \<open>
  Crash recovery of an interrupted log, core/session/src/repair.ts: the scan for an open turn, an
  open step and unanswered calls, and the synthetic events that close them. The results: closing
  an accepted log gives an accepted log in which nothing is open; the surface accepts the closers
  and shows them at its end; and a closed log needs no closing.
\<close>

section \<open>The scan\<close>

record pending_call =
  pc_step :: int
  pc_callSeq :: "nat option"

record repair_scan =
  rs_openTurn :: "int option"
  rs_openStep :: "int option"
  rs_pendingCalls :: "(string \<times> pending_call) list"

definition repair_start :: repair_scan where
  "repair_start = \<lparr>rs_openTurn = None, rs_openStep = None, rs_pendingCalls = []\<rparr>"

fun register_calls ::
  "int \<Rightarrow> content_block list \<Rightarrow> (string \<times> pending_call) list \<Rightarrow> (string \<times> pending_call) list" where
  "register_calls step [] pending = pending"
| "register_calls step (ToolCallBlock i _ _ # bs) pending =
     register_calls step bs (map_set i \<lparr>pc_step = step, pc_callSeq = None\<rparr> pending)"
| "register_calls step (_ # bs) pending = register_calls step bs pending"

definition repair_step :: "repair_scan \<Rightarrow> session_event \<Rightarrow> repair_scan" where
  "repair_step s e =
     (case ev_data e of
        TurnStart turn \<Rightarrow> \<lparr>rs_openTurn = Some turn, rs_openStep = None, rs_pendingCalls = []\<rparr>
      | TurnEnd _ _ \<Rightarrow> \<lparr>rs_openTurn = None, rs_openStep = None, rs_pendingCalls = []\<rparr>
      | StepStart _ step \<Rightarrow> s\<lparr>rs_openStep := Some step\<rparr>
      | StepEnd _ _ \<Rightarrow> s\<lparr>rs_openStep := None, rs_pendingCalls := []\<rparr>
      | AssistantMessage _ step m _ _ \<Rightarrow>
          s\<lparr>rs_pendingCalls := register_calls step (msg_content m) (rs_pendingCalls s)\<rparr>
      | ToolCall _ _ callId _ _ \<Rightarrow>
          (case map_of (rs_pendingCalls s) callId of
             None \<Rightarrow> s
           | Some p \<Rightarrow> s\<lparr>rs_pendingCalls :=
               map_set callId (p\<lparr>pc_callSeq := Some (ev_seq e)\<rparr>) (rs_pendingCalls s)\<rparr>)
      | ToolResult r \<Rightarrow>
          (case result_call (tr_message r) of
             None \<Rightarrow> s
           | Some c \<Rightarrow> s\<lparr>rs_pendingCalls := map_delete c (rs_pendingCalls s)\<rparr>)
      | _ \<Rightarrow> s)"

definition repair_scan_of :: "session_event list \<Rightarrow> repair_scan" where
  "repair_scan_of events = foldl repair_step repair_start events"

section \<open>The closers\<close>

definition interrupted_text :: "bool \<Rightarrow> string" where
  "interrupted_text started =
     (if started
      then ''The tool call was interrupted after it was recorded, but no result was durably recorded. Its outcome is unknown. Decide whether to retry from the tool semantics: retry only if the operation is read-only or idempotent; if it may have side effects, first verify external state or ask the user. Do not retry blindly.''
      else ''The tool call was interrupted before the Harness recorded it as started. Retry it if it is still needed.'')"

definition result_closer :: "int \<Rightarrow> int \<Rightarrow> nat \<Rightarrow> string \<times> pending_call \<Rightarrow> session_event" where
  "result_closer turn time s cp =
     (let (callId, p) = cp; started = pc_callSeq p \<noteq> None in
      \<lparr>ev_seq = s, ev_time = time,
       ev_data = ToolResult
         \<lparr>tr_turn = turn, tr_step = pc_step p,
          tr_message =
            \<lparr>msg_id = ''interrupted-tool-result-'' @ callId @ ''-'' @ show_nat s,
             msg_role = User,
             msg_content = [ToolResultBlock callId [TextBlock (interrupted_text started)] (Some True)],
             msg_source = ToolSource callId\<rparr>,
          tr_error = Some (if started then (''ToolOutcomeUnknownError'', TOOL_OUTCOME_UNKNOWN)
                           else (''ToolNotStartedError'', TOOL_NOT_STARTED)),
          tr_meta = None\<rparr>,
       ev_ignorable = False,
       ev_sources = (case pc_callSeq p of None \<Rightarrow> None | Some c \<Rightarrow> Some (JArr [num c])),
       ev_surfaceOp = Some append_op\<rparr>)"

text \<open>The loop over the pending calls, with its running sequence number.\<close>

fun result_closers ::
  "int \<Rightarrow> int \<Rightarrow> nat \<Rightarrow> (string \<times> pending_call) list \<Rightarrow> session_event list" where
  "result_closers turn time s [] = []"
| "result_closers turn time s (cp # cps) =
     result_closer turn time s cp # result_closers turn time (s + 1) cps"

definition boundary_closers :: "int \<Rightarrow> int option \<Rightarrow> int \<Rightarrow> nat \<Rightarrow> session_event list" where
  "boundary_closers turn openStep time s =
     (case openStep of
        None \<Rightarrow> [log_event s time (TurnEnd turn Interrupted)]
      | Some step \<Rightarrow> [log_event s time (StepEnd turn step),
                      log_event (s + 1) time (TurnEnd turn Interrupted)])"

definition interruptedTurnClosers :: "session_event list \<Rightarrow> session_event list" where
  "interruptedTurnClosers events =
     (let scan = repair_scan_of events in
      case (rs_openTurn scan, last_of events) of
        (Some turn, Some lst) \<Rightarrow>
          let s = ev_seq lst + 1; results = result_closers turn (ev_time lst) s (rs_pendingCalls scan) in
          results @ boundary_closers turn (rs_openStep scan) (ev_time lst) (s + length results)
      | _ \<Rightarrow> [])"

definition repaired :: "session_event list \<Rightarrow> session_event list" where
  "repaired events = events @ interruptedTurnClosers events"

section \<open>The scan follows the trace\<close>

text \<open>
  On an accepted log the scan and the trace agree on what is open; every call the scan holds
  belongs to the open step, and one with a recorded start is pending for the trace as well.
\<close>

definition scan_agrees :: "session_event list \<Rightarrow> session_trace \<Rightarrow> bool" where
  "scan_agrees log tr \<longleftrightarrow>
     (let s = repair_scan_of log in
      rs_openTurn s = tc_openTurn tr \<and> rs_openStep s = tc_openStep tr
      \<and> (tc_openTurn tr = None \<longrightarrow> tc_openStep tr = None)
      \<and> distinct (map fst (rs_pendingCalls s))
      \<and> (\<forall>(c, p) \<in> set (rs_pendingCalls s). tc_openStep tr = Some (pc_step p)
           \<and> (case pc_callSeq p of None \<Rightarrow> True
              | Some n \<Rightarrow> c \<in> set (tc_pendingCalls tr) \<and> (\<exists>e \<in> set log. ev_seq e = n)))
      \<and> (\<forall>e \<in> set log. int (ev_seq e) \<le> tc_lastSeq tr)
      \<and> (log \<noteq> [] \<longrightarrow> tc_lastSeq tr = int (ev_seq (last log))))"

lemma distinct_map_set: "distinct (map fst m) \<Longrightarrow> distinct (map fst (map_set k v m))"
  by (rule distinct_update)

lemma register_calls_distinct:
  "distinct (map fst m) \<Longrightarrow> distinct (map fst (register_calls step bs m))"
  by (induction step bs m rule: register_calls.induct) (auto simp: distinct_map_set)

lemma register_calls_set:
  "distinct (map fst m) \<Longrightarrow> (c, p) \<in> set (register_calls step bs m) \<Longrightarrow>
   (c, p) \<in> set m \<or> p = \<lparr>pc_step = step, pc_callSeq = None\<rparr>"
  by (induction step bs m rule: register_calls.induct) (auto simp: distinct_map_set set_map_set)

lemma repair_scan_snoc: "repair_scan_of (log @ [e]) = repair_step (repair_scan_of log) e"
  by (simp add: repair_scan_of_def)

lemma repair_step_plain:
  "plain_data (ev_data e) \<Longrightarrow> (\<forall>t s m u i. ev_data e \<noteq> AssistantMessage t s m u i) \<Longrightarrow>
   repair_step s e = s"
  by (cases "ev_data e") (auto simp: repair_step_def)

text \<open>The part of the invariant about pending calls, with the new scan and trace spelled out.\<close>

lemma scan_agrees_snoc:
  assumes old: "scan_agrees log tr" and st: "trace_step tr e = Inr tr'"
    and scan: "repair_step (repair_scan_of log) e = s'"
    and open_same: "rs_openTurn s' = tc_openTurn tr'" "rs_openStep s' = tc_openStep tr'"
      "tc_openTurn tr' = None \<longrightarrow> tc_openStep tr' = None"
    and dist: "distinct (map fst (rs_pendingCalls s'))"
    and pend: "\<And>c p. (c, p) \<in> set (rs_pendingCalls s') \<Longrightarrow>
        tc_openStep tr' = Some (pc_step p)
        \<and> (case pc_callSeq p of None \<Rightarrow> True
           | Some n \<Rightarrow> c \<in> set (tc_pendingCalls tr') \<and> (\<exists>f \<in> set (log @ [e]). ev_seq f = n))"
  shows "scan_agrees (log @ [e]) tr'"
proof -
  from trace_step_seq [OF st] old have "\<forall>f \<in> set (log @ [e]). int (ev_seq f) \<le> tc_lastSeq tr'"
    by (fastforce simp: scan_agrees_def Let_def)
  with open_same dist pend trace_step_seq(2) [OF st] show ?thesis
    unfolding scan_agrees_def Let_def repair_scan_snoc scan by auto
qed

lemma scan_agrees_step:
  assumes old: "scan_agrees log tr" and st: "trace_step tr e = Inr tr'"
  shows "scan_agrees (log @ [e]) tr'"
proof -
  let ?s = "repair_scan_of log"
  have o: "rs_openTurn ?s = tc_openTurn tr" "rs_openStep ?s = tc_openStep tr"
      "tc_openTurn tr = None \<longrightarrow> tc_openStep tr = None" "distinct (map fst (rs_pendingCalls ?s))"
    and p: "\<And>c p. (c, p) \<in> set (rs_pendingCalls ?s) \<Longrightarrow> tc_openStep tr = Some (pc_step p)
           \<and> (case pc_callSeq p of None \<Rightarrow> True
              | Some n \<Rightarrow> c \<in> set (tc_pendingCalls tr) \<and> (\<exists>e \<in> set log. ev_seq e = n))"
    using old by (auto simp: scan_agrees_def Let_def)
  note snoc = scan_agrees_snoc [OF old st refl]
  from st show ?thesis
  proof (cases rule: trace_step_elim)
    case (turn_start turn)
    then show ?thesis using o by (intro snoc) (auto simp: repair_step_def)
  next
    case (turn_end turn reason)
    then show ?thesis using o by (intro snoc) (auto simp: repair_step_def)
  next
    case (step_start turn step)
    then show ?thesis using o p by (intro snoc) (auto simp: repair_step_def)
  next
    case (step_end turn step)
    then show ?thesis using o by (intro snoc) (auto simp: repair_step_def)
  next
    case (tool_call turn step c n a)
    then show ?thesis using o p
      by (intro snoc)
        (fastforce simp: repair_step_def set_map_set distinct_map_set dest: map_of_SomeD
          split: option.splits)+
  next
    case (rewrite r)
    then show ?thesis using o p
      by (intro snoc)
        (fastforce simp: repair_step_def in_map_delete distinct_map_delete split: option.splits)+
  next
    case (tool_result r b bs)
    then show ?thesis using o p
      by (intro snoc)
        (fastforce simp: repair_step_def in_map_delete distinct_map_delete split: option.splits)+
  next
    case plain
    show ?thesis
    proof (cases "\<exists>t s m u i. ev_data e = AssistantMessage t s m u i")
      case True
      then obtain t k m u i where d: "ev_data e = AssistantMessage t k m u i" by blast
      with st have k: "tc_openStep tr = Some k"
        by (auto simp: trace_step_def validateEvent_def rbind_Inr_iff split: if_splits)
      have s': "repair_step ?s e =
          ?s\<lparr>rs_pendingCalls := register_calls k (msg_content m) (rs_pendingCalls ?s)\<rparr>"
        by (simp add: repair_step_def d)
      have "tc_openStep tr' = Some (pc_step p) \<and> (case pc_callSeq p of None \<Rightarrow> True
           | Some n \<Rightarrow> c \<in> set (tc_pendingCalls tr') \<and> (\<exists>f \<in> set (log @ [e]). ev_seq f = n))"
        if "(c, p) \<in> set (register_calls k (msg_content m) (rs_pendingCalls ?s))" for c p
        using register_calls_set [OF o(4) that]
      proof
        assume "(c, p) \<in> set (rs_pendingCalls ?s)"
        from p [OF this] plain show ?thesis by (auto split: option.splits)
      next
        assume "p = \<lparr>pc_step = k, pc_callSeq = None\<rparr>"
        with plain k show ?thesis by simp
      qed
      then show ?thesis using plain o
        by (intro snoc) (simp_all add: s' register_calls_distinct)
    next
      case False
      with plain repair_step_plain o p show ?thesis
        by (intro snoc) (fastforce split: option.splits)+
    qed
  qed
qed

lemma scan_agrees_start: "scan_agrees [] freshTrace"
  by (simp add: scan_agrees_def repair_scan_of_def repair_start_def freshTrace_def)

interpretation scan_fold: history_fold "\<lambda>_. trace_step" freshTrace scan_agrees
  by unfold_locales (auto intro: scan_agrees_start scan_agrees_step)

lemma seedSession_scan: "seedSession log = Inr tr \<Longrightarrow> scan_agrees log tr"
  using scan_fold.hinv_hrun by (simp add: seedSession_def hrun_const)

text \<open>The sequence numbers the scan records are those of events of the log, whatever the log.\<close>

definition scan_cites :: "session_event list \<Rightarrow> bool" where
  "scan_cites log \<longleftrightarrow> distinct (map fst (rs_pendingCalls (repair_scan_of log)))
     \<and> (\<forall>(c, p) \<in> set (rs_pendingCalls (repair_scan_of log)).
          case pc_callSeq p of None \<Rightarrow> True | Some n \<Rightarrow> n \<in> ev_seq ` set log)"

lemma scan_cites_all: "scan_cites log"
proof (induction log rule: rev_induct)
  case Nil
  show ?case by (simp add: scan_cites_def repair_scan_of_def repair_start_def)
next
  case (snoc e log)
  then have d: "distinct (map fst (rs_pendingCalls (repair_scan_of log)))"
    and p: "\<And>c p n. (c, p) \<in> set (rs_pendingCalls (repair_scan_of log)) \<Longrightarrow> pc_callSeq p = Some n \<Longrightarrow>
      n \<in> ev_seq ` set log"
    by (fastforce simp: scan_cites_def)+
  have "distinct (map fst (rs_pendingCalls (repair_step (repair_scan_of log) e)))"
    using d by (auto simp: repair_step_def distinct_map_set distinct_map_delete register_calls_distinct
        split: event_data.splits option.splits)
  moreover have "n \<in> ev_seq ` set (log @ [e])"
    if "(c, q) \<in> set (rs_pendingCalls (repair_step (repair_scan_of log) e))" "pc_callSeq q = Some n" for c q n
  proof (cases "ev_data e")
    case (AssistantMessage t k m u i)
    with that(1) register_calls_set [OF d, of c q k "msg_content m"] p that(2)
    show ?thesis by (fastforce simp: repair_step_def)
  next
    case (ToolCall t k i nm a)
    with that p d show ?thesis
      by (fastforce simp: repair_step_def set_map_set split: option.splits)
  next
    case (ToolResult r)
    with that p show ?thesis by (fastforce simp: repair_step_def in_map_delete split: option.splits)
  qed (use that p in \<open>fastforce simp: repair_step_def\<close>)+
  ultimately show ?case
    unfolding scan_cites_def repair_scan_snoc by (auto split: option.splits)
qed

section \<open>The closers are accepted\<close>

lemma length_result_closers [simp]: "length (result_closers turn time s cps) = length cps"
  by (induction cps arbitrary: s) auto

lemma result_closer_accepted:
  assumes "tc_openTurn tr = Some turn" "tc_openStep tr = Some (pc_step p)" "tc_lastSeq tr < int s"
    "pc_callSeq p \<noteq> None \<longrightarrow> c \<in> set (tc_pendingCalls tr)"
  shows "trace_step tr (result_closer turn time s (c, p)) =
     Inr (tr\<lparr>tc_lastSeq := int s, tc_pendingCalls := removeAll c (tc_pendingCalls tr)\<rparr>)"
  using assms
  by (auto simp: trace_step_def validateEvent_def validateResult_def result_closer_def Let_def
      result_call_def syntheticNotStarted_def first_isError_def applyTransition_def moved_def
      requireOpenStep_def TOOL_NOT_STARTED_def split: option.splits)

lemma result_closers_accepted:
  "tc_openTurn tr = Some turn \<Longrightarrow> tc_lastSeq tr < int s \<Longrightarrow> distinct (map fst cps) \<Longrightarrow>
   \<forall>(c, p) \<in> set cps. tc_openStep tr = Some (pc_step p)
      \<and> (pc_callSeq p \<noteq> None \<longrightarrow> c \<in> set (tc_pendingCalls tr)) \<Longrightarrow>
   \<exists>tr'. run trace_step tr (result_closers turn time s cps) = Inr tr'
      \<and> tc_openTurn tr' = Some turn \<and> tc_openStep tr' = tc_openStep tr
      \<and> tc_lastSeq tr' < int (s + length cps)
      \<and> set (tc_pendingCalls tr') \<subseteq> set (tc_pendingCalls tr)"
proof (induction cps arbitrary: tr s)
  case Nil
  then show ?case by simp
next
  case (Cons cp cps)
  obtain c p where cp: "cp = (c, p)" by (cases cp)
  let ?t = "tr\<lparr>tc_lastSeq := int s, tc_pendingCalls := removeAll c (tc_pendingCalls tr)\<rparr>"
  have st: "trace_step tr (result_closer turn time s cp) = Inr ?t"
    using Cons.prems unfolding cp by (intro result_closer_accepted) auto
  have "\<forall>(d, q) \<in> set cps. tc_openStep ?t = Some (pc_step q)
      \<and> (pc_callSeq q \<noteq> None \<longrightarrow> d \<in> set (tc_pendingCalls ?t))"
    using Cons.prems(3,4) unfolding cp by force
  with Cons.IH [of ?t "s + 1"] Cons.prems(1,3) obtain tr' where
    "run trace_step ?t (result_closers turn time (s + 1) cps) = Inr tr'"
    "tc_openTurn tr' = Some turn" "tc_openStep tr' = tc_openStep tr"
    "tc_lastSeq tr' < int (s + 1 + length cps)" "set (tc_pendingCalls tr') \<subseteq> set (tc_pendingCalls ?t)"
    by auto
  with st show ?case by auto
qed

lemma boundary_closers_accepted:
  assumes "tc_openTurn tr = Some turn" "tc_openStep tr = openStep" "tc_lastSeq tr < int s"
    "openStep = None \<Longrightarrow> tc_pendingCalls tr = []"
  shows "\<exists>tr'. run trace_step tr (boundary_closers turn openStep time s) = Inr tr'
    \<and> tc_openTurn tr' = None \<and> tc_openStep tr' = None \<and> tc_pendingCalls tr' = []"
  using assms
  by (cases openStep)
    (auto simp: boundary_closers_def trace_step_def validateEvent_def applyTransition_def moved_def
      requireOpenStep_def)

lemma closers_open:
  assumes "rs_openTurn (repair_scan_of log) = Some turn" "log \<noteq> []"
  shows "interruptedTurnClosers log =
     result_closers turn (ev_time (last log)) (ev_seq (last log) + 1) (rs_pendingCalls (repair_scan_of log))
     @ boundary_closers turn (rs_openStep (repair_scan_of log)) (ev_time (last log))
         (ev_seq (last log) + 1 + length (rs_pendingCalls (repair_scan_of log)))"
  using assms by (simp add: interruptedTurnClosers_def last_of_def Let_def)

lemma scan_empty: "rs_openTurn (repair_scan_of []) = None"
  by (simp add: repair_scan_of_def repair_start_def)

text \<open>
  C1: crash repair restores an acceptable, closed log. For every log the companion accepts,
  however it was cut off, the log with its closers appended is accepted again, and it ends with
  no turn open, no step open and no call pending.
\<close>

theorem repair_closes_accepted_log:
  assumes "seedSession log = Inr tr"
  shows "\<exists>tr'. seedSession (repaired log) = Inr tr'
    \<and> tc_openTurn tr' = None \<and> tc_openStep tr' = None \<and> tc_pendingCalls tr' = []"
proof (cases "tc_openTurn tr")
  case None
  from seedSession_scan [OF assms] None
  have "rs_openTurn (repair_scan_of log) = None" "tc_openStep tr = None"
    by (auto simp: scan_agrees_def Let_def)
  moreover from this trace_pending(1) [OF seedSession_inv [OF assms]] have "tc_pendingCalls tr = []"
    by simp
  ultimately show ?thesis using assms None by (simp add: repaired_def interruptedTurnClosers_def Let_def)
next
  case (Some turn)
  let ?s = "repair_scan_of log"
  note agree = seedSession_scan [OF assms, unfolded scan_agrees_def Let_def]
  from agree Some have o: "rs_openTurn ?s = Some turn" "rs_openStep ?s = tc_openStep tr" by auto
  then have ne: "log \<noteq> []" using scan_empty by auto
  with agree have last: "tc_lastSeq tr < int (ev_seq (last log) + 1)" by simp
  have "\<forall>(c, p) \<in> set (rs_pendingCalls ?s). tc_openStep tr = Some (pc_step p)
      \<and> (pc_callSeq p \<noteq> None \<longrightarrow> c \<in> set (tc_pendingCalls tr))"
    using agree by (auto split: option.splits)
  with result_closers_accepted [OF Some last] agree obtain t where
    t: "run trace_step tr (result_closers turn (ev_time (last log)) (ev_seq (last log) + 1)
          (rs_pendingCalls ?s)) = Inr t"
      "tc_openTurn t = Some turn" "tc_openStep t = rs_openStep ?s"
      "tc_lastSeq t < int (ev_seq (last log) + 1 + length (rs_pendingCalls ?s))"
      "set (tc_pendingCalls t) \<subseteq> set (tc_pendingCalls tr)"
    unfolding o(2) by blast
  have "rs_openStep ?s = None \<Longrightarrow> tc_pendingCalls t = []"
    using t(5) trace_pending(1) [OF seedSession_inv [OF assms]] o(2) by auto
  from boundary_closers_accepted [OF t(2,3,4) this] t(1) assms show ?thesis
    by (auto simp: repaired_def seedSession_def run_append closers_open [OF o(1) ne])
qed

definition sample_crash_log :: "session_event list" where
  "sample_crash_log =
     [log_event 0 5 (TurnStart 1),
      log_event 1 5 (StepStart 1 1),
      \<lparr>ev_seq = 2, ev_time = 6,
       ev_data = AssistantMessage 1 1 \<lparr>msg_id = ''a'', msg_role = Assistant,
         msg_content = [ToolCallBlock ''x'' ''read'' ''{}'', ToolCallBlock ''y'' ''read'' ''{}''],
         msg_source = ModelSource ''p'' ''m'' None\<rparr> None False,
       ev_ignorable = False, ev_sources = None, ev_surfaceOp = Some append_op\<rparr>,
      log_event 3 7 (ToolCall 1 1 ''x'' ''read'' ''{}'')]"

lemma sample_crash_trace:
  "seedSession sample_crash_log = Inr \<lparr>tc_lastSeq = 3, tc_openTurn = Some 1, tc_openStep = Some 1,
     tc_nextTurn = 1, tc_nextStep = 1, tc_pendingCalls = [''x'']\<rparr>"
  by code_simp

theorem repair_closes_accepted_log_witness:
  "\<exists>tr'. seedSession (repaired sample_crash_log) = Inr tr' \<and> tc_openTurn tr' = None"
  using repair_closes_accepted_log [OF sample_crash_trace] by blast

text \<open>Repair is idempotent: a repaired log, whatever it was repaired from, has no closers.\<close>

theorem repair_idempotent:
  "interruptedTurnClosers (repaired log) = []"
proof (cases "rs_openTurn (repair_scan_of log)")
  case None
  then show ?thesis by (simp add: repaired_def interruptedTurnClosers_def Let_def)
next
  case (Some turn)
  then have ne: "log \<noteq> []" using scan_empty by auto
  have "rs_openTurn (repair_scan_of (repaired log)) = None"
    by (simp add: repaired_def closers_open [OF Some ne] repair_scan_of_def boundary_closers_def
        repair_step_def split: option.splits)
  then show ?thesis by (simp add: interruptedTurnClosers_def Let_def)
qed

section \<open>The surface accepts the closers\<close>

lemma result_closer_plan:
  assumes "case pc_callSeq p of None \<Rightarrow> True | Some n \<Rightarrow> n < s \<and> int n \<le> MAX_SAFE_INTEGER"
  shows "planSurfaceEvent st (result_closer turn time s (c, p)) s events b = Inr (Some (AppendPlan s))"
  using assms
  by (auto simp: planSurfaceEvent_def surfaceOpOf_def result_closer_def Let_def assertProvenance_def
      citesShadowed_def split: option.splits)

lemma result_closers_folded:
  assumes "hrun fold_step [] surface_start xs = Inr (st, reps, length xs)"
    "\<forall>(c, p) \<in> set cps. case pc_callSeq p of None \<Rightarrow> True
       | Some n \<Rightarrow> n < length xs \<and> int n \<le> MAX_SAFE_INTEGER"
  shows "\<exists>st'. hrun fold_step [] surface_start (xs @ result_closers turn time (length xs) cps)
      = Inr (st', reps, length xs + length cps)
    \<and> fs_nodes st' = fs_nodes st @ [length xs ..< length xs + length cps]"
  using assms
proof (induction cps arbitrary: xs st)
  case Nil
  then show ?case by simp
next
  case (Cons cp cps)
  obtain c p where cp: "cp = (c, p)" by (cases cp)
  let ?e = "result_closer turn time (length xs) cp" and ?st = "st\<lparr>fs_nodes := fs_nodes st @ [length xs]\<rparr>"
  have "hrun fold_step [] surface_start (xs @ [?e]) = Inr (?st, reps, length (xs @ [?e]))"
    using Cons.prems
    by (simp add: hrun_snoc cp fold_step_eq result_closer_plan)
  moreover have "\<forall>(c, p) \<in> set cps. case pc_callSeq p of None \<Rightarrow> True
       | Some n \<Rightarrow> n < length (xs @ [?e]) \<and> int n \<le> MAX_SAFE_INTEGER"
    using Cons.prems(2) by (fastforce split: option.splits)
  ultimately obtain st' where
    "hrun fold_step [] surface_start ((xs @ [?e]) @ result_closers turn time (length (xs @ [?e])) cps)
      = Inr (st', reps, length (xs @ [?e]) + length cps)"
    "fs_nodes st' = fs_nodes ?st @ [length (xs @ [?e]) ..< length (xs @ [?e]) + length cps]"
    using Cons.IH by blast
  then show ?case by (simp add: upt_conv_Cons del: upt_Suc)
qed

lemma boundary_closers_folded:
  assumes "hrun fold_step [] surface_start xs = Inr (st, reps, length xs)"
  shows "\<exists>i. hrun fold_step [] surface_start (xs @ boundary_closers turn openStep time (length xs))
    = Inr (st, reps, i)"
proof (cases openStep)
  case None
  with log_event_folded [OF assms] show ?thesis by (simp add: boundary_closers_def)
next
  case (Some step)
  let ?e = "log_event (length xs) time (StepEnd turn step)"
  have "hrun fold_step [] surface_start (xs @ [?e]) = Inr (st, reps, length (xs @ [?e]))"
    using log_event_folded [OF assms, of "StepEnd turn step"] by simp
  from log_event_folded [OF this, of "TurnEnd turn Interrupted"] Some show ?thesis
    by (simp add: boundary_closers_def)
qed

lemma surface_seqs_results:
  "map ev_seq (filter isSurfaceEvent (result_closers turn time s cps)) = [s ..< s + length cps]"
proof (induction cps arbitrary: s)
  case (Cons cp cps)
  have "isSurfaceEvent (result_closer turn time s cp)" "ev_seq (result_closer turn time s cp) = s"
    by (simp_all add: isSurfaceEvent_def result_closer_def Let_def split: prod.splits)
  with Cons.IH [of "s + 1"] show ?case by (simp add: upt_conv_Cons del: upt_Suc)
qed simp

lemma surface_boundary: "filter isSurfaceEvent (boundary_closers turn st time s) = []"
  by (simp add: boundary_closers_def isSurfaceEvent_def split: option.splits)

text \<open>
  The surface accepts the closers of any log it accepts (with fewer than \<open>2 ^ 53\<close> events),
  shadows nothing, and shows the synthetic results, in order, after everything it showed before.
\<close>

theorem repair_extends_surface:
  assumes "foldSurface log = Inr (nodes, reps)" and "int (length log) \<le> MAX_SAFE_INTEGER"
  shows "foldSurface (repaired log) =
    Inr (nodes @ map ev_seq (filter isSurfaceEvent (interruptedTurnClosers log)), reps)"
proof (cases "rs_openTurn (repair_scan_of log)")
  case None
  with assms(1) show ?thesis by (simp add: repaired_def interruptedTurnClosers_def Let_def)
next
  case (Some turn)
  then have ne: "log \<noteq> []" using scan_empty by auto
  from assms(1) obtain st where inv: "surface_inv log (st, reps, length log)" and n: "nodes = fs_nodes st"
    and h: "hrun fold_step [] surface_start log = Inr (st, reps, length log)"
    by (rule foldSurface_inv)
  from inv have c: "contiguous log" by (simp add: surface_inv_def)
  let ?cps = "rs_pendingCalls (repair_scan_of log)" and ?time = "ev_time (last log)"
  let ?xs = "log @ result_closers turn ?time (length log) ?cps"
  from ne c have l: "ev_seq (last log) + 1 = length log"
    by (simp add: contiguous_def last_conv_nth)
  have bound: "\<forall>(c, p) \<in> set ?cps. case pc_callSeq p of None \<Rightarrow> True
       | Some n \<Rightarrow> n < length log \<and> int n \<le> MAX_SAFE_INTEGER"
  proof -
    have "n < length log" if "n \<in> ev_seq ` set log" for n
      using that c by (auto simp: contiguous_def in_set_conv_nth)
    then show ?thesis
      using scan_cites_all [of log] assms(2)
      unfolding scan_cites_def by (fastforce split: option.splits)
  qed
  from result_closers_folded [OF h bound] obtain st' where
    h': "hrun fold_step [] surface_start ?xs = Inr (st', reps, length ?xs)"
    and n': "fs_nodes st' = fs_nodes st @ [length log ..< length log + length ?cps]"
    by auto
  have r: "repaired log = ?xs @ boundary_closers turn (rs_openStep (repair_scan_of log)) ?time (length ?xs)"
    using l by (simp add: repaired_def closers_open [OF Some ne])
  have s: "map ev_seq (filter isSurfaceEvent (interruptedTurnClosers log))
      = [length log ..< length log + length ?cps]"
    using l by (simp add: closers_open [OF Some ne] surface_seqs_results surface_boundary)
  from boundary_closers_folded [OF h'] r obtain i where
    "hrun fold_step [] surface_start (repaired log) = Inr (st', reps, i)" by metis
  then show ?thesis by (simp add: foldSurface_hrun n n' s)
qed

lemma sample_crash_fold: "foldSurface sample_crash_log = Inr ([2], [])"
  by code_simp

theorem repair_extends_surface_witness:
  "foldSurface (repaired sample_crash_log) =
    Inr ([2] @ map ev_seq (filter isSurfaceEvent (interruptedTurnClosers sample_crash_log)), [])"
  using repair_extends_surface [OF sample_crash_fold]
  by (simp add: sample_crash_log_def MAX_SAFE_INTEGER_def)

text \<open>The closers of the sample: one unknown outcome, one call never started, both boundaries.\<close>

lemma sample_crash_closers:
  "map (\<lambda>e. (ev_seq e, event_type (ev_data e), ev_sources e)) (interruptedTurnClosers sample_crash_log) =
     [(4, ''tool/result'', Some (JArr [num 3])), (5, ''tool/result'', None),
      (6, ''step/end'', None), (7, ''turn/end'', None)]"
  by code_simp

end
