(* ===== verification/Request_Header.thy ===== *)
theory Request_Header
  imports Prelude Session_Types
begin

text \<open>
  Reconstruction of the request header from the log: core/session/src/request-header.ts and the
  configuration equality of llm/llm/src/call-config.ts. The results: canonical form is idempotent
  and every reconstructed header has it; folding a log in two parts is folding it whole, which is
  what lets a session keep the fold incrementally; and the comparison that decides whether a
  header must be logged again is an equivalence on the headers a log can hold.
\<close>

section \<open>Canonical form\<close>

definition marked :: "adapter_defaults option \<Rightarrow> bool" where
  "marked d = (case d of None \<Rightarrow> False | Some a \<Rightarrow> ad_reasoningEffort a \<or> ad_maxTokens a)"

definition canonicalHeader :: "epoch_header \<Rightarrow> epoch_header" where
  "canonicalHeader h =
     \<lparr>eh_config = eh_config h,
      eh_adapterDefaults = (if marked (eh_adapterDefaults h) then eh_adapterDefaults h else None),
      eh_system = (case eh_system h of Some s \<Rightarrow> if 0 < length s then Some s else None | None \<Rightarrow> None),
      eh_tools = (case eh_tools h of Some ts \<Rightarrow> if 0 < length ts then Some ts else None | None \<Rightarrow> None)\<rparr>"

section \<open>Equality\<close>

text \<open>\<open>!==\<close> on optional scalars: both absent, or both present and equal.\<close>

definition opt_num_eq :: "jsnum option \<Rightarrow> jsnum option \<Rightarrow> bool" where
  "opt_num_eq a b = (case (a, b) of (None, None) \<Rightarrow> True | (Some x, Some y) \<Rightarrow> num_eq x y | _ \<Rightarrow> False)"

definition callConfigEquals :: "call_config \<Rightarrow> call_config \<Rightarrow> bool" where
  "callConfigEquals a b \<longleftrightarrow>
     cc_provider a = cc_provider b \<and> cc_model a = cc_model b
     \<and> cc_reasoningEffort a = cc_reasoningEffort b
     \<and> opt_num_eq (cc_temperature a) (cc_temperature b)
     \<and> opt_num_eq (cc_maxTokens a) (cc_maxTokens b)
     \<and> (case (cc_stop a, cc_stop b) of
          (Some s, Some t) \<Rightarrow> length s = length t \<and> list_all2 (=) s t
        | (None, None) \<Rightarrow> True
        | _ \<Rightarrow> False)"

text \<open>
  \<open>JSON.stringify\<close> of two values gives the same text when they agree up to the numbers the text
  cannot tell apart: \<open>NaN\<close> and the infinities print as \<open>null\<close>, negative zero as \<open>0\<close>.
\<close>

fun stringified :: "json \<Rightarrow> json" where
  "stringified (JNum NNegZero) = JNum (NInt 0)"
| "stringified (JNum (NInf b)) = JNull"
| "stringified (JNum NNaN) = JNull"
| "stringified (JArr xs) = JArr (map stringified xs)"
| "stringified (JObj kvs) = JObj (map (\<lambda>kv. (fst kv, stringified (snd kv))) kvs)"
| "stringified v = v"

definition sameSchema :: "json \<Rightarrow> json \<Rightarrow> bool" where
  "sameSchema a b \<longleftrightarrow> stringified a = stringified b"

definition marker :: "(adapter_defaults \<Rightarrow> bool) \<Rightarrow> adapter_defaults option \<Rightarrow> bool" where
  "marker get d = (case d of None \<Rightarrow> False | Some a \<Rightarrow> get a)"

definition headerEquals :: "epoch_header \<Rightarrow> epoch_header \<Rightarrow> bool" where
  "headerEquals a b \<longleftrightarrow>
     callConfigEquals (eh_config a) (eh_config b)
     \<and> marker ad_reasoningEffort (eh_adapterDefaults a) = marker ad_reasoningEffort (eh_adapterDefaults b)
     \<and> marker ad_maxTokens (eh_adapterDefaults a) = marker ad_maxTokens (eh_adapterDefaults b)
     \<and> eh_system a = eh_system b
     \<and> (let at = (case eh_tools a of None \<Rightarrow> [] | Some ts \<Rightarrow> ts);
            bt = (case eh_tools b of None \<Rightarrow> [] | Some ts \<Rightarrow> ts)
        in length at = length bt \<and> list_all (\<lambda>(s, t). sameSchema s t) (zip at bt))"

section \<open>The fold\<close>

definition header_step :: "epoch_header option \<Rightarrow> session_event \<Rightarrow> epoch_header option" where
  "header_step st e =
     (case ev_data e of RequestHeader h _ _ \<Rightarrow> Some (canonicalHeader h) | _ \<Rightarrow> st)"

definition foldRequestHeader ::
  "session_event list \<Rightarrow> epoch_header option \<Rightarrow> epoch_header option" where
  "foldRequestHeader events from = foldl header_step from events"

lemma foldRequestHeader_append:
  "foldRequestHeader (xs @ ys) from = foldRequestHeader ys (foldRequestHeader xs from)"
  by (simp add: foldRequestHeader_def)

lemma canonicalHeader_idem [simp]: "canonicalHeader (canonicalHeader h) = canonicalHeader h"
  by (simp add: canonicalHeader_def split: option.splits)

lemma foldRequestHeader_canonical:
  "foldRequestHeader events None = Some h \<Longrightarrow> canonicalHeader h = h"
proof (induction events rule: rev_induct)
  case Nil
  then show ?case by (simp add: foldRequestHeader_def)
next
  case (snoc e events)
  then show ?case
    by (cases "ev_data e") (auto simp: foldRequestHeader_def header_step_def)
qed

section \<open>The comparison is an equivalence\<close>

text \<open>A header that \<open>append\<close> can log holds no \<open>NaN\<close>.\<close>

definition opt_no_nan :: "jsnum option \<Rightarrow> bool" where
  "opt_no_nan a = (case a of None \<Rightarrow> True | Some x \<Rightarrow> x \<noteq> NNaN)"

definition header_loggable :: "epoch_header \<Rightarrow> bool" where
  "header_loggable h \<longleftrightarrow> opt_no_nan (cc_temperature (eh_config h)) \<and> opt_no_nan (cc_maxTokens (eh_config h))"

lemma opt_num_eq_refl: "opt_no_nan a \<Longrightarrow> opt_num_eq a a"
  by (cases a; cases "the a") (auto simp: opt_num_eq_def opt_no_nan_def)

lemma opt_num_eq_sym: "opt_num_eq a b \<Longrightarrow> opt_num_eq b a"
  by (auto simp: opt_num_eq_def num_eq_sym split: option.splits)

lemma opt_num_eq_trans: "opt_num_eq a b \<Longrightarrow> opt_num_eq b c \<Longrightarrow> opt_num_eq a c"
  by (auto simp: opt_num_eq_def intro: num_eq_trans split: option.splits)

lemma callConfigEquals_refl:
  "opt_no_nan (cc_temperature a) \<Longrightarrow> opt_no_nan (cc_maxTokens a) \<Longrightarrow> callConfigEquals a a"
  by (auto simp: callConfigEquals_def opt_num_eq_refl list.rel_eq split: option.splits)

lemma callConfigEquals_sym: "callConfigEquals a b \<Longrightarrow> callConfigEquals b a"
  by (auto simp: callConfigEquals_def list.rel_eq intro: opt_num_eq_sym split: option.splits)

lemma callConfigEquals_trans: "callConfigEquals a b \<Longrightarrow> callConfigEquals b c \<Longrightarrow> callConfigEquals a c"
  by (auto simp: callConfigEquals_def list.rel_eq intro: opt_num_eq_trans split: option.splits)

lemma tools_equal_iff:
  "length as = length bs \<and> list_all (\<lambda>(s, t). sameSchema s t) (zip as bs)
     \<longleftrightarrow> map stringified as = map stringified bs"
proof -
  have "length as = length bs \<and> list_all (\<lambda>(s, t). sameSchema s t) (zip as bs) \<longleftrightarrow> list_all2 sameSchema as bs"
    by (auto simp: list_all2_iff list_all_iff)
  also have "\<dots> \<longleftrightarrow> map stringified as = map stringified bs"
    by (auto simp: list_all2_conv_all_nth list_eq_iff_nth_eq sameSchema_def)
  finally show ?thesis .
qed

lemma headerEquals_tools:
  "headerEquals a b \<longleftrightarrow>
     callConfigEquals (eh_config a) (eh_config b)
     \<and> marker ad_reasoningEffort (eh_adapterDefaults a) = marker ad_reasoningEffort (eh_adapterDefaults b)
     \<and> marker ad_maxTokens (eh_adapterDefaults a) = marker ad_maxTokens (eh_adapterDefaults b)
     \<and> eh_system a = eh_system b
     \<and> map stringified (case eh_tools a of None \<Rightarrow> [] | Some ts \<Rightarrow> ts)
       = map stringified (case eh_tools b of None \<Rightarrow> [] | Some ts \<Rightarrow> ts)"
  by (simp add: headerEquals_def Let_def tools_equal_iff)

text \<open>
  The comparison that decides whether a changed header must be logged is an equivalence: it is
  symmetric and transitive on all headers and reflexive on headers without \<open>NaN\<close>; and
  normalising both sides, which the fold does to every logged header, keeps equal headers equal.
\<close>

theorem header_comparison_is_equivalence:
  "(headerEquals a b = headerEquals b a)
   \<and> (headerEquals a b \<and> headerEquals b c \<longrightarrow> headerEquals a c)
   \<and> (header_loggable a \<longrightarrow> headerEquals a a)
   \<and> (headerEquals a b \<longrightarrow> headerEquals (canonicalHeader a) (canonicalHeader b))
   \<and> canonicalHeader (canonicalHeader a) = canonicalHeader a"
proof (intro conjI impI)
  show "headerEquals a b = headerEquals b a"
    using callConfigEquals_sym by (auto simp: headerEquals_tools)
  show "headerEquals a c" if "headerEquals a b \<and> headerEquals b c"
    using that callConfigEquals_trans by (auto simp: headerEquals_tools)
  show "headerEquals a a" if "header_loggable a"
    using that callConfigEquals_refl by (auto simp: headerEquals_tools header_loggable_def)
  show "headerEquals (canonicalHeader a) (canonicalHeader b)" if "headerEquals a b"
    using that
    by (auto simp: headerEquals_tools canonicalHeader_def marker_def marked_def split: option.splits if_splits)
qed simp

definition sample_header :: "string option \<Rightarrow> adapter_defaults option \<Rightarrow> epoch_header" where
  "sample_header sys d =
     \<lparr>eh_config = \<lparr>cc_provider = ''p'', cc_model = ''m'', cc_reasoningEffort = None,
        cc_temperature = Some (NFrac 1 1), cc_maxTokens = None, cc_stop = None\<rparr>,
      eh_adapterDefaults = d, eh_system = sys, eh_tools = Some []\<rparr>"

theorem header_comparison_is_equivalence_witness:
  "headerEquals (sample_header (Some ''s'') None) (sample_header (Some ''s'') None)
   \<and> headerEquals (canonicalHeader (sample_header None None))
       (canonicalHeader (sample_header None (Some \<lparr>ad_reasoningEffort = False, ad_maxTokens = False\<rparr>)))"
proof -
  have l: "header_loggable (sample_header s d)" for s d
    by (simp add: header_loggable_def sample_header_def opt_no_nan_def)
  have e: "headerEquals (sample_header None None)
      (sample_header None (Some \<lparr>ad_reasoningEffort = False, ad_maxTokens = False\<rparr>))"
    by code_simp
  from header_comparison_is_equivalence [of "sample_header (Some ''s'') None"] l
    header_comparison_is_equivalence [of "sample_header None None"
      "sample_header None (Some \<lparr>ad_reasoningEffort = False, ad_maxTokens = False\<rparr>)"] e
  show ?thesis by blast
qed

end
