(* ===== verification/Session_Admission.thy ===== *)
theory Session_Admission
  imports Surface
begin

text \<open>
  Validation at the seed and load boundary of core/session/src/index.ts, on raw JSON: the event
  envelope, the request header vocabulary, the message shapes and the creation header. The typed
  events of the model have a JSON image \<open>event_json\<close>; the results say which typed events pass the
  raw validators and what a validated tool result looks like.
\<close>

section \<open>Helpers on raw values\<close>

definition str_of :: "json \<Rightarrow> string \<Rightarrow> string option" where
  "str_of v k = (case jget v k of Some (JStr s) \<Rightarrow> Some s | _ \<Rightarrow> None)"

definition nonempty_str :: "json \<Rightarrow> string \<Rightarrow> bool" where
  "nonempty_str v k = (case str_of v k of Some s \<Rightarrow> s \<noteq> [] | None \<Rightarrow> False)"

definition isPlainRecord :: "json \<Rightarrow> bool" where
  "isPlainRecord v = (case v of JObj _ \<Rightarrow> True | _ \<Rightarrow> False)"

definition isArray :: "json \<Rightarrow> bool" where
  "isArray v = (case v of JArr _ \<Rightarrow> True | _ \<Rightarrow> False)"

fun lossless_num :: "jsnum \<Rightarrow> bool" where
  "lossless_num (NInt _) = True"
| "lossless_num (NFrac _ _) = True"
| "lossless_num _ = False"

fun isJsonValue :: "json \<Rightarrow> bool" where
  "isJsonValue (JNum n) = lossless_num n"
| "isJsonValue (JArr xs) = (\<forall>x \<in> set xs. isJsonValue x)"
| "isJsonValue (JObj kvs) = (\<forall>kv \<in> set kvs. isJsonValue (snd kv))"
| "isJsonValue _ = True"

text \<open>
  The snapshot of a value that is already a finite tree of JSON kinds: the value itself, or
  \<open>undefined\<close> when a number in it has no JSON text.
\<close>

definition snapshotJsonValue :: "json \<Rightarrow> json option" where
  "snapshotJsonValue v = (if isJsonValue v then Some v else None)"

section \<open>Message shapes\<close>

datatype admission_error =
    NotLossless | NotAnEvent | LegacyHeaderDelta | LegacyFallback | InvalidEnvelope
  | LacksProviderModel | InvalidReasoningEffort | InvalidAdapterDefaults
  | LacksMessage | WrongRole | InvalidSource | InvalidContent | NotModelSource | NotToolSource
  | NotOneResultBlock | MismatchedCallIds

definition hasProviderModel :: "json \<Rightarrow> bool" where
  "hasProviderModel v \<longleftrightarrow> isRecord v \<and> nonempty_str v ''provider'' \<and> nonempty_str v ''model''"

definition message_types :: "string list" where
  "message_types = [''user/message'', ''assistant/message'', ''tool/result'']"

definition assertResultBlock :: "json \<Rightarrow> json list \<Rightarrow> admission_error + unit" where
  "assertResultBlock source content =
     (if str_of source ''kind'' \<noteq> Some ''tool'' \<or> \<not> nonempty_str source ''callId'' then Inl NotToolSource
      else case content of
        [block] \<Rightarrow>
          if \<not> isRecord block \<or> str_of block ''type'' \<noteq> Some ''tool-result''
             \<or> \<not> (case jget block ''content'' of Some c \<Rightarrow> isArray c | None \<Rightarrow> False)
          then Inl NotOneResultBlock
          else if jget block ''toolCallId'' \<noteq> jget source ''callId'' then Inl MismatchedCallIds
          else Inr ()
      | _ \<Rightarrow> Inl NotOneResultBlock)"

definition assertMessageEventShape :: "json \<Rightarrow> admission_error + unit" where
  "assertMessageEventShape event =
     (case str_of event ''type'' of
        None \<Rightarrow> Inr ()
      | Some type \<Rightarrow>
          if type \<notin> set message_types then Inr ()
          else
            let record = jget event ''data'';
                message = (if type = ''user/message'' then record
                           else case record of Some d \<Rightarrow> jget d ''message'' | None \<Rightarrow> None) in
            (case message of
               None \<Rightarrow> Inl LacksMessage
             | Some m \<Rightarrow>
                 if \<not> isRecord m \<or> \<not> nonempty_str m ''id'' then Inl LacksMessage
                 else if str_of m ''role'' \<noteq>
                     Some (if type = ''assistant/message'' then ''assistant'' else ''user'')
                 then Inl WrongRole
                 else case jget m ''source'' of
                   None \<Rightarrow> Inl InvalidSource
                 | Some source \<Rightarrow>
                     if \<not> isRecord source \<or> \<not> nonempty_str source ''kind'' then Inl InvalidSource
                     else case jget m ''content'' of
                       Some (JArr content) \<Rightarrow>
                         if type = ''assistant/message'' then
                           if str_of source ''kind'' \<noteq> Some ''model'' \<or> \<not> hasProviderModel source
                           then Inl NotModelSource else Inr ()
                         else if type = ''tool/result'' then assertResultBlock source content
                         else Inr ()
                     | _ \<Rightarrow> Inl InvalidContent))"

section \<open>Request headers\<close>

definition allowedAdapterKeys :: "string list" where
  "allowedAdapterKeys = [''reasoningEffort'', ''maxTokens'']"

definition assertAdapterDefaults :: "json option \<Rightarrow> json \<Rightarrow> admission_error + unit" where
  "assertAdapterDefaults value config =
     (case value of
        None \<Rightarrow> Inr ()
      | Some (JObj kvs) \<Rightarrow>
          if list_ex (\<lambda>kv. fst kv \<notin> set allowedAdapterKeys) kvs
             \<or> list_ex (\<lambda>kv. snd kv \<noteq> JBool True) kvs
             \<or> (jget (JObj kvs) ''reasoningEffort'' = Some (JBool True) \<and> jget config ''reasoningEffort'' = None)
             \<or> (jget (JObj kvs) ''maxTokens'' = Some (JBool True) \<and> jget config ''maxTokens'' = None)
          then Inl InvalidAdapterDefaults else Inr ()
      | Some _ \<Rightarrow> Inl InvalidAdapterDefaults)"

definition assertHeaderShape :: "json \<Rightarrow> admission_error + unit" where
  "assertHeaderShape event =
     (let header = (case jget event ''data'' of Some d \<Rightarrow> jget d ''header'' | None \<Rightarrow> None);
          headerRecord = (case header of Some h \<Rightarrow> if isPlainRecord h then Some h else None | None \<Rightarrow> None);
          config = (case headerRecord of Some h \<Rightarrow> jget h ''config'' | None \<Rightarrow> None) in
      case config of
        None \<Rightarrow> Inl LacksProviderModel
      | Some c \<Rightarrow>
          if \<not> hasProviderModel c then Inl LacksProviderModel
          else if (case jget c ''reasoningEffort'' of None \<Rightarrow> False | Some (JStr s) \<Rightarrow> s = [] | Some _ \<Rightarrow> True)
          then Inl InvalidReasoningEffort
          else assertAdapterDefaults
                 (case headerRecord of Some h \<Rightarrow> jget h ''adapterDefaults'' | None \<Rightarrow> None) c)"

definition assertCurrentLlmShape :: "json \<Rightarrow> admission_error + unit" where
  "assertCurrentLlmShape event =
     (if str_of event ''type'' = Some ''request/header'' then assertHeaderShape event
      else assertMessageEventShape event)"

definition assertSupportedRequestHeader :: "string \<Rightarrow> json \<Rightarrow> admission_error + unit" where
  "assertSupportedRequestHeader type data =
     (if type = ''request/header-delta'' then Inl LegacyHeaderDelta
      else if type = ''request/header'' \<and> str_of data ''reason'' = Some ''fallback''
      then Inl LegacyFallback else Inr ())"

section \<open>The event envelope\<close>

definition envelope_keys :: "string list" where
  "envelope_keys =
     [''type'', ''seq'', ''time'', ''data'', ''surfaceOp'', ''sourceEventSeqs'', ''ignorable'']"

definition safe_int_field :: "json \<Rightarrow> string \<Rightarrow> bool" where
  "safe_int_field v k = (case jget v k of Some (JNum n) \<Rightarrow> isSafeInteger n | _ \<Rightarrow> False)"

definition assertSessionEventEnvelope :: "json \<Rightarrow> admission_error + unit" where
  "assertSessionEventEnvelope event =
     (if event = JNull then Inl NotAnEvent
      else if str_of event ''type'' = Some ''request/header-delta'' then Inl LegacyHeaderDelta
      else if list_ex (\<lambda>k. k \<notin> set envelope_keys) (object_keys event) then Inl InvalidEnvelope
      else case str_of event ''type'' of
        None \<Rightarrow> Inl InvalidEnvelope
      | Some type \<Rightarrow>
          if \<not> (case jget event ''seq'' of Some s \<Rightarrow> isEventSeq s | None \<Rightarrow> False)
             \<or> \<not> safe_int_field event ''time''
             \<or> jget event ''data'' = None
             \<or> (case jget event ''ignorable'' of None \<Rightarrow> False | Some b \<Rightarrow> b \<noteq> JBool True)
          then Inl InvalidEnvelope
          else if type \<in> set (''request/header'' # message_types) then assertCurrentLlmShape event
          else Inr ())"

text \<open>\<open>adoptSessionEvent\<close>: the message shape is checked, freezing is the identity on values.\<close>

definition adoptSessionEvent :: "json \<Rightarrow> admission_error + json" where
  "adoptSessionEvent event = rbind (assertMessageEventShape event) (\<lambda>_. Inr event)"

section \<open>Creation headers\<close>

definition SESSION_FORMAT_VERSION :: int where
  "SESSION_FORMAT_VERSION = 0"

datatype header_error =
    HeaderNotRecord | HasSeedLength | WrongVersion | WrongId | BadCreatedAt | CwdNotString
  | CwdNotAbsolute | BadParent | BadIsSeeded | BadOrigin | BadDepth | BadPreset | HeaderNotLossless

text \<open>\<open>path.isAbsolute\<close> on a POSIX host.\<close>

definition isAbsolute :: "string \<Rightarrow> bool" where
  "isAbsolute p = (case p of c # _ \<Rightarrow> c = CHR ''/'' | [] \<Rightarrow> False)"

definition nonneg_safe :: "json \<Rightarrow> bool" where
  "nonneg_safe v = (case v of JNum n \<Rightarrow> isSafeInteger n \<and> 0 \<le> num_int n | _ \<Rightarrow> False)"

definition opt_str :: "json \<Rightarrow> string \<Rightarrow> bool" where
  "opt_str v k = (case jget v k of None \<Rightarrow> True | Some (JStr _) \<Rightarrow> True | Some _ \<Rightarrow> False)"

definition validateSessionHeader :: "string \<Rightarrow> json \<Rightarrow> header_error + json" where
  "validateSessionHeader sid input =
     (if \<not> isPlainRecord input then Inl HeaderNotRecord
      else if has_own input ''seedLength'' then Inl HasSeedLength
      else if \<not> (case jget input ''version'' of
                 Some (JNum n) \<Rightarrow> num_eq n (NInt SESSION_FORMAT_VERSION) | _ \<Rightarrow> False)
      then Inl WrongVersion
      else if str_of input ''id'' \<noteq> Some sid then Inl WrongId
      else if \<not> (case jget input ''createdAt'' of Some v \<Rightarrow> nonneg_safe v | None \<Rightarrow> False)
      then Inl BadCreatedAt
      else if \<not> opt_str input ''cwd'' then Inl CwdNotString
      else if (case str_of input ''cwd'' of Some p \<Rightarrow> \<not> isAbsolute p | None \<Rightarrow> False)
      then Inl CwdNotAbsolute
      else if \<not> opt_str input ''parentSession'' then Inl BadParent
      else if \<not> (case jget input ''isSeeded'' of Some (JBool _) \<Rightarrow> True | _ \<Rightarrow> False) then Inl BadIsSeeded
      else if (case jget input ''origin'' of None \<Rightarrow> False | Some v \<Rightarrow> v \<noteq> JStr ''subagent'') then Inl BadOrigin
      else if (case jget input ''delegationDepth'' of None \<Rightarrow> False | Some v \<Rightarrow> \<not> nonneg_safe v)
      then Inl BadDepth
      else if \<not> opt_str input ''agentPreset'' then Inl BadPreset
      else Inr input)"

text \<open>A restored header is fresh from a JSON parser, so its prototype is a plain one.\<close>

definition validateRestoredSessionHeader :: "string \<Rightarrow> json \<Rightarrow> header_error + json" where
  "validateRestoredSessionHeader sid input = validateSessionHeader sid input"

definition minimal_header :: "string \<Rightarrow> int \<Rightarrow> json" where
  "minimal_header sid now =
     JObj [(''version'', JNum (NInt SESSION_FORMAT_VERSION)), (''id'', JStr sid),
           (''createdAt'', JNum (NInt now)), (''isSeeded'', JBool False)]"

definition snapshotSessionHeader :: "string \<Rightarrow> json option \<Rightarrow> int \<Rightarrow> header_error + json" where
  "snapshotSessionHeader sid source now =
     (case snapshotJsonValue (case source of None \<Rightarrow> minimal_header sid now | Some h \<Rightarrow> h) of
        None \<Rightarrow> Inl HeaderNotLossless
      | Some snapshot \<Rightarrow> validateSessionHeader sid snapshot)"

definition header_isSeeded :: "json \<Rightarrow> bool" where
  "header_isSeeded h \<longleftrightarrow> jget h ''isSeeded'' = Some (JBool True)"

section \<open>The JSON image of typed events\<close>

definition int_json :: "int \<Rightarrow> json" where
  "int_json i = JNum (NInt i)"

definition flag_field :: "string \<Rightarrow> bool \<Rightarrow> (string \<times> json) list" where
  "flag_field k b = (if b then [(k, JBool True)] else [])"

definition message_json :: "message \<Rightarrow> json" where
  "message_json m =
     JObj [(''id'', JStr (msg_id m)), (''role'', role_json (msg_role m)),
           (''content'', JArr (map block_json (msg_content m))), (''source'', source_json (msg_source m))]"

fun cause_json :: "cancel_cause \<Rightarrow> json" where
  "cause_json CancelUser = JObj [(''kind'', JStr ''user'')]"
| "cause_json CancelParent = JObj [(''kind'', JStr ''parent'')]"
| "cause_json (CancelHook r) = JObj [(''kind'', JStr ''hook''), (''reason'', JStr r)]"
| "cause_json CancelDisposed = JObj [(''kind'', JStr ''disposed'')]"
| "cause_json CancelLegacy = JObj [(''kind'', JStr ''legacy'')]"

fun reason_json :: "turn_end_reason \<Rightarrow> json" where
  "reason_json Completed = JObj [(''kind'', JStr ''completed'')]"
| "reason_json (Aborted c) = JObj [(''kind'', JStr ''aborted''), (''reason'', cause_json c)]"
| "reason_json Blocked = JObj [(''kind'', JStr ''blocked'')]"
| "reason_json (Errored e) = JObj [(''kind'', JStr ''error''), (''error'', e)]"
| "reason_json MaxTokens = JObj [(''kind'', JStr ''max-tokens'')]"
| "reason_json Interrupted = JObj [(''kind'', JStr ''interrupted'')]"
| "reason_json (OtherReason k) = JObj [(''kind'', JStr k)]"

definition config_json :: "call_config \<Rightarrow> json" where
  "config_json c =
     JObj ([(''provider'', JStr (cc_provider c)), (''model'', JStr (cc_model c))]
       @ opt_field ''reasoningEffort'' (map_option JStr (cc_reasoningEffort c))
       @ opt_field ''temperature'' (map_option JNum (cc_temperature c))
       @ opt_field ''maxTokens'' (map_option JNum (cc_maxTokens c))
       @ opt_field ''stop'' (map_option (\<lambda>ss. JArr (map JStr ss)) (cc_stop c)))"

definition header_json :: "epoch_header \<Rightarrow> json" where
  "header_json h =
     JObj ([(''config'', config_json (eh_config h))]
       @ opt_field ''adapterDefaults'' (map_option (\<lambda>a. JObj
           (flag_field ''reasoningEffort'' (ad_reasoningEffort a) @ flag_field ''maxTokens'' (ad_maxTokens a)))
           (eh_adapterDefaults h))
       @ opt_field ''system'' (map_option JStr (eh_system h))
       @ opt_field ''tools'' (map_option JArr (eh_tools h)))"

definition target_json :: "inbox_target \<Rightarrow> json" where
  "target_json t = JStr (case t of NextTurn \<Rightarrow> ''next-turn'' | NextStep \<Rightarrow> ''next-step'')"

definition shadow_fields :: "shadow \<Rightarrow> (string \<times> json) list" where
  "shadow_fields s =
     [(''shadowedRange'', JObj [(''start'', sh_start s), (''end'', sh_end s)]),
      (''shadowedSeqs'', JArr (sh_seqs s)), (''shadowedTokenCount'', JNum (sh_tokenCount s))]"

definition opt_int_json :: "int option \<Rightarrow> json" where
  "opt_int_json t = (case t of None \<Rightarrow> JNull | Some i \<Rightarrow> int_json i)"

fun data_json :: "event_data \<Rightarrow> json" where
  "data_json (TurnStart t) = JObj [(''turn'', int_json t)]"
| "data_json (TurnEnd t r) = JObj [(''turn'', int_json t), (''reason'', reason_json r)]"
| "data_json (StepStart t s) = JObj [(''turn'', int_json t), (''step'', int_json s)]"
| "data_json (StepEnd t s) = JObj [(''turn'', int_json t), (''step'', int_json s)]"
| "data_json (UserMessage m) = message_json m"
| "data_json (AssistantChunk t s c) = JObj [(''turn'', int_json t), (''step'', int_json s), (''chunk'', c)]"
| "data_json (AssistantMessage t s m u i) =
     JObj ([(''turn'', int_json t), (''step'', int_json s), (''message'', message_json m)]
       @ opt_field ''usage'' u @ flag_field ''interrupted'' i)"
| "data_json (ToolCall t s c n a) =
     JObj [(''turn'', int_json t), (''step'', int_json s), (''callId'', JStr c), (''name'', JStr n),
           (''arguments'', JStr a)]"
| "data_json (ToolResult r) =
     JObj ([(''turn'', int_json (tr_turn r)), (''step'', int_json (tr_step r)),
            (''message'', message_json (tr_message r))]
       @ opt_field ''error'' (map_option (\<lambda>(n, c). JObj [(''name'', JStr n), (''code'', JStr c)]) (tr_error r))
       @ opt_field ''meta'' (tr_meta r))"
| "data_json (RequestHeader h r b) =
     JObj ([(''header'', header_json h), (''reason'', JStr r)] @ flag_field ''startsSeries'' b)"
| "data_json (RequestContext c) =
     JObj ([(''provider'', JStr (rc_provider c)), (''model'', JStr (rc_model c))]
       @ opt_field ''contextWindow'' (map_option JNum (rc_contextWindow c)))"
| "data_json EndSeed = JObj []"
| "data_json (InboxSpliced p) =
     JObj ([(''target'', target_json (sp_target p)), (''start'', int_json (sp_start p))]
       @ opt_field ''removedCount'' (map_option int_json (sp_removedCount p))
       @ [(''inserted'', JArr (map message_json (sp_inserted p)))]
       @ (if sp_canceled p then [(''outcome'', JStr ''canceled'')] else []))"
| "data_json (CompactionStart c q t) =
     JObj ([(''compactionId'', c)] @ opt_field ''sourceCommandId'' q @ [(''turn'', opt_int_json t)])"
| "data_json (CompactionSummary c q s fs) =
     JObj ([(''compactionId'', c)] @ opt_field ''sourceCommandId'' q @ shadow_fields s @ fs)"
| "data_json (CompactionEnd c q t e) =
     JObj ([(''compactionId'', c)] @ opt_field ''sourceCommandId'' q @ [(''turn'', opt_int_json t)]
       @ opt_field ''error'' (map_option JStr e))"
| "data_json (CompactionPrune s) = JObj (shadow_fields s)"
| "data_json (GoalChange j) = j"
| "data_json (ScheduleChange j) = j"
| "data_json (OtherEvent _ j) = j"

definition event_json :: "session_event \<Rightarrow> json" where
  "event_json e =
     JObj ([(''type'', JStr (event_type (ev_data e))), (''seq'', num (ev_seq e)),
            (''time'', int_json (ev_time e)), (''data'', data_json (ev_data e))]
       @ opt_field ''sourceEventSeqs'' (ev_sources e) @ opt_field ''surfaceOp'' (ev_surfaceOp e)
       @ flag_field ''ignorable'' (ev_ignorable e))"

lemma jget_event [simp]:
  "jget (event_json e) ''type'' = Some (JStr (event_type (ev_data e)))"
  "jget (event_json e) ''seq'' = Some (num (ev_seq e))"
  "jget (event_json e) ''time'' = Some (int_json (ev_time e))"
  "jget (event_json e) ''data'' = Some (data_json (ev_data e))"
  "jget (event_json e) ''ignorable'' = (if ev_ignorable e then Some (JBool True) else None)"
  by (simp_all add: event_json_def map_add_def opt_field_def flag_field_def split: option.splits)

lemma str_of_type [simp]: "str_of (event_json e) ''type'' = Some (event_type (ev_data e))"
  by (simp add: str_of_def)

lemma event_json_keys: "list_ex (\<lambda>k. k \<notin> set envelope_keys) (object_keys (event_json e)) = False"
  by (auto simp: event_json_def envelope_keys_def opt_field_def flag_field_def split: option.splits)

text \<open>
  The typed events the raw validators accept. A message needs an identity and a source kind; the
  roles, the model source and the tool-result block are those of its event type.
\<close>

definition identified :: "message \<Rightarrow> role \<Rightarrow> bool" where
  "identified m r \<longleftrightarrow> msg_id m \<noteq> [] \<and> msg_role m = r \<and> nonempty_str (source_json (msg_source m)) ''kind''"

definition loggable_config :: "epoch_header \<Rightarrow> bool" where
  "loggable_config h \<longleftrightarrow>
     cc_provider (eh_config h) \<noteq> [] \<and> cc_model (eh_config h) \<noteq> []
     \<and> cc_reasoningEffort (eh_config h) \<noteq> Some []
     \<and> (case eh_adapterDefaults h of None \<Rightarrow> True
        | Some a \<Rightarrow> (ad_reasoningEffort a \<longrightarrow> cc_reasoningEffort (eh_config h) \<noteq> None)
            \<and> (ad_maxTokens a \<longrightarrow> cc_maxTokens (eh_config h) \<noteq> None))"

fun shape_ok :: "event_data \<Rightarrow> bool" where
  "shape_ok (UserMessage m) = identified m User"
| "shape_ok (AssistantMessage _ _ m _ _) =
     (identified m Assistant \<and> str_of (source_json (msg_source m)) ''kind'' = Some ''model''
      \<and> hasProviderModel (source_json (msg_source m)))"
| "shape_ok (ToolResult r) =
     (identified (tr_message r) User
      \<and> (\<exists>c inner err. str_of (source_json (msg_source (tr_message r))) ''kind'' = Some ''tool''
           \<and> str_of (source_json (msg_source (tr_message r))) ''callId'' = Some c \<and> c \<noteq> []
           \<and> msg_content (tr_message r) = [ToolResultBlock c inner err]))"
| "shape_ok (RequestHeader h r _) = (loggable_config h \<and> r \<noteq> ''fallback'')"
| "shape_ok (OtherEvent t j) = (t \<notin> {''request/header-delta'', ''request/header'', ''user/message'',
     ''assistant/message'', ''tool/result''})"
| "shape_ok _ = True"

definition envelope_ok :: "session_event \<Rightarrow> bool" where
  "envelope_ok e \<longleftrightarrow> int (ev_seq e) \<le> MAX_SAFE_INTEGER \<and> \<bar>ev_time e\<bar> \<le> MAX_SAFE_INTEGER"

lemma jget_message [simp]:
  "jget (message_json m) ''id'' = Some (JStr (msg_id m))"
  "jget (message_json m) ''role'' = Some (role_json (msg_role m))"
  "jget (message_json m) ''content'' = Some (JArr (map block_json (msg_content m)))"
  "jget (message_json m) ''source'' = Some (source_json (msg_source m))"
  "isRecord (message_json m)"
  by (simp_all add: message_json_def)

lemma isRecord_source [simp]: "isRecord (source_json s)"
  by (cases s) auto

lemma role_json_eq: "(str_of (message_json m) ''role'' = Some ''user'') = (msg_role m = User)"
  "(str_of (message_json m) ''role'' = Some ''assistant'') = (msg_role m = Assistant)"
  by (cases "msg_role m"; simp add: str_of_def)+

lemma nonempty_id: "nonempty_str (message_json m) ''id'' = (msg_id m \<noteq> [])"
  by (simp add: nonempty_str_def str_of_def)

lemma block_result_json:
  "isRecord (block_json b) \<and> str_of (block_json b) ''type'' = Some ''tool-result''
     \<longleftrightarrow> (\<exists>c inner err. b = ToolResultBlock c inner err)"
  by (cases b) (auto simp: str_of_def)

lemma result_block_json [simp]:
  "jget (block_json (ToolResultBlock c inner err)) ''content'' = Some (JArr (map block_json inner))"
  "jget (block_json (ToolResultBlock c inner err)) ''toolCallId'' = Some (JStr c)"
  by (simp_all split: option.splits)

lemma jget_config [simp]:
  "jget (config_json c) ''provider'' = Some (JStr (cc_provider c))"
  "jget (config_json c) ''model'' = Some (JStr (cc_model c))"
  "jget (config_json c) ''reasoningEffort'' = map_option JStr (cc_reasoningEffort c)"
  "jget (config_json c) ''maxTokens'' = map_option JNum (cc_maxTokens c)"
  "isRecord (config_json c)"
  by (auto simp: config_json_def map_add_def opt_field_def split: option.splits)

lemma jget_header [simp]:
  "jget (header_json h) ''config'' = Some (config_json (eh_config h))"
  "jget (header_json h) ''adapterDefaults'' = map_option (\<lambda>a. JObj
     (flag_field ''reasoningEffort'' (ad_reasoningEffort a) @ flag_field ''maxTokens'' (ad_maxTokens a)))
     (eh_adapterDefaults h)"
  "isPlainRecord (header_json h)"
  by (auto simp: header_json_def map_add_def opt_field_def isPlainRecord_def split: option.splits)

lemma config_provider_model:
  "hasProviderModel (config_json c) \<longleftrightarrow> cc_provider c \<noteq> [] \<and> cc_model c \<noteq> []"
  by (simp add: hasProviderModel_def nonempty_str_def str_of_def)

lemma adapter_defaults_ok:
  "assertAdapterDefaults (Some (JObj
     (flag_field ''reasoningEffort'' r @ flag_field ''maxTokens'' t))) (config_json c) = Inr ()
   \<longleftrightarrow> (r \<longrightarrow> cc_reasoningEffort c \<noteq> None) \<and> (t \<longrightarrow> cc_maxTokens c \<noteq> None)"
  by (auto simp: assertAdapterDefaults_def flag_field_def allowedAdapterKeys_def)

lemma header_shape_ok:
  assumes "ev_data e = RequestHeader h r b"
  shows "assertHeaderShape (event_json e) = Inr () \<longleftrightarrow> loggable_config h"
proof -
  have d: "jget (data_json (ev_data e)) ''header'' = Some (header_json h)"
    by (simp add: assms)
  show ?thesis
    using adapter_defaults_ok [of "ad_reasoningEffort (the (eh_adapterDefaults h))"
        "ad_maxTokens (the (eh_adapterDefaults h))" "eh_config h"]
    by (cases "eh_adapterDefaults h"; cases "cc_reasoningEffort (eh_config h)")
      (auto simp: assertHeaderShape_def d Let_def config_provider_model loggable_config_def
        assertAdapterDefaults_def)
qed

lemma kind_nonempty: "nonempty_str v ''kind'' \<longleftrightarrow> (\<exists>k. str_of v ''kind'' = Some k \<and> k \<noteq> [])"
  by (auto simp: nonempty_str_def split: option.splits)

lemma result_shape_ok:
  "assertResultBlock source (map block_json content) = Inr () \<longleftrightarrow>
     str_of source ''kind'' = Some ''tool''
     \<and> (\<exists>c inner err. str_of source ''callId'' = Some c \<and> c \<noteq> [] \<and> content = [ToolResultBlock c inner err])"
proof (cases content)
  case Nil
  then show ?thesis by (auto simp: assertResultBlock_def)
next
  case (Cons b bs)
  show ?thesis
  proof (cases "bs = [] \<and> (\<exists>c inner err. b = ToolResultBlock c inner err)")
    case True
    then obtain c inner err where b: "b = ToolResultBlock c inner err" "bs = []" by blast
    have "str_of (block_json b) ''type'' = Some ''tool-result''" "isRecord (block_json b)"
      using block_result_json [of b] b by auto
    then show ?thesis
      using Cons b
      by (auto simp: assertResultBlock_def isArray_def nonempty_str_def str_of_def
          simp del: block_json.simps split: option.splits json.splits)
  next
    case False
    with Cons block_result_json [of b] show ?thesis
      by (auto simp: assertResultBlock_def split: list.splits)
  qed
qed

lemma message_shape_ok:
  assumes "event_type (ev_data e) \<in> set message_types" "\<And>t j. ev_data e \<noteq> OtherEvent t j"
  shows "assertMessageEventShape (event_json e) = Inr () \<longleftrightarrow> shape_ok (ev_data e)"
proof (cases "ev_data e")
  case (UserMessage m)
  then show ?thesis
    by (auto simp: assertMessageEventShape_def message_types_def identified_def role_json_eq nonempty_id)
next
  case (AssistantMessage t s m u i)
  then show ?thesis
    by (auto simp: assertMessageEventShape_def message_types_def identified_def role_json_eq nonempty_id
        Let_def)
next
  case (ToolResult r)
  then show ?thesis
    by (auto simp: assertMessageEventShape_def message_types_def identified_def role_json_eq nonempty_id
        Let_def result_shape_ok)
qed (use assms in \<open>auto simp: message_types_def\<close>)

lemma supported_header_ok:
  "assertSupportedRequestHeader (event_type d) (data_json d) = Inr () \<longleftrightarrow>
     event_type d \<noteq> ''request/header-delta''
     \<and> (event_type d = ''request/header'' \<longrightarrow> str_of (data_json d) ''reason'' \<noteq> Some ''fallback'')"
  by (auto simp: assertSupportedRequestHeader_def)

lemma envelope_accepts:
  "assertSessionEventEnvelope (event_json e) = Inr () \<longleftrightarrow>
     event_type (ev_data e) \<noteq> ''request/header-delta'' \<and> envelope_ok e
     \<and> (event_type (ev_data e) \<in> set (''request/header'' # message_types) \<longrightarrow>
         assertCurrentLlmShape (event_json e) = Inr ())"
proof -
  define ty where "ty = event_type (ev_data e)"
  have n: "event_json e \<noteq> JNull" by (simp add: event_json_def)
  have t: "str_of (event_json e) ''type'' = Some ty" by (simp add: ty_def)
  have f: "safe_int_field (event_json e) ''time'' = (\<bar>ev_time e\<bar> \<le> MAX_SAFE_INTEGER)"
    by (simp add: safe_int_field_def int_json_def)
  have i: "(case jget (event_json e) ''ignorable'' of None \<Rightarrow> False | Some b \<Rightarrow> b \<noteq> JBool True) = False"
    by simp
  show ?thesis
    unfolding assertSessionEventEnvelope_def t i f event_json_keys ty_def [symmetric]
    by (auto simp add: n envelope_ok_def simp del: list.set)
qed

definition admit_event :: "session_event \<Rightarrow> admission_error + unit" where
  "admit_event e =
     rbind (assertSessionEventEnvelope (event_json e)) (\<lambda>_.
       assertSupportedRequestHeader (event_type (ev_data e)) (data_json (ev_data e)))"

lemma admit_event_iff:
  "admit_event e = Inr () \<longleftrightarrow> assertSessionEventEnvelope (event_json e) = Inr ()
     \<and> assertSupportedRequestHeader (event_type (ev_data e)) (data_json (ev_data e)) = Inr ()"
  by (simp add: admit_event_def rbind_Inr_iff)


definition sample_admitted :: "string \<Rightarrow> session_event" where
  "sample_admitted c =
     \<lparr>ev_seq = 3, ev_time = 0,
      ev_data = ToolResult \<lparr>tr_turn = 1, tr_step = 1,
        tr_message = \<lparr>msg_id = ''r'', msg_role = User,
          msg_content = [ToolResultBlock c [] (Some False)], msg_source = ToolSource ''c''\<rparr>,
        tr_error = None, tr_meta = None\<rparr>,
      ev_ignorable = False, ev_sources = None, ev_surfaceOp = Some append_op\<rparr>"


end
