(* ===== verification/Session_Log.thy ===== *)
theory Session_Log
  imports Session_Admission Request_Header
begin

text \<open>
  The class \<open>Session\<close> of core/session/src/index.ts: the append-only log, its construction from a
  seed in both modes, the append path with every rejection, and the readers with their caches
  (event snapshots, request header, request context, derived messages). The results: a session
  answers every sequence of calls as one that recomputes everything from its log on each call; and
  the log of a session can be restored, which keeps it and marks the end of the seed only once.
\<close>

section \<open>State\<close>

record session =
  se_log :: "session_event list"
  se_surface :: surface_manager
  se_header :: json
  se_inheritedEventCount :: nat
  se_firstLiveSeq :: nat
  se_eventsSnapshot :: "session_event list option"
  se_headerFold :: "epoch_header option"
  se_headerFoldSeq :: nat
  se_contextFold :: "request_context option"
  se_contextFoldSeq :: nat
  se_derived :: "message list"
  se_derivedNodes :: nat
  se_derivedGeneration :: nat

datatype session_error =
    SeedNotLossless nat | SeedRejected nat admission_error | SeedNotContiguous nat
  | SeedSurface nat surface_error
  | BadHeader header_error | SeededWithoutSeed | SeededWithoutCount | UnseededWithCount | CountExceedsLog
  | DataNotLossless | UnsupportedHeader admission_error | MetadataNotLossless | Reentered
  | SurfaceRejected surface_error | DispatchThrew

section \<open>Append\<close>

definition metadata_json :: "json option \<Rightarrow> json option \<Rightarrow> json" where
  "metadata_json srcs op = JObj (opt_field ''sourceEventSeqs'' srcs @ opt_field ''surfaceOp'' op)"

definition candidate :: "session_event list \<Rightarrow> int \<Rightarrow> event_data \<Rightarrow> json option \<Rightarrow> json option \<Rightarrow> session_event" where
  "candidate log now d srcs op =
     \<lparr>ev_seq = length log, ev_time = now, ev_data = d, ev_ignorable = False,
      ev_sources = srcs, ev_surfaceOp = op\<rparr>"

text \<open>
  \<open>append\<close>. Whether the store is publishing another append, and whether the internal dispatch of
  the candidate lets it through, are inputs; a detached session is \<open>append_event False (\<lambda>_. True)\<close>.
\<close>

definition append_event ::
  "bool \<Rightarrow> (session_event \<Rightarrow> bool) \<Rightarrow> int \<Rightarrow> event_data \<Rightarrow> json option \<Rightarrow> json option \<Rightarrow> session \<Rightarrow>
   session \<times> (session_error + session_event)" where
  "append_event appending accepts now d srcs op se =
     (case snapshotJsonValue (data_json d) of
        None \<Rightarrow> (se, Inl DataNotLossless)
      | Some dataSnapshot \<Rightarrow>
     (case assertSupportedRequestHeader (event_type d) dataSnapshot of
        Inl err \<Rightarrow> (se, Inl (UnsupportedHeader err))
      | Inr _ \<Rightarrow>
          if snapshotJsonValue (metadata_json srcs op) = None then (se, Inl MetadataNotLossless)
          else if appending then (se, Inl Reentered)
          else
            let e = candidate (se_log se) now d srcs op in
            (case validateNext 0 (se_log se) e (se_surface se) of
               (m, Some err) \<Rightarrow> (se\<lparr>se_surface := m\<rparr>, Inl (SurfaceRejected err))
             | (m, None) \<Rightarrow>
                 if \<not> accepts e then (se\<lparr>se_surface := m\<rparr>, Inl DispatchThrew)
                 else (se\<lparr>se_log := se_log se @ [e], se_surface := m, se_eventsSnapshot := None\<rparr>, Inr e))))"

section \<open>Construction\<close>

definition seed_step ::
  "bool \<Rightarrow> session_event list \<times> surface_manager \<Rightarrow> session_event \<Rightarrow>
   session_error + session_event list \<times> surface_manager" where
  "seed_step restore st e =
     (let (log, m) = st; index = length log in
      if \<not> restore \<and> snapshotJsonValue (event_json e) = None then Inl (SeedNotLossless index)
      else case assertSessionEventEnvelope (event_json e) of
        Inl err \<Rightarrow> Inl (SeedRejected index err)
      | Inr _ \<Rightarrow>
          (case assertSupportedRequestHeader (event_type (ev_data e)) (data_json (ev_data e)) of
             Inl err \<Rightarrow> Inl (SeedRejected index err)
           | Inr _ \<Rightarrow>
               if ev_seq e \<noteq> index then Inl (SeedNotContiguous index)
               else (case validateNext 0 log e m of
                       (m', Some err) \<Rightarrow> Inl (SeedSurface index err)
                     | (m', None) \<Rightarrow> Inr (log @ [e], m'))))"

definition fresh_session :: "session_event list \<Rightarrow> surface_manager \<Rightarrow> json \<Rightarrow> nat \<Rightarrow> session" where
  "fresh_session log m header inherited =
     \<lparr>se_log = log, se_surface = m, se_header = header, se_inheritedEventCount = inherited,
      se_firstLiveSeq = length log, se_eventsSnapshot = None, se_headerFold = None, se_headerFoldSeq = 0,
      se_contextFold = None, se_contextFoldSeq = 0, se_derived = [], se_derivedNodes = 0,
      se_derivedGeneration = 0\<rparr>"

definition ends_seed :: "session_event list \<Rightarrow> bool" where
  "ends_seed log = (case last_of log of Some e \<Rightarrow> event_type (ev_data e) = ''session/end-seed'' | None \<Rightarrow> False)"

definition mark_end_seed :: "bool \<Rightarrow> int \<Rightarrow> session \<Rightarrow> session_error + session" where
  "mark_end_seed seeded now se =
     (if seeded \<and> \<not> ends_seed (se_log se)
      then (case append_event False (\<lambda>_. True) now EndSeed None None se of
              (_, Inl err) \<Rightarrow> Inl err
            | (se', Inr _) \<Rightarrow> Inr se')
      else Inr se)"

definition check_lineage :: "json \<Rightarrow> bool \<Rightarrow> nat option \<Rightarrow> nat \<Rightarrow> session_error + nat" where
  "check_lineage header seeded supplied len =
     (if header_isSeeded header \<and> \<not> seeded then Inl SeededWithoutSeed
      else if header_isSeeded header \<and> supplied = None then Inl SeededWithoutCount
      else
        let inherited = (case supplied of None \<Rightarrow> 0 | Some n \<Rightarrow> n) in
        if \<not> header_isSeeded header \<and> inherited \<noteq> 0 then Inl UnseededWithCount
        else if len < inherited then Inl CountExceedsLog
        else Inr inherited)"

definition header_result :: "header_error + json \<Rightarrow> session_error + json" where
  "header_result r = (case r of Inl err \<Rightarrow> Inl (BadHeader err) | Inr h \<Rightarrow> Inr h)"

text \<open>The constructor; \<open>restore\<close> is the mode. A restored header is checked before the seed.\<close>

definition construct ::
  "bool \<Rightarrow> string \<Rightarrow> session_event list option \<Rightarrow> json option \<Rightarrow> nat option \<Rightarrow> int \<Rightarrow>
   session_error + session" where
  "construct restore sid seed header supplied now =
     rbind (if restore
            then (case header of
                    None \<Rightarrow> Inl (BadHeader HeaderNotRecord)
                  | Some h \<Rightarrow> rbind (header_result (validateRestoredSessionHeader sid h)) (\<lambda>h'. Inr (Some h')))
            else Inr None) (\<lambda>restoredHeader.
     rbind (run (seed_step restore) ([], new_surface_manager 0) (case seed of None \<Rightarrow> [] | Some s \<Rightarrow> s)) (\<lambda>(log, m).
     rbind (case restoredHeader of
              Some h \<Rightarrow> Inr h
            | None \<Rightarrow> header_result (snapshotSessionHeader sid header now)) (\<lambda>h.
     rbind (check_lineage h (seed \<noteq> None) supplied (length log)) (\<lambda>inherited.
       mark_end_seed (seed \<noteq> None) now (fresh_session log m h inherited)))))"

definition session_create ::
  "string \<Rightarrow> session_event list option \<Rightarrow> json option \<Rightarrow> nat option \<Rightarrow> int \<Rightarrow> session_error + session" where
  "session_create = construct False"

definition session_fromRestore ::
  "string \<Rightarrow> session_event list \<Rightarrow> json \<Rightarrow> nat \<Rightarrow> int \<Rightarrow> session_error + session" where
  "session_fromRestore sid seed header inherited now = construct True sid (Some seed) (Some header) (Some inherited) now"

section \<open>Readers\<close>

definition eventAt :: "session \<Rightarrow> nat \<Rightarrow> session_event option" where
  "eventAt se s = (if s < length (se_log se) then Some (se_log se ! s) else None)"

definition snapshotEvents :: "nat \<Rightarrow> nat \<Rightarrow> session \<Rightarrow> session \<times> session_event list" where
  "snapshotEvents fromSeq toSeq se =
     (if fromSeq = 0 \<and> toSeq = length (se_log se) then
        (case se_eventsSnapshot se of
           Some evs \<Rightarrow> (se, evs)
         | None \<Rightarrow> (se\<lparr>se_eventsSnapshot := Some (se_log se)\<rparr>, se_log se))
      else (se, slice fromSeq toSeq (se_log se)))"

definition ownEvents :: "session \<Rightarrow> session \<times> session_event list" where
  "ownEvents se = snapshotEvents (se_inheritedEventCount se) (length (se_log se)) se"

definition isOwnSeq :: "session \<Rightarrow> nat \<Rightarrow> bool" where
  "isOwnSeq se s \<longleftrightarrow> se_inheritedEventCount se \<le> s \<and> s < length (se_log se)"

definition requestHeader :: "session \<Rightarrow> session \<times> epoch_header option" where
  "requestHeader se =
     (if se_headerFoldSeq se < length (se_log se) then
        (let fold' = foldRequestHeader (drop (se_headerFoldSeq se) (se_log se)) (se_headerFold se) in
         (se\<lparr>se_headerFold := fold', se_headerFoldSeq := length (se_log se)\<rparr>, fold'))
      else (se, se_headerFold se))"

definition context_step :: "request_context option \<Rightarrow> session_event \<Rightarrow> request_context option" where
  "context_step st e = (case ev_data e of RequestContext c \<Rightarrow> Some c | _ \<Rightarrow> st)"

definition requestContext :: "session \<Rightarrow> session \<times> request_context option" where
  "requestContext se =
     (if se_contextFoldSeq se < length (se_log se) then
        (let fold' = foldl context_step (se_contextFold se) (drop (se_contextFoldSeq se) (se_log se)) in
         (se\<lparr>se_contextFold := fold', se_contextFoldSeq := length (se_log se)\<rparr>, fold'))
      else (se, se_contextFold se))"

definition project :: "session_event list \<Rightarrow> nat list \<Rightarrow> message list" where
  "project log nodes = List.map_filter (\<lambda>s. deriveEventMessage (log ! s)) nodes"

definition deriveMessages :: "session \<Rightarrow> session \<times> (surface_error + message list)" where
  "deriveMessages se =
     (case surface_nodes 0 (se_log se) (se_surface se) of
        (m, Inl err) \<Rightarrow> (se\<lparr>se_surface := m\<rparr>, Inl err)
      | (m, Inr nodes) \<Rightarrow>
          (case surface_generation 0 (se_log se) m of
             (m', Inl err) \<Rightarrow> (se\<lparr>se_surface := m'\<rparr>, Inl err)
           | (m', Inr generation) \<Rightarrow>
               let fresh = (generation \<noteq> se_derivedGeneration se);
                   derived = (if fresh then [] else se_derived se);
                   done = (if fresh then 0 else se_derivedNodes se);
                   derived' = derived @ project (se_log se) (drop done nodes)
               in (se\<lparr>se_surface := m', se_derived := derived', se_derivedNodes := length nodes,
                      se_derivedGeneration := generation\<rparr>, Inr derived')))"

section \<open>A client of a session, and the log it should see\<close>

datatype session_call =
    AppendCall bool "session_event \<Rightarrow> bool" int event_data "json option" "json option"
  | ReadEvents nat nat
  | ReadOwn
  | ReadHeader
  | ReadContext
  | ReadMessages

datatype session_answer =
    Appended session_event
  | Refused session_error
  | Events "session_event list"
  | TheHeader "epoch_header option"
  | TheContext "request_context option"
  | Messages "message list"
  | ReadFailed surface_error

definition append_answer :: "session_error + session_event \<Rightarrow> session_answer" where
  "append_answer r = (case r of Inl err \<Rightarrow> Refused err | Inr e \<Rightarrow> Appended e)"

definition messages_answer :: "surface_error + message list \<Rightarrow> session_answer" where
  "messages_answer r = (case r of Inl err \<Rightarrow> ReadFailed err | Inr ms \<Rightarrow> Messages ms)"

fun session_serve :: "session \<Rightarrow> session_call \<Rightarrow> session \<times> session_answer" where
  "session_serve se (AppendCall appending accepts now d srcs op) =
     (let (se', r) = append_event appending accepts now d srcs op se in (se', append_answer r))"
| "session_serve se (ReadEvents i j) = (let (se', evs) = snapshotEvents i j se in (se', Events evs))"
| "session_serve se ReadOwn = (let (se', evs) = ownEvents se in (se', Events evs))"
| "session_serve se ReadHeader = (let (se', h) = requestHeader se in (se', TheHeader h))"
| "session_serve se ReadContext = (let (se', c) = requestContext se in (se', TheContext c))"
| "session_serve se ReadMessages = (let (se', r) = deriveMessages se in (se', messages_answer r))"

text \<open>The specification: only the log is state, and every answer is computed from all of it.\<close>

definition log_append ::
  "bool \<Rightarrow> (session_event \<Rightarrow> bool) \<Rightarrow> int \<Rightarrow> event_data \<Rightarrow> json option \<Rightarrow> json option \<Rightarrow>
   session_event list \<Rightarrow> session_error + session_event" where
  "log_append appending accepts now d srcs op log =
     (let e = candidate log now d srcs op in
      if \<not> isJsonValue (data_json d) then Inl DataNotLossless
      else case assertSupportedRequestHeader (event_type d) (data_json d) of
        Inl err \<Rightarrow> Inl (UnsupportedHeader err)
      | Inr _ \<Rightarrow>
          if \<not> isJsonValue (metadata_json srcs op) then Inl MetadataNotLossless
          else if appending then Inl Reentered
          else (case foldSurface (log @ [e]) of
                  Inl err \<Rightarrow> Inl (SurfaceRejected err)
                | Inr _ \<Rightarrow> if accepts e then Inr e else Inl DispatchThrew))"

definition log_messages :: "session_event list \<Rightarrow> surface_error + message list" where
  "log_messages log = rbind (foldSurface log) (\<lambda>(nodes, _). Inr (project log nodes))"

fun log_call :: "nat \<Rightarrow> session_event list \<Rightarrow> session_call \<Rightarrow> session_event list \<times> session_answer" where
  "log_call inherited log (AppendCall appending accepts now d srcs op) =
     (let r = log_append appending accepts now d srcs op log in
      (case r of Inl _ \<Rightarrow> log | Inr e \<Rightarrow> log @ [e], append_answer r))"
| "log_call inherited log (ReadEvents i j) = (log, Events (slice i j log))"
| "log_call inherited log ReadOwn = (log, Events (drop inherited log))"
| "log_call inherited log ReadHeader = (log, TheHeader (foldRequestHeader log None))"
| "log_call inherited log ReadContext = (log, TheContext (foldl context_step None log))"
| "log_call inherited log ReadMessages = (log, messages_answer (log_messages log))"

section \<open>The caches agree with the log\<close>

definition derived_ok :: "session_event list \<Rightarrow> session \<Rightarrow> bool" where
  "derived_ok log se \<longleftrightarrow>
     (\<exists>j st. j \<le> length log \<and> folded (take j log) st
        \<and> se_derivedGeneration se = fs_replaceGeneration st
        \<and> se_derivedNodes se = length (fs_nodes st)
        \<and> se_derived se = project log (fs_nodes st))"

definition caches_ok :: "session_event list \<Rightarrow> session \<Rightarrow> bool" where
  "caches_ok log se \<longleftrightarrow>
     (se_eventsSnapshot se = None \<or> se_eventsSnapshot se = Some log)
     \<and> se_headerFoldSeq se \<le> length log
     \<and> se_headerFold se = foldRequestHeader (take (se_headerFoldSeq se) log) None
     \<and> se_contextFoldSeq se \<le> length log
     \<and> se_contextFold se = foldl context_step None (take (se_contextFoldSeq se) log)"

definition session_rel :: "nat \<Rightarrow> session \<Rightarrow> session_event list \<Rightarrow> bool" where
  "session_rel inherited se log \<longleftrightarrow>
     se_log se = log \<and> se_inheritedEventCount se = inherited
     \<and> (\<exists>k. manager_at k log (se_surface se)) \<and> returns (foldSurface log)
     \<and> caches_ok log se \<and> derived_ok log se"

lemma folded_of_fold:
  assumes "foldSurface log = Inr (nodes, reps)"
  obtains st where "folded log st" "fs_nodes st = nodes" "fs_replaceGeneration st = length reps"
proof -
  from assms obtain st where "surface_inv log (st, reps, length log)" "nodes = fs_nodes st"
    "hrun fold_step [] surface_start log = Inr (st, reps, length log)"
    by (rule foldSurface_inv)
  with that show thesis by (auto simp: folded_def surface_inv_def)
qed

text \<open>Without a replacement in between, a later surface only extends an earlier one.\<close>

lemma fold_step_grows:
  assumes "fold_step xs (st, reps, i) y = Inr (st', reps', i')"
  shows "fs_replaceGeneration st \<le> fs_replaceGeneration st'
    \<and> (fs_replaceGeneration st' = fs_replaceGeneration st \<longrightarrow> (\<exists>zs. fs_nodes st' = fs_nodes st @ zs))"
proof -
  from assms obtain plan where "planSurfaceEvent st y i xs 0 = Inr plan"
    "st' = fst (applySurfacePlan st plan)"
    by (auto simp: fold_step_eq rbind_Inr_iff)
  then show ?thesis by (cases rule: plan_elim) auto
qed

lemma hrun_grows:
  "hrun fold_step xs (st, reps, i) ys = Inr (st', reps', i') \<Longrightarrow>
   fs_replaceGeneration st \<le> fs_replaceGeneration st'
   \<and> (fs_replaceGeneration st' = fs_replaceGeneration st \<longrightarrow> (\<exists>zs. fs_nodes st' = fs_nodes st @ zs))"
proof (induction ys arbitrary: xs st reps i)
  case Nil
  then show ?case by simp
next
  case (Cons y ys)
  then obtain s r j where f: "fold_step xs (st, reps, i) y = Inr (s, r, j)"
    and h: "hrun fold_step (xs @ [y]) (s, r, j) ys = Inr (st', reps', i')"
    by (auto simp: rbind_Inr_iff)
  from fold_step_grows [OF f] Cons.IH [OF h] show ?case by fastforce
qed

lemma folded_extends:
  assumes "folded (take j log) st" "folded log st'"
    "fs_replaceGeneration st' = fs_replaceGeneration st"
  obtains zs where "fs_nodes st' = fs_nodes st @ zs"
proof -
  from assms(1,2) obtain reps reps' where
    h: "hrun fold_step [] surface_start (take j log) = Inr (st, reps, length (take j log))"
    and h': "hrun fold_step [] surface_start (take j log @ drop j log) = Inr (st', reps', length log)"
    by (auto simp: folded_def)
  from h h' have "hrun fold_step (take j log) (st, reps, length (take j log)) (drop j log)
      = Inr (st', reps', length log)"
    unfolding hrun_append by simp
  from hrun_grows [OF this] assms(3) that show thesis by auto
qed

lemma project_append: "project log (ms @ ns) = project log ms @ project log ns"
  by (simp add: project_def List.map_filter_def)

lemma project_snoc: "\<forall>n \<in> set nodes. n < length log \<Longrightarrow> project (log @ [e]) nodes = project log nodes"
  by (induction nodes) (auto simp: project_def List.map_filter_simps nth_append split: option.splits)

lemma caches_snoc:
  assumes "caches_ok log se"
  shows "caches_ok (log @ [e]) (se\<lparr>se_log := l, se_surface := m, se_eventsSnapshot := None\<rparr>)"
  using assms by (auto simp: caches_ok_def)

lemma derived_snoc:
  assumes "derived_ok log se"
  shows "derived_ok (log @ [e]) (se\<lparr>se_log := l, se_surface := m, se_eventsSnapshot := None\<rparr>)"
proof -
  from assms obtain j st where j: "j \<le> length log" "folded (take j log) st"
    "se_derivedGeneration se = fs_replaceGeneration st" "se_derivedNodes se = length (fs_nodes st)"
    "se_derived se = project log (fs_nodes st)"
    by (auto simp: derived_ok_def)
  have "\<forall>n \<in> set (fs_nodes st). n < length log"
    using folded_bound [OF j(2)] by auto
  then have "project (log @ [e]) (fs_nodes st) = project log (fs_nodes st)" by (rule project_snoc)
  with j show ?thesis
    unfolding derived_ok_def by (intro exI [of _ j] exI [of _ st]) simp
qed

lemma append_related:
  assumes rel: "session_rel inherited se log"
  shows "append_answer (snd (append_event appending accepts now d srcs op se)) =
      append_answer (log_append appending accepts now d srcs op log)
    \<and> session_rel inherited (fst (append_event appending accepts now d srcs op se))
        (case log_append appending accepts now d srcs op log of Inl _ \<Rightarrow> log | Inr e \<Rightarrow> log @ [e])"
proof -
  from rel obtain k where l: "se_log se = log" and k: "manager_at k log (se_surface se)"
    and i: "se_inheritedEventCount se = inherited"
    and ret: "returns (foldSurface log)" and c: "caches_ok log se" and d: "derived_ok log se"
    by (auto simp: session_rel_def)
  let ?e = "candidate log now d srcs op"
  from validate_at [OF k, of ?e] obtain j m r where v: "validateNext 0 log ?e (se_surface se) = (m, r)"
    and m: "manager_at j log m"
    and r: "accept_of r = answer_of (\<lambda>_. Accepted) (foldSurface (log @ [?e]))"
      "(r = None) = returns (foldSurface (log @ [?e]))"
    by auto
  have keep: "session_rel inherited (se\<lparr>se_surface := m\<rparr>) log"
    using l m i ret c d by (auto simp: session_rel_def caches_ok_def derived_ok_def)
  have grow: "session_rel inherited
      (se\<lparr>se_log := log @ [?e], se_surface := m, se_eventsSnapshot := None\<rparr>) (log @ [?e])"
    if "returns (foldSurface (log @ [?e]))"
    using that i manager_at_snoc [OF m] caches_snoc [OF c] derived_snoc [OF d]
    unfolding session_rel_def by auto
  show ?thesis
  proof (cases r)
    case None
    with r(2) obtain x where x: "foldSurface (log @ [?e]) = Inr x" by (auto simp: returns_iff)
    show ?thesis
      using l v None x keep grow rel
      by (auto simp: append_event_def log_append_def Let_def snapshotJsonValue_def append_answer_def
          split: sum.splits if_splits)
  next
    case (Some err)
    with r have x: "foldSurface (log @ [?e]) = Inl err"
      by (cases "foldSurface (log @ [?e])") (auto simp: accept_of_def answer_of_def)
    show ?thesis
      using l v Some x keep rel
      by (auto simp: append_event_def log_append_def Let_def snapshotJsonValue_def append_answer_def
          split: sum.splits if_splits)
  qed
qed

lemma messages_related:
  assumes rel: "session_rel inherited se log"
  shows "snd (deriveMessages se) = log_messages log \<and> session_rel inherited (fst (deriveMessages se)) log"
proof -
  from rel obtain k where l: "se_log se = log" and k: "manager_at k log (se_surface se)"
    and i: "se_inheritedEventCount se = inherited"
    and ret: "returns (foldSurface log)" and c: "caches_ok log se" and d: "derived_ok log se"
    by (auto simp: session_rel_def)
  from ret obtain nodes reps where fold: "foldSurface log = Inr (nodes, reps)"
    by (auto simp: returns_iff)
  then obtain st where st: "folded log st" "fs_nodes st = nodes" by (rule folded_of_fold)
  then have h: "\<exists>reps'. hrun fold_step [] surface_start log = Inr (st, reps', length log)"
    by (simp add: folded_def)
  from read_at [OF k, of fs_nodes] h st obtain k' m where
    m: "surface_nodes 0 log (se_surface se) = (m, Inr nodes)" "manager_at k' log m"
    by (auto simp: surface_nodes_def)
  from read_at [OF m(2), of fs_replaceGeneration] h obtain k'' m' where
    m': "surface_generation 0 log m = (m', Inr (fs_replaceGeneration st))" "manager_at k'' log m'"
    by (auto simp: surface_generation_def)
  let ?fresh = "fs_replaceGeneration st \<noteq> se_derivedGeneration se"
  have all: "(if ?fresh then [] else se_derived se)
      @ project log (drop (if ?fresh then 0 else se_derivedNodes se) nodes) = project log nodes"
  proof (cases ?fresh)
    case False
    from d obtain j st0 where j: "folded (take j log) st0"
      "se_derivedGeneration se = fs_replaceGeneration st0" "se_derivedNodes se = length (fs_nodes st0)"
      "se_derived se = project log (fs_nodes st0)"
      by (auto simp: derived_ok_def)
    from folded_extends [OF j(1) st(1)] j(2) False obtain zs where "nodes = fs_nodes st0 @ zs"
      using st(2) by auto
    with False j show ?thesis by (simp add: project_append)
  qed simp
  have der: "deriveMessages se = (se\<lparr>se_surface := m', se_derived := project log nodes,
      se_derivedNodes := length nodes, se_derivedGeneration := fs_replaceGeneration st\<rparr>,
      Inr (project log nodes))"
    using all by (simp add: deriveMessages_def l m(1) m'(1) Let_def)
  have "derived_ok log (fst (deriveMessages se))"
    unfolding derived_ok_def der using st by (intro exI [of _ "length log"] exI [of _ st]) simp
  then show ?thesis
    using l i ret c m'(2) fold unfolding der
    by (auto simp: session_rel_def log_messages_def caches_ok_def)
qed

lemma caches_read:
  assumes "session_rel inherited se log"
  shows "foldRequestHeader (drop (se_headerFoldSeq se) log) (se_headerFold se) = foldRequestHeader log None"
    "foldl context_step (se_contextFold se) (drop (se_contextFoldSeq se) log) = foldl context_step None log"
    "se_log se = log"
proof -
  from assms have c: "caches_ok log se" by (simp add: session_rel_def)
  then show "foldRequestHeader (drop (se_headerFoldSeq se) log) (se_headerFold se) = foldRequestHeader log None"
    unfolding caches_ok_def by (metis foldRequestHeader_append append_take_drop_id)
  from c show "foldl context_step (se_contextFold se) (drop (se_contextFoldSeq se) log)
      = foldl context_step None log"
    unfolding caches_ok_def by (metis foldl_append append_take_drop_id)
  from assms show "se_log se = log" by (simp add: session_rel_def)
qed

lemma header_related:
  assumes rel: "session_rel inherited se log"
  shows "snd (requestHeader se) = foldRequestHeader log None \<and> session_rel inherited (fst (requestHeader se)) log"
proof (cases "se_headerFoldSeq se < length log")
  case True
  then have r: "requestHeader se = (se\<lparr>se_headerFold := foldRequestHeader log None,
      se_headerFoldSeq := length log\<rparr>, foldRequestHeader log None)"
    using caches_read [OF rel] by (simp add: requestHeader_def Let_def)
  from rel show ?thesis unfolding r by (simp add: session_rel_def caches_ok_def derived_ok_def)
next
  case False
  then have r: "requestHeader se = (se, se_headerFold se)" "drop (se_headerFoldSeq se) log = []"
    using caches_read [OF rel] by (simp_all add: requestHeader_def)
  from rel caches_read(1) [OF rel] show ?thesis unfolding r by (simp add: foldRequestHeader_def)
qed

lemma context_related:
  assumes rel: "session_rel inherited se log"
  shows "snd (requestContext se) = foldl context_step None log
    \<and> session_rel inherited (fst (requestContext se)) log"
proof (cases "se_contextFoldSeq se < length log")
  case True
  then have r: "requestContext se = (se\<lparr>se_contextFold := foldl context_step None log,
      se_contextFoldSeq := length log\<rparr>, foldl context_step None log)"
    using caches_read [OF rel] by (simp add: requestContext_def Let_def)
  from rel show ?thesis unfolding r by (simp add: session_rel_def caches_ok_def derived_ok_def)
next
  case False
  then have r: "requestContext se = (se, se_contextFold se)" "drop (se_contextFoldSeq se) log = []"
    using caches_read [OF rel] by (simp_all add: requestContext_def)
  from rel caches_read(2) [OF rel] show ?thesis unfolding r by simp
qed

lemma events_related:
  assumes rel: "session_rel inherited se log"
  shows "snd (snapshotEvents a b se) = slice a b log \<and> session_rel inherited (fst (snapshotEvents a b se)) log"
  using rel
  by (auto simp: session_rel_def caches_ok_def derived_ok_def snapshotEvents_def slice_def split: option.splits)

lemma session_call_related:
  assumes "session_rel inherited se log"
  shows "snd (session_serve se c) = snd (log_call inherited log c)
    \<and> session_rel inherited (fst (session_serve se c)) (fst (log_call inherited log c))"
proof (cases c)
  case (AppendCall appending accepts now d srcs op)
  with append_related [OF assms, of appending accepts now d srcs op] show ?thesis
    by (cases "append_event appending accepts now d srcs op se")
      (simp add: AppendCall Let_def split: prod.splits)
next
  case (ReadEvents i j)
  with events_related [OF assms, of i j] show ?thesis by (auto split: prod.splits)
next
  case ReadOwn
  from assms have "se_inheritedEventCount se = inherited" "se_log se = log"
    by (auto simp: session_rel_def)
  with ReadOwn events_related [OF assms, of inherited "length log"] show ?thesis
    by (auto simp: ownEvents_def slice_def split: prod.splits)
next
  case ReadHeader
  with header_related [OF assms] show ?thesis by (auto split: prod.splits)
next
  case ReadContext
  with context_related [OF assms] show ?thesis by (auto split: prod.splits)
next
  case ReadMessages
  with messages_related [OF assms] show ?thesis by (auto split: prod.splits)
qed

interpretation session_sim: simulation session_serve "log_call inherited" "session_rel inherited" for inherited
  using session_call_related by unfold_locales auto

section \<open>Construction gives such a session\<close>

lemma seed_step_related:
  assumes "seed_step restore (log, m) e = Inr (log', m')" "manager_at k log m"
  shows "log' = log @ [e] \<and> (\<exists>j. manager_at j log' m') \<and> returns (foldSurface log')"
proof -
  from assms(1) have l: "log' = log @ [e]" and v: "validateNext 0 log e m = (m', None)"
    by (auto simp: seed_step_def Let_def split: if_splits sum.splits prod.splits option.splits)
  from validate_at [OF assms(2), of e] v obtain j where
    "manager_at j log m'" "returns (foldSurface (log @ [e]))" by auto
  with l manager_at_snoc show ?thesis by blast
qed

definition seeded_ok :: "session_event list \<times> surface_manager \<Rightarrow> bool" where
  "seeded_ok st \<longleftrightarrow> (\<exists>k. manager_at k (fst st) (snd st)) \<and> returns (foldSurface (fst st))"

interpretation seeding: checked_fold "seed_step restore" "([], new_surface_manager 0)" seeded_ok for restore
proof
  show "seeded_ok ([], new_surface_manager 0)"
    using new_manager_at by (auto simp: seeded_ok_def foldSurface_def)
  show "seeded_ok s'" if "seeded_ok s" "seed_step restore s e = Inr s'" for s e s'
    using that seed_step_related [of restore "fst s" "snd s" e "fst s'" "snd s'"]
    by (auto simp: seeded_ok_def)
qed

lemma fresh_session_rel:
  assumes "manager_at k log m" "returns (foldSurface log)"
  shows "session_rel inherited (fresh_session log m h inherited) log"
proof -
  have "derived_ok log (fresh_session log m h inherited)"
    unfolding derived_ok_def
    by (intro exI [of _ 0] exI [of _ createFoldState])
      (simp add: fresh_session_def folded_def surface_start_def createFoldState_def project_def List.map_filter_simps)
  with assms show ?thesis
    by (auto simp: session_rel_def fresh_session_def caches_ok_def foldRequestHeader_def)
qed

lemma end_seed_appends:
  assumes rel: "session_rel inherited se log"
  shows "\<exists>se'. append_event False (\<lambda>_. True) now EndSeed None None se =
      (se', Inr (candidate log now EndSeed None None))
    \<and> session_rel inherited se' (log @ [candidate log now EndSeed None None])"
proof -
  let ?e = "candidate log now EndSeed None None"
  from rel obtain nodes reps where "foldSurface log = Inr (nodes, reps)"
    by (auto simp: session_rel_def returns_iff)
  then obtain st where "hrun fold_step [] surface_start log = Inr (st, reps, length log)"
    by (rule foldSurface_inv)
  then obtain x where "foldSurface (log @ [?e]) = Inr x"
    by (auto simp: foldSurface_hrun hrun_snoc fold_step_eq planSurfaceEvent_def surfaceOpOf_def candidate_def)
  then have r: "log_append False (\<lambda>_. True) now EndSeed None None log = Inr ?e"
    by (simp add: log_append_def Let_def metadata_json_def opt_field_def assertSupportedRequestHeader_def)
  from append_related [OF rel, of False "\<lambda>_. True" now EndSeed None None]
  show ?thesis unfolding r
    by (cases "append_event False (\<lambda>_. True) now EndSeed None None se"; cases "snd (append_event False (\<lambda>_. True) now EndSeed None None se)")
      (auto simp: append_answer_def)
qed

text \<open>The log a construction from \<open>seed\<close> ends with.\<close>

definition marked_log :: "session_event list \<Rightarrow> int \<Rightarrow> session_event list" where
  "marked_log log now =
     (if ends_seed log then log else log @ [candidate log now EndSeed None None])"

lemma ends_seed_marked [simp]: "ends_seed (marked_log log now)"
  by (auto simp: marked_log_def ends_seed_def candidate_def)

lemma mark_end_seed_rel:
  assumes "session_rel inherited se log"
  shows "\<exists>se'. mark_end_seed seeded now se = Inr se'
    \<and> session_rel inherited se' (if seeded then marked_log log now else log)
    \<and> se_header se' = se_header se \<and> se_firstLiveSeq se' = se_firstLiveSeq se"
proof (cases "seeded \<and> \<not> ends_seed log")
  case True
  from end_seed_appends [OF assms, of now] obtain se' where a:
    "append_event False (\<lambda>_. True) now EndSeed None None se = (se', Inr (candidate log now EndSeed None None))"
    "session_rel inherited se' (log @ [candidate log now EndSeed None None])" by blast
  moreover from a(1) have "se_header se' = se_header se" "se_firstLiveSeq se' = se_firstLiveSeq se"
    by (auto simp: append_event_def Let_def split: option.splits sum.splits if_splits prod.splits)
  ultimately show ?thesis
    using True assms by (auto simp: mark_end_seed_def marked_log_def session_rel_def)
next
  case False
  with assms show ?thesis by (auto simp: mark_end_seed_def marked_log_def session_rel_def)
qed

lemma seed_log:
  "run (seed_step restore) ([], new_surface_manager 0) seed = Inr (log, m) \<Longrightarrow> log = seed"
proof -
  have "run (seed_step restore) st seed = Inr (log, m) \<Longrightarrow> log = fst st @ seed" for st
  proof (induction seed arbitrary: st)
    case (Cons e es)
    then obtain st' where s: "seed_step restore st e = Inr st'" "run (seed_step restore) st' es = Inr (log, m)"
      by (auto simp: rbind_Inr_iff)
    from s(1) have "fst st' = fst st @ [e]"
      by (auto simp: seed_step_def Let_def split: if_splits sum.splits prod.splits option.splits)
    with Cons.IH [OF s(2)] show ?case by simp
  qed simp
  from this [of "([], new_surface_manager 0)"]
  show "run (seed_step restore) ([], new_surface_manager 0) seed = Inr (log, m) \<Longrightarrow> log = seed" by simp
qed

lemma construct_elim:
  assumes "construct restore sid seed header supplied now = Inr se"
  obtains m inherited h se0 where
    "run (seed_step restore) ([], new_surface_manager 0) (case seed of None \<Rightarrow> [] | Some s \<Rightarrow> s)
       = Inr (case seed of None \<Rightarrow> [] | Some s \<Rightarrow> s, m)"
    "validateSessionHeader sid h = Inr h"
    "check_lineage h (seed \<noteq> None) supplied (length (case seed of None \<Rightarrow> [] | Some s \<Rightarrow> s)) = Inr inherited"
    "se0 = fresh_session (case seed of None \<Rightarrow> [] | Some s \<Rightarrow> s) m h inherited"
    "mark_end_seed (seed \<noteq> None) now se0 = Inr se"
proof -
  have v: "h' = h" if "validateSessionHeader sid h = Inr h'" for h h'
    using that by (auto simp: validateSessionHeader_def split: if_splits)
  let ?log = "case seed of None \<Rightarrow> [] | Some s \<Rightarrow> s"
  from assms obtain rh log m h inherited where
    rh: "(if restore
          then (case header of
                  None \<Rightarrow> Inl (BadHeader HeaderNotRecord)
                | Some h \<Rightarrow> rbind (header_result (validateRestoredSessionHeader sid h)) (\<lambda>h'. Inr (Some h')))
          else Inr None) = Inr rh"
    and r: "run (seed_step restore) ([], new_surface_manager 0) ?log = Inr (log, m)"
    and h: "(case rh of Some h \<Rightarrow> Inr h | None \<Rightarrow> header_result (snapshotSessionHeader sid header now)) = Inr h"
    and c: "check_lineage h (seed \<noteq> None) supplied (length log) = Inr inherited"
    and e: "mark_end_seed (seed \<noteq> None) now (fresh_session log m h inherited) = Inr se"
    unfolding construct_def rbind_Inr_iff by (auto simp only: split_paired_Ex prod.case rbind_Inr_iff)
  have "validateSessionHeader sid h = Inr h"
  proof (cases rh)
    case None
    with h have "snapshotSessionHeader sid header now = Inr h"
      by (auto simp: header_result_def split: sum.splits)
    then obtain snap where "validateSessionHeader sid snap = Inr h"
      by (auto simp: snapshotSessionHeader_def split: option.splits)
    with v [OF this] show ?thesis by simp
  next
    case (Some h0)
    with rh obtain h1 where "validateSessionHeader sid h1 = Inr h0"
      by (auto simp: header_result_def rbind_Inr_iff validateRestoredSessionHeader_def
          split: if_splits option.splits sum.splits)
    with v [OF this] Some h show ?thesis by simp
  qed
  with seed_log [OF r] r c e that show thesis by blast
qed

lemma construct_rel:
  assumes "construct restore sid seed header supplied now = Inr se"
  shows "session_rel (se_inheritedEventCount se) se (se_log se)"
    "se_log se = (case seed of None \<Rightarrow> [] | Some s \<Rightarrow> marked_log s now)"
proof -
  let ?log = "case seed of None \<Rightarrow> [] | Some s \<Rightarrow> s"
  from assms obtain m inherited h se0 where
    r: "run (seed_step restore) ([], new_surface_manager 0) ?log = Inr (?log, m)"
    and se0: "se0 = fresh_session ?log m h inherited"
    and e: "mark_end_seed (seed \<noteq> None) now se0 = Inr se"
    by (rule construct_elim)
  from seeding.inv_run [OF r] obtain k where "manager_at k ?log m" "returns (foldSurface ?log)"
    by (auto simp: seeded_ok_def)
  then have "session_rel inherited se0 ?log" unfolding se0 by (rule fresh_session_rel)
  from mark_end_seed_rel [OF this, of "seed \<noteq> None" now] e
  have "session_rel inherited se (if seed \<noteq> None then marked_log ?log now else ?log)" by auto
  then show "session_rel (se_inheritedEventCount se) se (se_log se)"
    "se_log se = (case seed of None \<Rightarrow> [] | Some s \<Rightarrow> marked_log s now)"
    by (auto simp: session_rel_def split: option.splits)
qed

section \<open>Properties of a session\<close>

text \<open>
  C10: the caches of a session are invisible. A constructed session answers every sequence of
  appends and reads (rejections, reentrant and vetoed appends included) as a session that keeps
  only its log and recomputes every answer from all of it: surface validation, event snapshots,
  own events, the request header and context in force, and the derived messages.
\<close>

theorem session_refines_log:
  assumes "construct restore sid seed header supplied now = Inr se"
  shows "answers_to session_serve se cs =
    answers_to (log_call (se_inheritedEventCount se)) (se_log se) cs"
  using construct_rel(1) [OF assms] by (rule session_sim.same_answers)

definition sample_session :: session where
  "sample_session = fresh_session [] (new_surface_manager 0) (minimal_header ''s'' 7) 0"

lemma sample_construct: "construct False ''s'' None None None 7 = Inr sample_session"
  by code_simp

definition sample_calls :: "session_call list" where
  "sample_calls =
     [AppendCall False (\<lambda>_. True) 8 (UserMessage (sample_message ''m'')) None (Some append_op),
      AppendCall False (\<lambda>_. True) 9 (TurnStart 1) None (Some append_op),
      ReadMessages]"

theorem session_refines_log_witness:
  "answers_to session_serve sample_session sample_calls =
     [Appended (candidate [] 8 (UserMessage (sample_message ''m'')) None (Some append_op)),
      Refused (SurfaceRejected OpOnLogOnly),
      Messages [sample_message ''m'']]"
proof -
  have "answers_to (log_call 0) [] sample_calls =
     [Appended (candidate [] 8 (UserMessage (sample_message ''m'')) None (Some append_op)),
      Refused (SurfaceRejected OpOnLogOnly),
      Messages [sample_message ''m'']]"
    by code_simp
  with session_refines_log [OF sample_construct, of sample_calls] show ?thesis
    by (simp add: sample_session_def fresh_session_def)
qed

text \<open>What no call changes: the header, and a lineage count inside the log.\<close>

definition lineage_ok :: "string \<Rightarrow> session \<Rightarrow> bool" where
  "lineage_ok sid se \<longleftrightarrow>
     validateSessionHeader sid (se_header se) = Inr (se_header se)
     \<and> (\<not> header_isSeeded (se_header se) \<longrightarrow> se_inheritedEventCount se = 0)
     \<and> se_inheritedEventCount se \<le> length (se_log se)"

lemma append_lineage:
  "lineage_ok sid se \<Longrightarrow> lineage_ok sid (fst (append_event appending accepts now d srcs op se))"
  by (auto simp: lineage_ok_def append_event_def Let_def split: option.splits sum.splits prod.splits)

lemma serve_lineage:
  assumes "lineage_ok sid se"
  shows "lineage_ok sid (fst (session_serve se c))"
proof (cases c)
  case (AppendCall appending accepts now d srcs op)
  with append_lineage [OF assms, of appending accepts now d srcs op] show ?thesis
    by (simp add: Let_def split_beta)
qed (use assms in \<open>auto simp: lineage_ok_def snapshotEvents_def ownEvents_def requestHeader_def
    requestContext_def deriveMessages_def Let_def split: option.splits prod.splits sum.splits\<close>)

lemma state_after_lineage: "lineage_ok sid se \<Longrightarrow> lineage_ok sid (state_after session_serve se cs)"
  by (induction cs arbitrary: se) (simp_all add: serve_lineage)

lemma construct_lineage:
  assumes "construct restore sid seed header supplied now = Inr se"
  shows "lineage_ok sid se"
proof -
  let ?log = "case seed of None \<Rightarrow> [] | Some s \<Rightarrow> s"
  from assms obtain m inherited h se0 where h: "validateSessionHeader sid h = Inr h"
    and c: "check_lineage h (seed \<noteq> None) supplied (length ?log) = Inr inherited"
    and se0: "se0 = fresh_session ?log m h inherited" and e: "mark_end_seed (seed \<noteq> None) now se0 = Inr se"
    by (rule construct_elim)
  have "lineage_ok sid se0"
    using h c by (auto simp: se0 lineage_ok_def fresh_session_def check_lineage_def Let_def split: if_splits)
  with append_lineage [of sid se0 False "\<lambda>_. True" now EndSeed None None] e show ?thesis
    by (auto simp: mark_end_seed_def split: if_splits prod.splits sum.splits)
qed

lemma seed_run_accepts:
  "returns (foldSurface log) \<Longrightarrow> \<forall>e \<in> set log. admit_event e = Inr () \<Longrightarrow>
   \<exists>m. run (seed_step True) ([], new_surface_manager 0) log = Inr (log, m)"
proof (induction log rule: rev_induct)
  case Nil
  then show ?case by simp
next
  case (snoc e log)
  from snoc.prems(1) obtain nodes reps where f: "foldSurface (log @ [e]) = Inr (nodes, reps)"
    by (auto simp: returns_iff)
  then have "returns (foldSurface log)" and "contiguous (log @ [e])"
    by (auto simp: foldSurface_hrun hrun_snoc rbind_Inr_iff elim: foldSurface_inv [OF f]
        intro: foldSurface_inv [OF f] simp: surface_inv_def)
  with snoc obtain m where m: "run (seed_step True) ([], new_surface_manager 0) log = Inr (log, m)"
    by auto
  from seeding.inv_run [OF m] obtain k where "manager_at k log m" by (auto simp: seeded_ok_def)
  from validate_at [OF this, of e] snoc.prems(1) obtain m' where
    "validateNext 0 log e m = (m', None)" by auto
  moreover have "ev_seq e = length log" using \<open>contiguous (log @ [e])\<close> by simp
  ultimately have "seed_step True (log, m) e = Inr (log @ [e], m')"
    using snoc.prems(2) by (simp add: seed_step_def Let_def admit_event_iff)
  with m show ?case by (simp add: run_snoc)
qed

lemma end_seed_admitted:
  "int (length log) \<le> MAX_SAFE_INTEGER \<Longrightarrow> \<bar>now\<bar> \<le> MAX_SAFE_INTEGER \<Longrightarrow>
   admit_event (candidate log now EndSeed None None) = Inr ()"
  by (simp add: admit_event_iff envelope_accepts envelope_ok_def candidate_def message_types_def
      assertSupportedRequestHeader_def)

text \<open>Restoring a log that a session holds.\<close>

lemma restore_session:
  assumes rel: "session_rel inherited se log" and lin: "lineage_ok sid se"
    and adm: "\<forall>e \<in> set log. admit_event e = Inr ()"
  shows "\<exists>se'. session_fromRestore sid log (se_header se) inherited now = Inr se'
    \<and> session_rel inherited se' (marked_log log now) \<and> lineage_ok sid se'
    \<and> se_header se' = se_header se \<and> se_firstLiveSeq se' = length log"
proof -
  from rel have l: "se_log se = log" "se_inheritedEventCount se = inherited" "returns (foldSurface log)"
    by (auto simp: session_rel_def)
  from seed_run_accepts [OF l(3) adm] obtain m where
    m: "run (seed_step True) ([], new_surface_manager 0) log = Inr (log, m)" by blast
  let ?se0 = "fresh_session log m (se_header se) inherited"
  from seeding.inv_run [OF m] have "session_rel inherited ?se0 log"
    by (auto simp: seeded_ok_def intro: fresh_session_rel)
  from mark_end_seed_rel [OF this, of True now] obtain se' where
    se': "mark_end_seed True now ?se0 = Inr se'" "session_rel inherited se' (marked_log log now)"
      "se_header se' = se_header se" "se_firstLiveSeq se' = length log"
    by (auto simp: fresh_session_def)
  have "check_lineage (se_header se) True (Some inherited) (length log) = Inr inherited"
    using lin l by (auto simp: check_lineage_def lineage_ok_def Let_def)
  then have c: "session_fromRestore sid log (se_header se) inherited now = Inr se'"
    using m se'(1) lin
    by (simp add: session_fromRestore_def construct_def header_result_def validateRestoredSessionHeader_def
        lineage_ok_def)
  then have "lineage_ok sid se'" unfolding session_fromRestore_def by (rule construct_lineage)
  with c se' show ?thesis by blast
qed

text \<open>
  C11: a stored session can always be reopened, and reopening does not grow it. Take any
  constructed session after any calls, all of whose events pass the seed boundary: restoring its
  log succeeds under the same header and lineage, keeps every event, appends one
  \<open>session/end-seed\<close> unless the log already ends with one, and starts live appends after the old
  log; restoring the result again leaves the log as it is.
\<close>

theorem reopening_keeps_log:
  assumes "construct restore sid seed header supplied now = Inr se0"
    and "se = state_after session_serve se0 cs"
    and "\<forall>e \<in> set (se_log se). admit_event e = Inr ()"
    and "int (length (se_log se)) \<le> MAX_SAFE_INTEGER" and "\<bar>now'\<bar> \<le> MAX_SAFE_INTEGER"
  shows "\<exists>se'. session_fromRestore sid (se_log se) (se_header se) (se_inheritedEventCount se) now' = Inr se'
    \<and> se_log se' = marked_log (se_log se) now' \<and> se_header se' = se_header se
    \<and> se_firstLiveSeq se' = length (se_log se)
    \<and> (\<forall>later. \<exists>se''. session_fromRestore sid (se_log se') (se_header se') (se_inheritedEventCount se') later
          = Inr se'' \<and> se_log se'' = se_log se')"
proof -
  from session_sim.related_after [OF construct_rel(1) [OF assms(1)], of cs] assms(2)
  have rel: "session_rel (se_inheritedEventCount se) se (se_log se)"
    by (auto simp: session_rel_def)
  have lin: "lineage_ok sid se"
    using state_after_lineage [OF construct_lineage [OF assms(1)]] assms(2) by simp
  from restore_session [OF rel lin assms(3)] obtain se' where
    se': "session_fromRestore sid (se_log se) (se_header se) (se_inheritedEventCount se) now' = Inr se'"
      "session_rel (se_inheritedEventCount se) se' (marked_log (se_log se) now')" "lineage_ok sid se'"
      "se_header se' = se_header se" "se_firstLiveSeq se' = length (se_log se)" by blast
  have adm: "\<forall>e \<in> set (marked_log (se_log se) now'). admit_event e = Inr ()"
    using assms(3) end_seed_admitted [OF assms(4,5)] by (auto simp: marked_log_def)
  have "\<exists>se''. session_fromRestore sid (se_log se') (se_header se') (se_inheritedEventCount se') later
      = Inr se'' \<and> se_log se'' = se_log se'" for later
  proof -
    have i: "se_inheritedEventCount se' = se_inheritedEventCount se" "se_log se' = marked_log (se_log se) now'"
      using se'(2) by (auto simp: session_rel_def)
    from restore_session [OF se'(2,3) adm, of later] obtain se'' where
      "session_fromRestore sid (se_log se') (se_header se') (se_inheritedEventCount se') later = Inr se''"
      "session_rel (se_inheritedEventCount se) se'' (marked_log (se_log se') later)"
      unfolding i by blast
    moreover have "marked_log (se_log se') later = se_log se'"
      unfolding i using ends_seed_marked by (simp add: marked_log_def)
    ultimately show ?thesis by (auto simp: session_rel_def)
  qed
  with se' show ?thesis by (auto simp: session_rel_def)
qed

theorem reopening_keeps_log_witness:
  "\<exists>se'. session_fromRestore ''s'' [candidate [] 8 (TurnStart 1) None None] (minimal_header ''s'' 7) 0 9 = Inr se'
     \<and> length (se_log se') = 2"
proof -
  define cs where "cs = [AppendCall False (\<lambda>_. True) 8 (TurnStart 1) None None]"
  define se where "se = state_after session_serve sample_session cs"
  have st: "se_log se = [candidate [] 8 (TurnStart 1) None None]"
    "se_header se = minimal_header ''s'' 7" "se_inheritedEventCount se = 0"
    unfolding se_def cs_def by code_simp+
  have adm: "admit_event (candidate [] 8 (TurnStart 1) None None) = Inr ()"
    by code_simp
  have "\<not> ends_seed [candidate [] 8 (TurnStart 1) None None]"
    by code_simp
  with reopening_keeps_log [OF sample_construct se_def, of 9] adm show ?thesis
    by (auto simp: st MAX_SAFE_INTEGER_def marked_log_def)
qed

section \<open>What an append does to the log\<close>

lemma append_log:
  assumes "append_event appending accepts now d srcs op se = (se', r)"
  shows "case r of Inl _ \<Rightarrow> se_log se' = se_log se
    | Inr e \<Rightarrow> e = candidate (se_log se) now d srcs op \<and> se_log se' = se_log se @ [e]"
  using assms
  by (auto simp: append_event_def Let_def split: option.splits sum.splits prod.splits if_splits)

lemma append_keeps_identity:
  assumes "append_event appending accepts now d srcs op se = (se', r)"
  shows "se_header se' = se_header se" "se_inheritedEventCount se' = se_inheritedEventCount se"
  using assms
  by (auto simp: append_event_def Let_def split: option.splits sum.splits prod.splits if_splits)

lemma construct_contiguous:
  assumes "construct restore sid seed header supplied now = Inr se"
  shows "contiguous (se_log se)"
proof -
  have "returns (foldSurface (se_log se))" using construct_rel(1) [OF assms] by (simp add: session_rel_def)
  then obtain nodes reps where f: "foldSurface (se_log se) = Inr (nodes, reps)" by (auto simp: returns_iff)
  from foldSurface_inv [OF f] show ?thesis by (auto simp: surface_inv_def)
qed

end
