(* ===== verification/Inbox.thy ===== *)
theory Inbox
  imports Session_Log "HOL-Library.Multiset"
begin

text \<open>
  The durable inbox of an agent, core/agent/src/inbox.ts: two ordered lists of pending messages
  that are changed only through normalised splices recorded in the session log, and rebuilt from
  those records. The session is used through its \<open>append\<close> alone, whose contract is the locale
  \<open>durable_log\<close>; the theory interprets it on the session of \<open>Session_Log\<close>. The results: replaying
  the recorded splices rebuilds the live lists exactly; no identity is pending twice; and every
  inserted message is discarded, claimed or still pending, exactly once.
\<close>

section \<open>State\<close>

datatype notification = Inserted message | Discarded message | Claimed message int

record 's inbox =
  ib_session :: 's
  ib_nextTurn :: "message list"
  ib_nextStep :: "message list"
  ib_notes :: "notification list"

datatype 'e inbox_error = InvalidSplice | AlreadyPending string | AppendFailed 'e

fun list_of :: "inbox_target \<Rightarrow> ('s, 'z) inbox_scheme \<Rightarrow> message list" where
  "list_of NextTurn ib = ib_nextTurn ib"
| "list_of NextStep ib = ib_nextStep ib"

fun set_list :: "inbox_target \<Rightarrow> message list \<Rightarrow> 's inbox \<Rightarrow> 's inbox" where
  "set_list NextTurn ms ib = ib\<lparr>ib_nextTurn := ms\<rparr>"
| "set_list NextStep ms ib = ib\<lparr>ib_nextStep := ms\<rparr>"

definition hasPending :: "'s inbox \<Rightarrow> bool" where
  "hasPending ib \<longleftrightarrow> 0 < length (ib_nextTurn ib) \<or> 0 < length (ib_nextStep ib)"

section \<open>Validation and replay of one splice\<close>

text \<open>The scan for a repeated identity, with its growing \<open>Set\<close>.\<close>

fun first_repeat :: "string list \<Rightarrow> message list \<Rightarrow> string option" where
  "first_repeat ids [] = None"
| "first_repeat ids (m # ms) =
     (if msg_id m \<in> set ids then Some (msg_id m) else first_repeat (msg_id m # ids) ms)"

definition removed_count :: "inbox_splice \<Rightarrow> int" where
  "removed_count sp = (case sp_removedCount sp of None \<Rightarrow> 0 | Some n \<Rightarrow> n)"

definition safe_int :: "int \<Rightarrow> bool" where
  "safe_int i \<longleftrightarrow> \<bar>i\<bar> \<le> MAX_SAFE_INTEGER"

definition validate_splice :: "inbox_splice \<Rightarrow> 's inbox \<Rightarrow> 'e inbox_error + unit" where
  "validate_splice sp ib =
     (let pending = list_of (sp_target sp) ib; removedCount = removed_count sp in
      if \<not> safe_int (sp_start sp) \<or> sp_start sp < 0 \<or> int (length pending) < sp_start sp
         \<or> \<not> safe_int removedCount \<or> removedCount < 0
         \<or> int (length pending) < sp_start sp + removedCount
      then Inl InvalidSplice
      else
        let candidate = spliced (nat (sp_start sp)) (nat removedCount) (sp_inserted sp) pending in
        (case first_repeat []
               (case sp_target sp of NextTurn \<Rightarrow> candidate @ ib_nextStep ib
                                   | NextStep \<Rightarrow> ib_nextTurn ib @ candidate) of
           Some i \<Rightarrow> Inl (AlreadyPending i)
         | None \<Rightarrow> Inr ()))"

definition apply_splice :: "'s inbox \<Rightarrow> inbox_splice \<Rightarrow> 'e inbox_error + 's inbox" where
  "apply_splice ib sp =
     rbind (validate_splice sp ib) (\<lambda>_.
       Inr (set_list (sp_target sp)
         (spliced (nat (sp_start sp)) (nat (removed_count sp)) (sp_inserted sp) (list_of (sp_target sp) ib)) ib))"

definition empty_inbox :: "'s \<Rightarrow> 's inbox" where
  "empty_inbox s = \<lparr>ib_session = s, ib_nextTurn = [], ib_nextStep = [], ib_notes = []\<rparr>"

fun splice_of :: "event_data \<Rightarrow> inbox_splice option" where
  "splice_of (InboxSpliced sp) = Some sp"
| "splice_of _ = None"

definition own_splices :: "session_event list \<Rightarrow> inbox_splice list" where
  "own_splices evs = List.map_filter (\<lambda>e. splice_of (ev_data e)) evs"

text \<open>The constructor: replay of the splices among the session's own events.\<close>

definition new_inbox :: "'s \<Rightarrow> inbox_splice list \<Rightarrow> 'e inbox_error + 's inbox" where
  "new_inbox s splices = run apply_splice (empty_inbox s) splices"

section \<open>Mutation\<close>

text \<open>\<open>Math.trunc\<close>, then clamping; \<open>NaN\<close> counts as zero, the infinities clamp to an end.\<close>

definition trunc_frac :: "int \<Rightarrow> nat \<Rightarrow> int" where
  "trunc_frac m k = (if 0 \<le> m then m div 2 ^ k else - ((- m) div 2 ^ k))"

fun js_trunc :: "jsnum \<Rightarrow> jsnum" where
  "js_trunc (NFrac m k) = NInt (trunc_frac m k)"
| "js_trunc n = n"

definition actual_start :: "jsnum \<Rightarrow> nat \<Rightarrow> nat" where
  "actual_start start n =
     (case js_trunc start of
        NInt i \<Rightarrow> if i < 0 then nat (max (int n + i) 0) else min (nat i) n
      | NInf negative \<Rightarrow> if negative then 0 else n
      | _ \<Rightarrow> 0)"

definition actual_delete :: "jsnum \<Rightarrow> nat \<Rightarrow> nat" where
  "actual_delete deleteCount avail =
     (case js_trunc deleteCount of
        NInt i \<Rightarrow> min (nat (max i 0)) avail
      | NInf negative \<Rightarrow> if negative then 0 else avail
      | _ \<Rightarrow> 0)"

definition normal_splice :: "inbox_target \<Rightarrow> nat \<Rightarrow> nat \<Rightarrow> message list \<Rightarrow> bool \<Rightarrow> inbox_splice" where
  "normal_splice target start cnt ins discardRemoved =
     \<lparr>sp_target = target, sp_start = int start,
      sp_removedCount = (if cnt = 0 then None else Some (int cnt)),
      sp_inserted = ins, sp_canceled = (discardRemoved \<and> 0 < cnt)\<rparr>"

type_synonym ('s, 'e) durable_append = "'s \<Rightarrow> inbox_splice \<Rightarrow> 's \<times> ('e + inbox_splice)"

definition mutate ::
  "('s, 'e) durable_append \<Rightarrow> inbox_target \<Rightarrow> jsnum \<Rightarrow> jsnum \<Rightarrow> message list \<Rightarrow> bool \<Rightarrow> 's inbox \<Rightarrow>
   's inbox \<times> ('e inbox_error + message list)" where
  "mutate durably target start deleteCount ins discardRemoved ib =
     (let pending = list_of target ib;
          actualStart = actual_start start (length pending);
          actualDeleteCount = actual_delete deleteCount (length pending - actualStart) in
      if actualDeleteCount = 0 \<and> length ins = 0 then (ib, Inr [])
      else
        let sp = normal_splice target actualStart actualDeleteCount ins discardRemoved in
        (case validate_splice sp ib of
           Inl err \<Rightarrow> (ib, Inl err)
         | Inr _ \<Rightarrow>
             (case durably (ib_session ib) sp of
                (s, Inl err) \<Rightarrow> (ib\<lparr>ib_session := s\<rparr>, Inl (AppendFailed err))
              | (s, Inr logged) \<Rightarrow>
                  let removed = splice_removed actualStart actualDeleteCount pending;
                      ib' = set_list target
                        (spliced actualStart actualDeleteCount (sp_inserted logged) pending)
                        (ib\<lparr>ib_session := s\<rparr>);
                      notes = (if discardRemoved then map Discarded removed else [])
                              @ map Inserted (sp_inserted logged)
                  in (ib'\<lparr>ib_notes := ib_notes ib' @ notes\<rparr>, Inr removed))))"

definition splice_inbox ::
  "('s, 'e) durable_append \<Rightarrow> inbox_target \<Rightarrow> jsnum \<Rightarrow> jsnum \<Rightarrow> message list \<Rightarrow> 's inbox \<Rightarrow>
   's inbox \<times> ('e inbox_error + message list)" where
  "splice_inbox durably target start deleteCount ins = mutate durably target start deleteCount ins True"

definition jsnat :: "nat \<Rightarrow> jsnum" where
  "jsnat n = NInt (int n)"

definition clear_inbox ::
  "('s, 'e) durable_append \<Rightarrow> 's inbox \<Rightarrow> 's inbox \<times> ('e inbox_error + message list)" where
  "clear_inbox durably ib =
     (case splice_inbox durably NextStep (jsnat 0) (jsnat (length (ib_nextStep ib))) [] ib of
        (ib', Inl err) \<Rightarrow> (ib', Inl err)
      | (ib', Inr _) \<Rightarrow>
          (case splice_inbox durably NextTurn (jsnat 0) (jsnat (length (ib_nextTurn ib'))) [] ib' of
             (ib'', Inl err) \<Rightarrow> (ib'', Inl err)
           | (ib'', Inr _) \<Rightarrow> (ib'', Inr [])))"

definition claim ::
  "('s, 'e) durable_append \<Rightarrow> inbox_target \<Rightarrow> int \<Rightarrow> 's inbox \<Rightarrow>
   's inbox \<times> ('e inbox_error + message list)" where
  "claim durably target turn ib =
     (case mutate durably NextStep (jsnat 0) (jsnat (length (ib_nextStep ib))) [] False ib of
        (ib', Inl err) \<Rightarrow> (ib', Inl err)
      | (ib', Inr steps) \<Rightarrow>
          (case (if target = NextTurn then mutate durably NextTurn (jsnat 0) (jsnat 1) [] False ib'
                 else (ib', Inr [])) of
             (ib'', Inl err) \<Rightarrow> (ib'', Inl err)
           | (ib'', Inr turns) \<Rightarrow>
               let claimed = steps @ turns in
               (ib''\<lparr>ib_notes := ib_notes ib'' @ map (\<lambda>m. Claimed m turn) claimed\<rparr>, Inr claimed)))"

definition append_message ::
  "('s, 'e) durable_append \<Rightarrow> inbox_target \<Rightarrow> message \<Rightarrow> 's inbox \<Rightarrow>
   's inbox \<times> ('e inbox_error + message list)" where
  "append_message durably target m ib =
     splice_inbox durably target (jsnat (length (list_of target ib))) (jsnat 0) [m] ib"

definition prepend_message ::
  "('s, 'e) durable_append \<Rightarrow> inbox_target \<Rightarrow> message \<Rightarrow> 's inbox \<Rightarrow>
   's inbox \<times> ('e inbox_error + message list)" where
  "prepend_message durably target m ib = splice_inbox durably target (jsnat 0) (jsnat 0) [m] ib"

text \<open>\<open>findIndex\<close> over both lists, next-turn first.\<close>

fun find_index :: "string \<Rightarrow> message list \<Rightarrow> nat option" where
  "find_index i [] = None"
| "find_index i (m # ms) = (if msg_id m = i then Some 0 else map_option Suc (find_index i ms))"

definition locate :: "string \<Rightarrow> 's inbox \<Rightarrow> (inbox_target \<times> nat) option" where
  "locate i ib =
     (case find_index i (ib_nextTurn ib) of
        Some k \<Rightarrow> Some (NextTurn, k)
      | None \<Rightarrow> map_option (\<lambda>k. (NextStep, k)) (find_index i (ib_nextStep ib)))"

definition edit_message ::
  "('s, 'e) durable_append \<Rightarrow> string \<Rightarrow> message list \<Rightarrow> 's inbox \<Rightarrow> 's inbox \<times> ('e inbox_error + bool)" where
  "edit_message durably i ins ib =
     (case locate i ib of
        None \<Rightarrow> (ib, Inr False)
      | Some (target, k) \<Rightarrow>
          (case splice_inbox durably target (jsnat k) (jsnat 1) ins ib of
             (ib', Inl err) \<Rightarrow> (ib', Inl err)
           | (ib', Inr _) \<Rightarrow> (ib', Inr True)))"

definition replace_message ::
  "('s, 'e) durable_append \<Rightarrow> string \<Rightarrow> message \<Rightarrow> 's inbox \<Rightarrow> 's inbox \<times> ('e inbox_error + bool)" where
  "replace_message durably i m = edit_message durably i [m]"

definition remove_message ::
  "('s, 'e) durable_append \<Rightarrow> string \<Rightarrow> 's inbox \<Rightarrow> 's inbox \<times> ('e inbox_error + bool)" where
  "remove_message durably i = edit_message durably i []"

datatype inbox_op =
    Clear | Claim inbox_target int | AppendTo inbox_target message | PrependTo inbox_target message
  | ReplaceId string message | RemoveId string | Splice inbox_target jsnum jsnum "message list"

text \<open>One call, with whether it returned (it threw otherwise); and a sequence of calls.\<close>

definition call_state :: "'s inbox \<times> ('e inbox_error + 'a) \<Rightarrow> 's inbox \<times> bool" where
  "call_state r = (fst r, returns (snd r))"

fun inbox_exec :: "('s, 'e) durable_append \<Rightarrow> inbox_op \<Rightarrow> 's inbox \<Rightarrow> 's inbox \<times> bool" where
  "inbox_exec durably Clear ib = call_state (clear_inbox durably ib)"
| "inbox_exec durably (Claim target turn) ib = call_state (claim durably target turn ib)"
| "inbox_exec durably (AppendTo target m) ib = call_state (append_message durably target m ib)"
| "inbox_exec durably (PrependTo target m) ib = call_state (prepend_message durably target m ib)"
| "inbox_exec durably (ReplaceId i m) ib = call_state (replace_message durably i m ib)"
| "inbox_exec durably (RemoveId i) ib = call_state (remove_message durably i ib)"
| "inbox_exec durably (Splice target start cnt ins) ib = call_state (splice_inbox durably target start cnt ins ib)"

section \<open>Splices and the lists\<close>

lemma actual_start_le: "actual_start start n \<le> n"
  by (auto simp: actual_start_def split: jsnum.splits)

lemma actual_delete_le: "actual_delete d avail \<le> avail"
  by (auto simp: actual_delete_def split: jsnum.splits)

lemma actual_jsnat [simp]: "actual_start (jsnat i) n = min i n" "actual_delete (jsnat i) n = min i n"
  by (simp_all add: actual_start_def actual_delete_def jsnat_def)

lemma first_repeat_None:
  "first_repeat ids ms = None \<longleftrightarrow> distinct (map msg_id ms) \<and> set (map msg_id ms) \<inter> set ids = {}"
  by (induction ms arbitrary: ids) auto

definition same_lists :: "'s inbox \<Rightarrow> 't inbox \<Rightarrow> bool" where
  "same_lists a b \<longleftrightarrow> ib_nextTurn a = ib_nextTurn b \<and> ib_nextStep a = ib_nextStep b"

lemma same_lists_list_of: "same_lists a b \<Longrightarrow> list_of t a = list_of t b"
  by (cases t) (auto simp: same_lists_def)

lemma same_lists_refl [simp]: "same_lists a a"
  by (simp add: same_lists_def)

lemma validate_same: "same_lists a b \<Longrightarrow> validate_splice sp a = validate_splice sp b"
  by (cases "sp_target sp") (simp_all add: validate_splice_def same_lists_def Let_def)

lemma set_list_same: "same_lists a b \<Longrightarrow> same_lists (set_list t ms a) (set_list t ms b)"
  by (cases t) (auto simp: same_lists_def)

lemma validate_any:
  assumes "validate_splice sp a = (Inr () :: 'e inbox_error + unit)"
  shows "validate_splice sp a = (Inr () :: 'f inbox_error + unit)"
  using assms
  by (cases "sp_target sp") (auto simp: validate_splice_def Let_def split: if_splits option.splits)

lemma apply_same:
  assumes "same_lists a b" "apply_splice a sp = (Inr a' :: 'e inbox_error + 's inbox)"
  shows "\<exists>b'. apply_splice b sp = (Inr b' :: 'f inbox_error + 't inbox) \<and> same_lists a' b'"
proof -
  have "validate_splice sp b = (Inr () :: 'e inbox_error + unit)"
    using assms by (auto simp: apply_splice_def rbind_Inr_iff validate_same [OF assms(1)])
  note v = validate_any [OF this]
  show ?thesis
    using assms(2) set_list_same [OF assms(1)]
    by (auto simp: apply_splice_def rbind_Inr_iff v same_lists_list_of [OF assms(1)])
qed

lemma run_same:
  "same_lists a b \<Longrightarrow> run apply_splice a sps = (Inr a' :: 'e inbox_error + 's inbox) \<Longrightarrow>
   \<exists>b'. run apply_splice b sps = (Inr b' :: 'f inbox_error + 't inbox) \<and> same_lists a' b'"
proof (induction sps arbitrary: a b)
  case Nil
  then show ?case by simp
next
  case (Cons sp sps)
  then obtain a1 where a1: "apply_splice a sp = (Inr a1 :: 'e inbox_error + 's inbox)"
    "run apply_splice a1 sps = (Inr a' :: 'e inbox_error + 's inbox)"
    by (auto simp: rbind_Inr_iff)
  from apply_same [OF Cons.prems(1) a1(1)] obtain b1 where
    "apply_splice b sp = (Inr b1 :: 'f inbox_error + 't inbox)" "same_lists a1 b1" by blast
  with Cons.IH [OF this(2) a1(2)] show ?case by auto
qed

text \<open>\<open>rebuilds sps ib\<close>: replaying the splices \<open>sps\<close> gives the lists of \<open>ib\<close>.\<close>

definition rebuilds :: "inbox_splice list \<Rightarrow> 's inbox \<Rightarrow> bool" where
  "rebuilds sps ib \<longleftrightarrow>
     (\<exists>new. run apply_splice (empty_inbox ()) sps = (Inr new :: unit inbox_error + unit inbox)
        \<and> same_lists new ib)"

lemma rebuilds_new:
  assumes "rebuilds sps ib"
  shows "\<exists>new. new_inbox s sps = (Inr new :: 'e inbox_error + 's inbox) \<and> same_lists new ib"
proof -
  from assms obtain new where n: "run apply_splice (empty_inbox ()) sps = (Inr new :: unit inbox_error + unit inbox)"
    "same_lists new ib" by (auto simp: rebuilds_def)
  have "same_lists (empty_inbox ()) (empty_inbox s)" by (simp add: same_lists_def empty_inbox_def)
  from run_same [OF this n(1)] n(2) show ?thesis
    by (fastforce simp: new_inbox_def same_lists_def)
qed

lemma new_rebuilds:
  assumes "new_inbox s sps = (Inr ib :: 'e inbox_error + 's inbox)"
  shows "rebuilds sps ib"
proof -
  have "same_lists (empty_inbox s) (empty_inbox ())" by (simp add: same_lists_def empty_inbox_def)
  from run_same [OF this assms [unfolded new_inbox_def]]
  show ?thesis by (auto simp: rebuilds_def same_lists_def)
qed

lemma rebuilds_snoc:
  assumes "rebuilds sps ib" "apply_splice ib sp = (Inr ib' :: 'e inbox_error + 's inbox)"
  shows "rebuilds (sps @ [sp]) ib'"
proof -
  from assms(1) obtain new where n: "run apply_splice (empty_inbox ()) sps = (Inr new :: unit inbox_error + unit inbox)"
    "same_lists new ib" by (auto simp: rebuilds_def)
  from n(2) have "same_lists ib new" by (simp add: same_lists_def)
  from apply_same [OF this assms(2)] obtain new' where
    "apply_splice new sp = (Inr new' :: unit inbox_error + unit inbox)" "same_lists ib' new'" by blast
  with n(1) show ?thesis by (auto simp: rebuilds_def run_snoc same_lists_def)
qed

lemma rebuilds_same: "rebuilds sps a \<Longrightarrow> same_lists a b \<Longrightarrow> rebuilds sps b"
  by (auto simp: rebuilds_def same_lists_def)

lemma set_list_simps [simp]:
  "ib_session (set_list t ms ib) = ib_session ib" "ib_notes (set_list t ms ib) = ib_notes ib"
  "list_of t (set_list t ms ib) = ms"
  by (cases t; simp)+

text \<open>No identity pending twice; a contract of the replay fold.\<close>

definition ids_distinct :: "'s inbox \<Rightarrow> bool" where
  "ids_distinct ib \<longleftrightarrow> distinct (map msg_id (ib_nextTurn ib @ ib_nextStep ib))"

lemma ids_distinct_scan: "ids_distinct ib \<longleftrightarrow> first_repeat [] (ib_nextTurn ib @ ib_nextStep ib) = None"
  by (simp add: ids_distinct_def first_repeat_None)

lemma apply_distinct: "apply_splice ib sp = Inr ib' \<Longrightarrow> ids_distinct ib'"
  unfolding ids_distinct_scan
  by (cases "sp_target sp")
    (auto simp: apply_splice_def rbind_Inr_iff validate_splice_def Let_def split: if_splits option.splits)

interpretation replay: checked_fold apply_splice "empty_inbox s" ids_distinct for s
proof
  show "ids_distinct (empty_inbox s)" by (simp add: ids_distinct_def empty_inbox_def)
qed (rule apply_distinct)

lemma rebuilds_distinct:
  assumes "rebuilds sps ib"
  shows "ids_distinct ib"
proof -
  from assms obtain new where n: "run apply_splice (empty_inbox ()) sps = (Inr new :: unit inbox_error + unit inbox)"
    "same_lists new ib" by (auto simp: rebuilds_def)
  from replay.inv_run [OF n(1)] n(2) show ?thesis by (simp add: ids_distinct_def same_lists_def)
qed

text \<open>What a mutation does to the lists, the record and the notifications.\<close>

lemma removed_normal [simp]: "removed_count (normal_splice t i n ms d) = int n"
  by (simp add: removed_count_def normal_splice_def)

lemma normal_simps [simp]:
  "sp_target (normal_splice t i n ms d) = t" "sp_start (normal_splice t i n ms d) = int i"
  "sp_inserted (normal_splice t i n ms d) = ms"
  by (simp_all add: normal_splice_def)

section \<open>The ledger of notifications\<close>

fun inserted_notes :: "notification list \<Rightarrow> message list" where
  "inserted_notes [] = []"
| "inserted_notes (Inserted m # ns) = m # inserted_notes ns"
| "inserted_notes (_ # ns) = inserted_notes ns"

fun removed_notes :: "notification list \<Rightarrow> message list" where
  "removed_notes [] = []"
| "removed_notes (Discarded m # ns) = m # removed_notes ns"
| "removed_notes (Claimed m _ # ns) = m # removed_notes ns"
| "removed_notes (Inserted _ # ns) = removed_notes ns"

lemma notes_append [simp]:
  "inserted_notes (xs @ ys) = inserted_notes xs @ inserted_notes ys"
  "removed_notes (xs @ ys) = removed_notes xs @ removed_notes ys"
  by (induction xs rule: inserted_notes.induct; simp)+

lemma notes_map [simp]:
  "inserted_notes (map Inserted ms) = ms" "removed_notes (map Inserted ms) = []"
  "inserted_notes (map Discarded ms) = []" "removed_notes (map Discarded ms) = ms"
  "inserted_notes (map (\<lambda>m. Claimed m t) ms) = []" "removed_notes (map (\<lambda>m. Claimed m t) ms) = ms"
  by (induction ms; simp)+

definition pending_mset :: "'s inbox \<Rightarrow> message multiset" where
  "pending_mset ib = mset (ib_nextTurn ib) + mset (ib_nextStep ib)"

text \<open>Every message that was pending at first or inserted since is accounted for.\<close>

definition balanced :: "message multiset \<Rightarrow> 's inbox \<Rightarrow> bool" where
  "balanced before ib \<longleftrightarrow>
     before + mset (inserted_notes (ib_notes ib)) = mset (removed_notes (ib_notes ib)) + pending_mset ib"

lemma mset_splice:
  assumes "i + n \<le> length xs"
  shows "mset (spliced i n ins xs) + mset (splice_removed i n xs) = mset xs + mset ins"
proof -
  have "mset xs = mset (take i xs @ splice_removed i n xs @ drop (i + n) xs)"
    by (simp only: spliced_removed)
  then show ?thesis by (simp add: spliced_def)
qed

lemma pending_spliced:
  assumes "i + n \<le> length (list_of t ib)" "same_lists ib' (set_list t (spliced i n ins (list_of t ib)) ib)"
  shows "pending_mset ib' + mset (splice_removed i n (list_of t ib)) = pending_mset ib + mset ins"
proof (cases t)
  case NextTurn
  with assms(2) mset_splice [OF assms(1), of ins] show ?thesis
    by (simp add: pending_mset_def same_lists_def)
next
  case NextStep
  with assms(2) mset_splice [OF assms(1), of ins] show ?thesis
    by (simp add: pending_mset_def same_lists_def)
qed

section \<open>The contract of the log an inbox writes to\<close>

locale durable_log =
  fixes durably :: "'s \<Rightarrow> inbox_splice \<Rightarrow> 's \<times> ('e + inbox_splice)"
    and own :: "'s \<Rightarrow> inbox_splice list"
    and ok :: "'s \<Rightarrow> bool"
  assumes commit: "ok s \<Longrightarrow> durably s sp = (s', Inr logged) \<Longrightarrow>
      logged = sp \<and> own s' = own s @ [sp] \<and> ok s'"
    and reject: "ok s \<Longrightarrow> durably s sp = (s', Inl err) \<Longrightarrow> own s' = own s \<and> ok s'"
begin

lemma mutate_cases:
  assumes "ok (ib_session ib)" "mutate durably t start cnt ins disc ib = (ib', r)"
  obtains (same) "own (ib_session ib') = own (ib_session ib)" "ok (ib_session ib')" "same_lists ib' ib"
      "ib_notes ib' = ib_notes ib" "\<And>x. r = Inr x \<Longrightarrow> x = []"
    | (spliced) i n where "i + n \<le> length (list_of t ib)"
      "validate_splice (normal_splice t i n ins disc) ib = (Inr () :: 'e inbox_error + unit)"
      "own (ib_session ib') = own (ib_session ib) @ [normal_splice t i n ins disc]" "ok (ib_session ib')"
      "same_lists ib' (set_list t (spliced i n ins (list_of t ib)) ib)"
      "r = Inr (splice_removed i n (list_of t ib))"
      "ib_notes ib' = ib_notes ib
         @ (if disc then map Discarded (splice_removed i n (list_of t ib)) else []) @ map Inserted ins"
proof -
  let ?i = "actual_start start (length (list_of t ib))"
  let ?n = "actual_delete cnt (length (list_of t ib) - ?i)"
  let ?sp = "normal_splice t ?i ?n ins disc"
  have le: "?i + ?n \<le> length (list_of t ib)"
    using actual_start_le [of start "length (list_of t ib)"]
      actual_delete_le [of cnt "length (list_of t ib) - ?i"] by linarith
  show thesis
  proof (cases "?n = 0 \<and> length ins = 0 \<or> validate_splice ?sp ib \<noteq> (Inr () :: 'e inbox_error + unit)")
    case True
    have "ib' = ib \<and> (\<forall>x. r = Inr x \<longrightarrow> x = [])"
    proof (cases "validate_splice ?sp ib :: 'e inbox_error + unit")
      case (Inl err)
      with assms(2) show ?thesis by (auto simp: mutate_def Let_def split: if_splits)
    next
      case (Inr u)
      with True assms(2) show ?thesis by (auto simp: mutate_def Let_def)
    qed
    with same assms(1) show thesis by simp
  next
    case False
    then have v: "validate_splice ?sp ib = (Inr () :: 'e inbox_error + unit)" by simp
    obtain s x where a: "durably (ib_session ib) ?sp = (s, x)" by (cases "durably (ib_session ib) ?sp")
    show thesis
    proof (cases x)
      case (Inl err)
      with a assms(2) False v have "ib' = ib\<lparr>ib_session := s\<rparr>" "r = Inl (AppendFailed err)"
        by (auto simp: mutate_def Let_def)
      with reject [OF assms(1)] a Inl same show thesis by (auto simp: same_lists_def)
    next
      case (Inr logged)
      note c = commit [OF assms(1) a [unfolded Inr]]
      have "same_lists (set_list t ms (ib\<lparr>ib_session := s\<rparr>)\<lparr>ib_notes := ns\<rparr>) (set_list t ms ib)" for ms ns
        by (cases t) (simp_all add: same_lists_def)
      with a assms(2) False v Inr c le spliced [of ?i ?n] show thesis
        by (auto simp: mutate_def Let_def)
    qed
  qed
qed

text \<open>The lists are always what a replay of the recorded splices gives.\<close>

lemma mutate_replays:
  assumes "ok (ib_session ib)" "rebuilds (own (ib_session ib)) ib"
    and "mutate durably t start cnt ins disc ib = (ib', r)"
  shows "ok (ib_session ib') \<and> rebuilds (own (ib_session ib')) ib'"
  using assms(1,3)
proof (cases rule: mutate_cases)
  case same
  with assms show ?thesis by (auto simp: rebuilds_def same_lists_def)
next
  case (spliced i n)
  have "apply_splice ib (normal_splice t i n ins disc)
      = (Inr (set_list t (Prelude.spliced i n ins (list_of t ib)) ib) :: 'e inbox_error + 's inbox)"
    using spliced(2) by (simp add: apply_splice_def)
  from rebuilds_snoc [OF assms(2) this] spliced(3,4,5) show ?thesis
    by (auto simp: rebuilds_def same_lists_def)
qed

lemma splice_replays:
  assumes "ok (ib_session ib)" "rebuilds (own (ib_session ib)) ib"
    and "splice_inbox durably t start cnt ins ib = (ib', r)"
  shows "ok (ib_session ib') \<and> rebuilds (own (ib_session ib')) ib'"
  by (rule mutate_replays [OF assms(1,2) assms(3) [unfolded splice_inbox_def]])

lemma exec_replays:
  assumes "ok (ib_session ib)" "rebuilds (own (ib_session ib)) ib" "inbox_exec durably c ib = (ib', ret)"
  shows "ok (ib_session ib') \<and> rebuilds (own (ib_session ib')) ib'"
proof (cases c)
  case Clear
  obtain ib1 r1 where m1: "splice_inbox durably NextStep (jsnat 0) (jsnat (length (ib_nextStep ib))) [] ib = (ib1, r1)"
    by fastforce
  obtain ib2 r2 where m2: "splice_inbox durably NextTurn (jsnat 0) (jsnat (length (ib_nextTurn ib1))) [] ib1 = (ib2, r2)"
    by fastforce
  note f1 = splice_replays [OF assms(1,2) m1]
  from f1 have f2: "ok (ib_session ib2) \<and> rebuilds (own (ib_session ib2)) ib2"
    using splice_replays m2 by blast
  from assms(3) Clear m1 m2 f1 f2 show ?thesis
    by (cases r1; cases r2) (auto simp: clear_inbox_def call_state_def)
next
  case (Claim target turn)
  obtain ib1 r1 where m1: "mutate durably NextStep (jsnat 0) (jsnat (length (ib_nextStep ib))) [] False ib = (ib1, r1)"
    by fastforce
  obtain ib2 r2 where m2: "mutate durably NextTurn (jsnat 0) (jsnat 1) [] False ib1 = (ib2, r2)"
    by fastforce
  note f1 = mutate_replays [OF assms(1,2) m1]
  from f1 have f2: "ok (ib_session ib2) \<and> rebuilds (own (ib_session ib2)) ib2"
    using mutate_replays m2 by blast
  have note_free: "rebuilds sps (b\<lparr>ib_notes := ns\<rparr>) = rebuilds sps b" for sps b ns
    by (simp add: rebuilds_def same_lists_def)
  from assms(3) Claim m1 m2 f1 f2 show ?thesis
    by (auto simp: claim_def call_state_def note_free Let_def split: sum.splits if_splits)
next
  case (ReplaceId i m)
  with assms show ?thesis
    by (auto simp: replace_message_def edit_message_def call_state_def split: prod.splits sum.splits option.splits
        dest: splice_replays)
next
  case (RemoveId i)
  with assms show ?thesis
    by (auto simp: remove_message_def edit_message_def call_state_def split: prod.splits sum.splits option.splits
        dest: splice_replays)
next
  case (AppendTo target m)
  with assms show ?thesis
    by (cases "append_message durably target m ib")
      (auto simp: append_message_def call_state_def dest: splice_replays)
next
  case (PrependTo target m)
  with assms show ?thesis
    by (cases "prepend_message durably target m ib")
      (auto simp: prepend_message_def call_state_def dest: splice_replays)
next
  case (Splice target start cnt ins)
  with assms show ?thesis
    by (cases "splice_inbox durably target start cnt ins ib") (auto simp: call_state_def dest: splice_replays)
qed

text \<open>A mutation moves messages between the lists and the ledger, or out to its caller.\<close>

lemma mutate_pending:
  assumes "ok (ib_session ib)" "mutate durably t start cnt [] False ib = (ib', Inr removed)"
  shows "pending_mset ib' + mset removed = pending_mset ib \<and> ib_notes ib' = ib_notes ib \<and> ok (ib_session ib')"
  using assms
proof (cases rule: mutate_cases)
  case same
  then show ?thesis by (auto simp: pending_mset_def same_lists_def)
next
  case (spliced i n)
  with pending_spliced [OF spliced(1,5)] show ?thesis by simp
qed

lemma splice_balanced:
  assumes "ok (ib_session ib)" "balanced before ib" "splice_inbox durably t start cnt ins ib = (ib', r)"
  shows "balanced before ib' \<and> ok (ib_session ib')"
  using assms(1) assms(3) [unfolded splice_inbox_def]
proof (cases rule: mutate_cases)
  case same
  with assms(2) show ?thesis by (auto simp: balanced_def pending_mset_def same_lists_def)
next
  case (spliced i n)
  have "pending_mset ib' + mset (splice_removed i n (list_of t ib)) = pending_mset ib + mset ins"
    by (rule pending_spliced [OF spliced(1,5)])
  with assms(2) spliced(4,7) show ?thesis
    by (simp add: balanced_def) (metis (no_types, lifting) add.assoc add.commute)
qed

lemma exec_balanced:
  assumes "ok (ib_session ib)" "balanced before ib" "inbox_exec durably c ib = (ib', ret)"
    and "\<And>target turn. c = Claim target turn \<Longrightarrow> ret"
  shows "balanced before ib'"
proof (cases c)
  case Clear
  obtain ib1 r1 where m1: "splice_inbox durably NextStep (jsnat 0) (jsnat (length (ib_nextStep ib))) [] ib = (ib1, r1)"
    by fastforce
  obtain ib2 r2 where m2: "splice_inbox durably NextTurn (jsnat 0) (jsnat (length (ib_nextTurn ib1))) [] ib1 = (ib2, r2)"
    by fastforce
  note f1 = splice_balanced [OF assms(1,2) m1]
  from f1 have f2: "balanced before ib2" using splice_balanced m2 by blast
  from assms(3) Clear m1 m2 f1 f2 show ?thesis
    by (cases r1; cases r2) (auto simp: clear_inbox_def call_state_def)
next
  case (Claim target turn)
  obtain ib1 r1 where m1: "mutate durably NextStep (jsnat 0) (jsnat (length (ib_nextStep ib))) [] False ib = (ib1, r1)"
    by fastforce
  obtain ib2 r2 where m2: "mutate durably NextTurn (jsnat 0) (jsnat 1) [] False ib1 = (ib2, r2)"
    by fastforce
  have ret: "ret" using assms(4) Claim by blast
  then obtain steps where r1: "r1 = Inr steps"
    using assms(3) Claim m1 by (cases r1) (auto simp: claim_def call_state_def)
  note f1 = mutate_pending [OF assms(1) m1 [unfolded r1]]
  show ?thesis
  proof (cases "target = NextTurn")
    case True
    with ret obtain turns where r2: "r2 = Inr turns"
      using assms(3) Claim m1 m2 r1 by (cases r2) (auto simp: claim_def call_state_def)
    from f1 mutate_pending [OF _ m2 [unfolded r2]] have
      "pending_mset ib2 + mset turns + mset steps = pending_mset ib" "ib_notes ib2 = ib_notes ib" by auto
    moreover have "ib' = ib2\<lparr>ib_notes := ib_notes ib2 @ map (\<lambda>m. Claimed m turn) (steps @ turns)\<rparr>"
      using assms(3) Claim m1 m2 r1 r2 True by (auto simp: claim_def call_state_def Let_def)
    ultimately show ?thesis using assms(2)
      by (simp add: balanced_def pending_mset_def ac_simps del: map_append)
  next
    case False
    then have "ib' = ib1\<lparr>ib_notes := ib_notes ib1 @ map (\<lambda>m. Claimed m turn) steps\<rparr>"
      using assms(3) Claim m1 r1 by (auto simp: claim_def call_state_def Let_def)
    with f1 assms(2) show ?thesis by (simp add: balanced_def pending_mset_def ac_simps)
  qed
next
  case (ReplaceId i m)
  with assms show ?thesis
    by (auto simp: replace_message_def edit_message_def call_state_def split: prod.splits sum.splits option.splits
        dest: splice_balanced)
next
  case (RemoveId i)
  with assms show ?thesis
    by (auto simp: remove_message_def edit_message_def call_state_def split: prod.splits sum.splits option.splits
        dest: splice_balanced)
next
  case (AppendTo target m)
  with assms show ?thesis
    by (cases "append_message durably target m ib")
      (auto simp: append_message_def call_state_def dest: splice_balanced)
next
  case (PrependTo target m)
  with assms show ?thesis
    by (cases "prepend_message durably target m ib")
      (auto simp: prepend_message_def call_state_def dest: splice_balanced)
next
  case (Splice target start cnt ins)
  with assms show ?thesis
    by (cases "splice_inbox durably target start cnt ins ib") (auto simp: call_state_def dest: splice_balanced)
qed

end

section \<open>An inbox on a session\<close>

definition session_durably ::
  "bool \<Rightarrow> (session_event \<Rightarrow> bool) \<Rightarrow> int \<Rightarrow> session \<Rightarrow> inbox_splice \<Rightarrow> session \<times> (session_error + inbox_splice)" where
  "session_durably appending accepts now se sp =
     (case append_event appending accepts now (InboxSpliced sp) None None se of
        (se', Inl err) \<Rightarrow> (se', Inl err)
      | (se', Inr e) \<Rightarrow> (se', Inr (the (splice_of (ev_data e)))))"

definition session_splices :: "session \<Rightarrow> inbox_splice list" where
  "session_splices se = own_splices (snd (ownEvents se))"

definition session_sound :: "session \<Rightarrow> bool" where
  "session_sound se \<longleftrightarrow>
     session_rel (se_inheritedEventCount se) se (se_log se) \<and> se_inheritedEventCount se \<le> length (se_log se)"

lemma session_splices_eq:
  assumes "session_sound se"
  shows "session_splices se = own_splices (drop (se_inheritedEventCount se) (se_log se))"
proof -
  from assms events_related [of "se_inheritedEventCount se" se "se_log se" "se_inheritedEventCount se" "length (se_log se)"]
  show ?thesis by (simp add: session_sound_def session_splices_def ownEvents_def slice_def)
qed

lemma own_splices_append: "own_splices (xs @ ys) = own_splices xs @ own_splices ys"
  by (simp add: own_splices_def List.map_filter_def)

lemma own_splices_single:
  "splice_of (ev_data e) = Some sp \<Longrightarrow> own_splices [e] = [sp]"
  "splice_of (ev_data e) = None \<Longrightarrow> own_splices [e] = []"
  by (simp_all add: own_splices_def List.map_filter_simps)

lemma serve_sound:
  assumes "session_sound se" "\<And>a f t d srcs op. c = AppendCall a f t d srcs op \<Longrightarrow> splice_of d = None"
  shows "session_sound (fst (session_serve se c)) \<and> session_splices (fst (session_serve se c)) = session_splices se"
proof -
  let ?i = "se_inheritedEventCount se" and ?se' = "fst (session_serve se c)"
  from assms(1) have rel: "session_rel ?i se (se_log se)" by (simp add: session_sound_def)
  from session_sim.still_related [OF rel, of c] have r: "session_rel ?i ?se' (fst (log_call ?i (se_log se) c))" .
  then have eq: "se_inheritedEventCount ?se' = ?i" "se_log ?se' = fst (log_call ?i (se_log se) c)"
    by (auto simp: session_rel_def)
  have log: "fst (log_call ?i (se_log se) c) = se_log se
      \<or> (\<exists>e. fst (log_call ?i (se_log se) c) = se_log se @ [e] \<and> splice_of (ev_data e) = None)"
  proof (cases c)
    case (AppendCall a f t d srcs op)
    from assms(2) [OF AppendCall] show ?thesis
      by (auto simp: AppendCall Let_def log_append_def candidate_def split: sum.splits if_splits)
  qed auto
  have sound: "session_sound ?se'"
    using r eq log assms(1) by (auto simp: session_sound_def)
  with log eq assms(1) show ?thesis
    by (auto simp: session_splices_eq session_sound_def own_splices_append own_splices_single)
qed

lemma durably_sound:
  assumes "session_sound se"
  shows "case session_durably appending accepts now se sp of
      (se', Inl err) \<Rightarrow> session_splices se' = session_splices se \<and> session_sound se'
    | (se', Inr logged) \<Rightarrow> logged = sp \<and> session_splices se' = session_splices se @ [sp] \<and> session_sound se'"
proof -
  let ?i = "se_inheritedEventCount se"
  from assms have rel: "session_rel ?i se (se_log se)" and i: "?i \<le> length (se_log se)"
    by (auto simp: session_sound_def)
  obtain se' r where a: "append_event appending accepts now (InboxSpliced sp) None None se = (se', r)"
    by fastforce
  let ?l = "log_append appending accepts now (InboxSpliced sp) None None (se_log se)"
  from append_related [OF rel, of appending accepts now "InboxSpliced sp" None None] a
  have ans: "append_answer r = append_answer ?l"
    and r': "session_rel ?i se' (case ?l of Inl _ \<Rightarrow> se_log se | Inr e \<Rightarrow> se_log se @ [e])" by auto
  from r' have eq: "se_inheritedEventCount se' = ?i"
    "se_log se' = (case ?l of Inl _ \<Rightarrow> se_log se | Inr e \<Rightarrow> se_log se @ [e])"
    by (auto simp: session_rel_def)
  have s': "session_sound se'" using r' eq i by (auto simp: session_sound_def split: sum.splits)
  show ?thesis
  proof (cases r)
    case (Inl err)
    with ans have "\<exists>err'. ?l = Inl err'" by (auto simp: append_answer_def split: sum.splits)
    with Inl a s' eq assms show ?thesis
      by (auto simp: session_durably_def session_splices_eq)
  next
    case (Inr e)
    with ans have l: "?l = Inr e" by (auto simp: append_answer_def split: sum.splits)
    then have "ev_data e = InboxSpliced sp"
      by (auto simp: log_append_def Let_def candidate_def split: if_splits sum.splits)
    with Inr a s' eq assms l i show ?thesis
      by (auto simp: session_durably_def session_splices_eq own_splices_append own_splices_single)
  qed
qed

interpretation session_inbox: durable_log "session_durably appending accepts now" session_splices session_sound
  for appending accepts now
proof
  show "logged = sp \<and> session_splices s' = session_splices s @ [sp] \<and> session_sound s'"
    if "session_sound s" "session_durably appending accepts now s sp = (s', Inr logged)" for s sp s' logged
    using durably_sound [where appending = appending and accepts = accepts and now = now and sp = sp, OF that(1)] that(2) by simp
  show "session_splices s' = session_splices s \<and> session_sound s'"
    if "session_sound s" "session_durably appending accepts now s sp = (s', Inl err)" for s sp s' err
    using durably_sound [where appending = appending and accepts = accepts and now = now and sp = sp, OF that(1)] that(2) by simp
qed

section \<open>Properties of the inbox\<close>

text \<open>
  What an agent does with its session: inbox calls (each with its own publication state, veto and
  clock) between calls on the session itself that append no inbox splice.
\<close>

datatype agent_call =
    OnInbox bool "session_event \<Rightarrow> bool" int inbox_op
  | OnSession session_call

fun foreign :: "agent_call \<Rightarrow> bool" where
  "foreign (OnSession (AppendCall _ _ _ d _ _)) = (splice_of d = None)"
| "foreign _ = True"

fun is_claim :: "inbox_op \<Rightarrow> bool" where
  "is_claim (Claim _ _) = True"
| "is_claim _ = False"

text \<open>The flag says that the call was no claim that threw.\<close>

fun agent_step :: "session inbox \<Rightarrow> agent_call \<Rightarrow> session inbox \<times> bool" where
  "agent_step ib (OnInbox appending accepts now c) =
     (let (ib', ret) = inbox_exec (session_durably appending accepts now) c ib in (ib', is_claim c \<longrightarrow> ret))"
| "agent_step ib (OnSession c) = (ib\<lparr>ib_session := fst (session_serve (ib_session ib) c)\<rparr>, True)"

fun agent_run :: "session inbox \<Rightarrow> agent_call list \<Rightarrow> session inbox \<times> bool" where
  "agent_run ib [] = (ib, True)"
| "agent_run ib (c # cs) =
     (let (ib', good) = agent_step ib c; (ib'', goods) = agent_run ib' cs in (ib'', good \<and> goods))"

definition following :: "session inbox \<Rightarrow> bool" where
  "following ib \<longleftrightarrow> session_sound (ib_session ib) \<and> rebuilds (session_splices (ib_session ib)) ib"

lemma agent_step_following:
  assumes "following ib" "foreign c" "agent_step ib c = (ib', good)"
  shows "following ib'" "good \<Longrightarrow> balanced before ib \<Longrightarrow> balanced before ib'"
proof -
  have "following ib' \<and> (good \<longrightarrow> balanced before ib \<longrightarrow> balanced before ib')"
  proof (cases c)
    case (OnInbox appending accepts now op)
    with assms(3) obtain ret where e: "inbox_exec (session_durably appending accepts now) op ib = (ib', ret)"
      and g: "good = (is_claim op \<longrightarrow> ret)" by (auto split: prod.splits)
    from assms(1) have f: "session_sound (ib_session ib)" "rebuilds (session_splices (ib_session ib)) ib"
      by (auto simp: following_def)
    have "ret" if "good" "op = Claim target turn" for target turn
      using that g by simp
    with session_inbox.exec_replays [OF f e] session_inbox.exec_balanced [OF f(1) _ e] show ?thesis
      by (auto simp: following_def)
  next
    case (OnSession sc)
    have "splice_of d = None" if "sc = AppendCall a f t d srcs op" for a f t d srcs op
      using assms(2) that OnSession by simp
    with serve_sound [of "ib_session ib" sc] assms OnSession show ?thesis
      by (auto simp: following_def rebuilds_def same_lists_def balanced_def pending_mset_def)
  qed
  then show "following ib'" "good \<Longrightarrow> balanced before ib \<Longrightarrow> balanced before ib'" by auto
qed

lemma agent_run_following:
  "following ib \<Longrightarrow> list_all foreign cs \<Longrightarrow> agent_run ib cs = (ib', goods) \<Longrightarrow>
   following ib' \<and> (goods \<longrightarrow> balanced before ib \<longrightarrow> balanced before ib')"
proof (induction cs arbitrary: ib goods)
  case Nil
  then show ?case by simp
next
  case (Cons c cs)
  obtain ib1 good where s: "agent_step ib c = (ib1, good)" by fastforce
  obtain gs where r: "agent_run ib1 cs = (ib', gs)" and "goods = (good \<and> gs)"
    using Cons.prems(3) s by (auto split: prod.splits)
  moreover note agent_step_following(1) [OF Cons.prems(1) _ s]
    agent_step_following(2) [OF Cons.prems(1) _ s, where before = before]
    Cons.IH [OF _ _ r] Cons.prems(2)
  ultimately show ?case by auto
qed

lemma start_following:
  assumes "construct restore sid seed header supplied now = Inr se"
    and "new_inbox se (session_splices se) = (Inr ib :: session_error inbox_error + session inbox)"
  shows "following ib" "ib_notes ib = []"
proof -
  have keep: "run apply_splice a sps = Inr b \<Longrightarrow> ib_session b = ib_session a \<and> ib_notes b = ib_notes a"
    for a b :: "session inbox" and sps
    by (induction sps arbitrary: a) (auto simp: rbind_Inr_iff apply_splice_def)
  from keep [OF assms(2) [unfolded new_inbox_def]] have "ib_session ib = se" "ib_notes ib = []"
    by (auto simp: empty_inbox_def)
  moreover have "session_sound se"
    using construct_rel(1) [OF assms(1)] construct_lineage [OF assms(1)]
    by (auto simp: session_sound_def lineage_ok_def)
  ultimately show "following ib" "ib_notes ib = []"
    using new_rebuilds [OF assms(2)] by (auto simp: following_def)
qed

text \<open>
  C13: the inbox survives a restart. Whatever an agent does with its inbox and its session, replaying
  the inbox splices among the session's own events succeeds and gives exactly the two live lists,
  also after calls that threw or were vetoed; and no message identity is pending twice.
\<close>

theorem inbox_replay_rebuilds_live_lists:
  assumes "construct restore sid seed header supplied now = Inr se"
    and "new_inbox se (session_splices se) = (Inr ib0 :: session_error inbox_error + session inbox)"
    and "list_all foreign cs" and "agent_run ib0 cs = (ib, goods)"
  shows "\<exists>new. new_inbox (ib_session ib) (session_splices (ib_session ib))
      = (Inr new :: session_error inbox_error + session inbox)
    \<and> ib_nextTurn new = ib_nextTurn ib \<and> ib_nextStep new = ib_nextStep ib
    \<and> distinct (map msg_id (ib_nextTurn ib @ ib_nextStep ib))"
proof -
  from agent_run_following [OF start_following(1) [OF assms(1,2)] assms(3,4)]
  have r: "rebuilds (session_splices (ib_session ib)) ib" by (simp add: following_def)
  from rebuilds_distinct [OF r] rebuilds_new [OF r, of "ib_session ib"] show ?thesis
    by (auto simp: same_lists_def ids_distinct_def)
qed

definition inbox_message :: "string \<Rightarrow> message" where
  "inbox_message i = \<lparr>msg_id = i, msg_role = User, msg_content = [TextBlock i], msg_source = UserSource\<rparr>"

definition sample_agent_calls :: "agent_call list" where
  "sample_agent_calls =
     [OnInbox False (\<lambda>_. True) 1 (AppendTo NextTurn (inbox_message ''a'')),
      OnInbox False (\<lambda>_. True) 2 (AppendTo NextStep (inbox_message ''b'')),
      OnInbox False (\<lambda>_. True) 3 (AppendTo NextStep (inbox_message ''a'')),
      OnInbox False (\<lambda>_. False) 4 (RemoveId ''b''),
      OnSession (AppendCall False (\<lambda>_. True) 5 (TurnStart 1) None None),
      OnInbox False (\<lambda>_. True) 6 (ReplaceId ''b'' (inbox_message ''c'')),
      OnInbox False (\<lambda>_. True) 7 (Claim NextTurn 1),
      OnInbox False (\<lambda>_. True) 8 (PrependTo NextTurn (inbox_message ''d''))]"

definition sample_inbox :: "session inbox" where
  "sample_inbox = empty_inbox sample_session"

lemma sample_inbox_new:
  "new_inbox sample_session (session_splices sample_session)
    = (Inr sample_inbox :: session_error inbox_error + session inbox)"
  by code_simp

lemma sample_inbox_run:
  "map msg_id (ib_nextTurn (fst (agent_run sample_inbox sample_agent_calls))) = [''d'']"
  "ib_nextStep (fst (agent_run sample_inbox sample_agent_calls)) = []"
  "snd (agent_run sample_inbox sample_agent_calls)"
  "length (removed_notes (ib_notes (fst (agent_run sample_inbox sample_agent_calls)))) = 3"
  by code_simp+

lemma sample_foreign: "list_all foreign sample_agent_calls"
  by (simp add: sample_agent_calls_def)

theorem inbox_replay_rebuilds_live_lists_witness:
  "\<exists>new. new_inbox (ib_session (fst (agent_run sample_inbox sample_agent_calls)))
      (session_splices (ib_session (fst (agent_run sample_inbox sample_agent_calls))))
      = (Inr new :: session_error inbox_error + session inbox)
    \<and> map msg_id (ib_nextTurn new) = [''d'']"
  using inbox_replay_rebuilds_live_lists [OF sample_construct sample_inbox_new sample_foreign
      surjective_pairing] sample_inbox_run(1) by auto

text \<open>
  C14: no prompt is lost and none is delivered twice. If no claim threw, the messages that were
  pending at first together with those inserted since are exactly the messages discarded or claimed
  together with those still pending, each counted as often as it occurs.
\<close>

theorem inbox_conserves_messages:
  assumes "construct restore sid seed header supplied now = Inr se"
    and "new_inbox se (session_splices se) = (Inr ib0 :: session_error inbox_error + session inbox)"
    and "list_all foreign cs" and "agent_run ib0 cs = (ib, True)"
  shows "pending_mset ib0 + mset (inserted_notes (ib_notes ib))
    = mset (removed_notes (ib_notes ib)) + pending_mset ib"
proof -
  note f = start_following [OF assms(1,2)]
  have "balanced (pending_mset ib0) ib0" using f(2) by (simp add: balanced_def)
  with agent_run_following [OF f(1) assms(3,4)] show ?thesis by (auto simp: balanced_def)
qed

theorem inbox_conserves_messages_witness:
  "mset (inserted_notes (ib_notes (fst (agent_run sample_inbox sample_agent_calls))))
    = mset (removed_notes (ib_notes (fst (agent_run sample_inbox sample_agent_calls))))
      + pending_mset (fst (agent_run sample_inbox sample_agent_calls))"
proof -
  have "agent_run sample_inbox sample_agent_calls = (fst (agent_run sample_inbox sample_agent_calls), True)"
    using sample_inbox_run(3) by (simp add: prod_eq_iff)
  from inbox_conserves_messages [OF sample_construct sample_inbox_new sample_foreign this]
  show ?thesis by (simp add: sample_inbox_def empty_inbox_def pending_mset_def)
qed

text \<open>
  The condition on claims is needed: when the second of the two splices of a claim is refused, the
  step input removed by the first is neither returned nor published.
\<close>

lemma claim_loses_when_second_splice_refused:
  "let veto = (\<lambda>e. case ev_data e of InboxSpliced sp \<Rightarrow> sp_target sp = NextStep | _ \<Rightarrow> True);
       calls = take 2 sample_agent_calls @ [OnInbox False veto 3 (Claim NextTurn 1)];
       ib = fst (agent_run sample_inbox calls)
   in map msg_id (inserted_notes (ib_notes ib)) = [''a'', ''b''] \<and> removed_notes (ib_notes ib) = []
      \<and> map msg_id (ib_nextTurn ib) = [''a''] \<and> ib_nextStep ib = []"
  by code_simp

end
