(* ===== verification/Session_Store.thy ===== *)
theory Session_Store
  imports Session_Log Session_Trace
begin

text \<open>
  The in-memory session store, class \<open>SessionStore\<close> of core/session/src/index.ts: preparing,
  entering, announcing and detaching sessions, publication of appends, identity minting and
  forking. Listeners run inside the synchronous dispatches and may call the store again, so an
  announcement and an append are two steps each, a begin and an end, with any other steps between
  them. Session objects and store entries are numbered; the numbers are the object identities the
  code compares. The results: creation and disposal are announced in pairs, no detach request is
  lost and none is honoured during a publication; a minted identity is fresh; and the seed of a
  fork is a prefix of its source that ends outside any turn.
\<close>

section \<open>State\<close>

record store_entry =
  en_id :: string
  en_session :: nat
  en_announced :: bool
  en_announcing :: bool
  en_appending :: bool
  en_detachRequested :: bool
  en_entered :: bool

datatype edge = Created nat | Disposed nat

record store_state =
  st_sessions :: "session list"
  st_entries :: "store_entry list"
  st_store :: "(string \<times> nat) list"
  st_attachments :: "(nat \<times> nat) list"
  st_counter :: nat
  st_edges :: "edge list"

definition empty_store :: store_state where
  "empty_store = \<lparr>st_sessions = [], st_entries = [], st_store = [], st_attachments = [], st_counter = 0,
     st_edges = []\<rparr>"

datatype store_error =
    SessionExists | AlreadyAttached | NotLive | AlreadyAnnounced | ConstructionFailed session_error
  | ListenerThrew | ReentrantAppend

definition set_entry :: "nat \<Rightarrow> (store_entry \<Rightarrow> store_entry) \<Rightarrow> store_state \<Rightarrow> store_state" where
  "set_entry n f st = st\<lparr>st_entries := (st_entries st)[n := f (st_entries st ! n)]\<rparr>"

section \<open>Preparing a session\<close>

text \<open>
  The \<open>do ... while\<close> loop over the counter. As many rounds as the store has entries, and one
  more, reach an unused identity (lemma \<open>mint_fresh\<close>).
\<close>

definition minted :: "nat \<Rightarrow> string" where
  "minted n = ''session-'' @ show_nat n"

fun mint :: "nat \<Rightarrow> nat \<Rightarrow> (string \<times> nat) list \<Rightarrow> (nat \<times> string) option" where
  "mint 0 counter store = None"
| "mint (Suc fuel) counter store =
     (let counter' = counter + 1; sessionId = minted counter' in
      if map_of store sessionId = None then Some (counter', sessionId) else mint fuel counter' store)"

record create_meta =
  cm_createdAt :: "json option"
  cm_cwd :: "json option"
  cm_parentSession :: "json option"
  cm_isSeeded :: "json option"
  cm_origin :: "json option"
  cm_delegationDepth :: "json option"
  cm_agentPreset :: "json option"

definition no_meta :: create_meta where
  "no_meta = \<lparr>cm_createdAt = None, cm_cwd = None, cm_parentSession = None, cm_isSeeded = None,
     cm_origin = None, cm_delegationDepth = None, cm_agentPreset = None\<rparr>"

text \<open>\<open>a ?? b\<close>.\<close>

definition coalesce :: "json option \<Rightarrow> json \<Rightarrow> json" where
  "coalesce a b = (case a of None \<Rightarrow> b | Some JNull \<Rightarrow> b | Some v \<Rightarrow> v)"

definition creation_header :: "string \<Rightarrow> create_meta \<Rightarrow> int \<Rightarrow> json" where
  "creation_header sid meta now =
     JObj ([(''version'', int_json SESSION_FORMAT_VERSION), (''id'', JStr sid),
            (''createdAt'', coalesce (cm_createdAt meta) (int_json now))]
       @ opt_field ''cwd'' (cm_cwd meta)
       @ opt_field ''parentSession'' (cm_parentSession meta)
       @ [(''isSeeded'', coalesce (cm_isSeeded meta) (JBool False))]
       @ opt_field ''origin'' (cm_origin meta)
       @ opt_field ''delegationDepth'' (cm_delegationDepth meta)
       @ opt_field ''agentPreset'' (cm_agentPreset meta))"

datatype prepare_options =
    CreateOptions "session_event list option" create_meta "nat option"
  | PersistenceOptions "session_event list" json nat

definition build_session :: "string \<Rightarrow> prepare_options \<Rightarrow> int \<Rightarrow> session_error + session" where
  "build_session sid opts now =
     (case opts of
        PersistenceOptions seed meta inherited \<Rightarrow> session_fromRestore sid seed meta inherited now
      | CreateOptions seed meta inherited \<Rightarrow>
          session_create sid seed (Some (creation_header sid meta now)) inherited now)"

text \<open>The prepared session is a new object; its number is returned. It is not in the store yet.\<close>

definition prepare :: "string option \<Rightarrow> prepare_options \<Rightarrow> int \<Rightarrow> store_state \<Rightarrow> store_state \<times> (store_error + nat)" where
  "prepare sid opts now st =
     (case (case sid of
              None \<Rightarrow> mint (length (st_store st) + 1) (st_counter st) (st_store st)
            | Some i \<Rightarrow> Some (st_counter st, i)) of
        None \<Rightarrow> (st, Inl SessionExists)
      | Some (counter', sessionId) \<Rightarrow>
          let st' = st\<lparr>st_counter := counter'\<rparr> in
          if map_of (st_store st) sessionId \<noteq> None then (st', Inl SessionExists)
          else (case build_session sessionId opts now of
                  Inl err \<Rightarrow> (st', Inl (ConstructionFailed err))
                | Inr se \<Rightarrow> (st'\<lparr>st_sessions := st_sessions st @ [se]\<rparr>, Inr (length (st_sessions st)))))"

definition session_id :: "session \<Rightarrow> string" where
  "session_id se = (case str_of (se_header se) ''id'' of Some i \<Rightarrow> i | None \<Rightarrow> [])"

section \<open>Entering, announcing, detaching\<close>

text \<open>\<open>enter\<close> returns the detach capability: the number of the new entry.\<close>

definition enter :: "nat \<Rightarrow> store_state \<Rightarrow> store_error + store_state \<times> nat" where
  "enter s st =
     (let sid = session_id (st_sessions st ! s); n = length (st_entries st) in
      if map_of (st_store st) sid \<noteq> None then Inl SessionExists
      else if map_of (st_attachments st) s \<noteq> None then Inl AlreadyAttached
      else Inr (st\<lparr>st_entries := st_entries st @
                     [\<lparr>en_id = sid, en_session = s, en_announced = False, en_announcing = False,
                       en_appending = False, en_detachRequested = False, en_entered = True\<rparr>],
                   st_store := map_set sid n (st_store st),
                   st_attachments := map_set s n (st_attachments st)\<rparr>, n))"

definition detachEntered :: "nat \<Rightarrow> store_state \<Rightarrow> store_state" where
  "detachEntered n st =
     (let st = set_entry n (\<lambda>e. e\<lparr>en_detachRequested := False\<rparr>) st; e = st_entries st ! n in
      if map_of (st_store st) (en_id e) \<noteq> Some n then st
      else
        let st = st\<lparr>st_store := map_delete (en_id e) (st_store st),
                    st_attachments := map_delete (en_session e) (st_attachments st)\<rparr> in
        if en_announced e then st\<lparr>st_edges := st_edges st @ [Disposed n]\<rparr> else st)"

definition detach :: "nat \<Rightarrow> store_state \<Rightarrow> store_state" where
  "detach n st =
     (let e = st_entries st ! n in
      if \<not> en_entered e then st
      else
        let st = set_entry n (\<lambda>e. e\<lparr>en_entered := False\<rparr>) st in
        if en_announcing e \<or> en_appending e
        then set_entry n (\<lambda>e. e\<lparr>en_detachRequested := True\<rparr>) st
        else detachEntered n st)"

definition liveEntryFor :: "nat \<Rightarrow> store_state \<Rightarrow> store_error + nat" where
  "liveEntryFor s st =
     (case map_of (st_attachments st) s of
        None \<Rightarrow> Inl NotLive
      | Some n \<Rightarrow> if map_of (st_store st) (en_id (st_entries st ! n)) \<noteq> Some n then Inl NotLive else Inr n)"

text \<open>\<open>announce\<close> up to its dispatch, and its \<open>finally\<close> block.\<close>

definition announce_begin :: "nat \<Rightarrow> store_state \<Rightarrow> store_error + store_state" where
  "announce_begin s st =
     rbind (liveEntryFor s st) (\<lambda>n.
       if en_announced (st_entries st ! n) \<or> en_announcing (st_entries st ! n) then Inl AlreadyAnnounced
       else Inr ((set_entry n (\<lambda>e. e\<lparr>en_announced := True, en_announcing := True\<rparr>) st)
                   \<lparr>st_edges := st_edges st @ [Created n]\<rparr>))"

definition announce_end :: "nat \<Rightarrow> store_state \<Rightarrow> store_state" where
  "announce_end n st =
     (let st = set_entry n (\<lambda>e. e\<lparr>en_announcing := False\<rparr>) st; e = st_entries st ! n in
      if en_detachRequested e \<and> \<not> en_appending e then detachEntered n st else st)"

text \<open>
  An append to an attached session: the reentry check and the flag, the append itself with the
  dispatch's verdict, and the \<open>finally\<close> block. \<open>append_begin\<close> is for the session object \<open>s\<close>.
\<close>

definition append_begin ::
  "nat \<Rightarrow> (session_event \<Rightarrow> bool) \<Rightarrow> int \<Rightarrow> event_data \<Rightarrow> json option \<Rightarrow> json option \<Rightarrow> store_state \<Rightarrow>
   store_state \<times> (session_error + session_event)" where
  "append_begin s accepts now d srcs op st =
     (let entry = map_of (st_attachments st) s;
          appending = (case entry of Some n \<Rightarrow> en_appending (st_entries st ! n) | None \<Rightarrow> False);
          (se', r) = append_event appending accepts now d srcs op (st_sessions st ! s);
          st' = st\<lparr>st_sessions := (st_sessions st)[s := se']\<rparr> in
      (case (r, entry) of
         (Inr e, Some n) \<Rightarrow> (set_entry n (\<lambda>e. e\<lparr>en_appending := True\<rparr>) st', Inr e)
       | _ \<Rightarrow> (st', r)))"

definition append_end :: "nat \<Rightarrow> store_state \<Rightarrow> store_state" where
  "append_end n st =
     (let st = set_entry n (\<lambda>e. e\<lparr>en_appending := False\<rparr>) st; e = st_entries st ! n in
      if en_detachRequested e \<and> \<not> en_announcing e then detachEntered n st else st)"

section \<open>Lookup\<close>

definition get_session :: "string \<Rightarrow> store_state \<Rightarrow> nat option" where
  "get_session sid st = map_option (\<lambda>n. en_session (st_entries st ! n)) (map_of (st_store st) sid)"

definition list_sessions :: "store_state \<Rightarrow> nat list" where
  "list_sessions st = map (\<lambda>(_, n). en_session (st_entries st ! n)) (st_store st)"

section \<open>Creation\<close>

text \<open>
  \<open>create\<close>: prepare, enter and announce. \<open>listeners\<close> is what the creation listeners do to the
  store, and whether they all return; a throw rolls the entry back through its detach capability.
\<close>

definition create ::
  "string option \<Rightarrow> prepare_options \<Rightarrow> int \<Rightarrow> (store_state \<Rightarrow> store_state \<times> bool) \<Rightarrow> store_state \<Rightarrow>
   store_state \<times> (store_error + nat)" where
  "create sid opts now listeners st =
     (case prepare sid opts now st of
        (st1, Inl err) \<Rightarrow> (st1, Inl err)
      | (st1, Inr s) \<Rightarrow>
          (case enter s st1 of
             Inl err \<Rightarrow> (st1, Inl err)
           | Inr (st2, n) \<Rightarrow>
               (case announce_begin s st2 of
                  Inl err \<Rightarrow> (detach n st2, Inl err)
                | Inr st3 \<Rightarrow>
                    let (st4, returned) = listeners st3; st5 = announce_end n st4 in
                    if returned then (st5, Inr s) else (detach n st5, Inl ListenerThrew))))"

section \<open>Forking\<close>

datatype fork_error =
    SESSION_NOT_FOUND | SESSION_NOT_LIVE | SESSION_ALREADY_EXISTS | INVALID_BOUNDARY | OPEN_TURN
  | CreateFailed store_error

fun is_turn_boundary :: "event_data \<Rightarrow> bool" where
  "is_turn_boundary (TurnStart _) = True"
| "is_turn_boundary (TurnEnd _ _) = True"
| "is_turn_boundary _ = False"

fun is_turn_start :: "event_data \<Rightarrow> bool" where
  "is_turn_start (TurnStart _) = True"
| "is_turn_start _ = False"

definition ends_in_open_turn :: "session_event list \<Rightarrow> bool" where
  "ends_in_open_turn events =
     (case find_last (\<lambda>e. is_turn_boundary (ev_data e)) events of
        Some e \<Rightarrow> is_turn_start (ev_data e)
      | None \<Rightarrow> False)"

definition seed_to :: "session_event list \<Rightarrow> jsnum \<Rightarrow> fork_error + session_event list" where
  "seed_to log boundary =
     (if \<not> isSafeInteger boundary \<or> num_int boundary < 0 then Inl INVALID_BOUNDARY
      else
        let b = nat (num_int boundary) in
        if length log \<le> b then Inl INVALID_BOUNDARY
        else if ev_seq (log ! b) \<noteq> b then Inl INVALID_BOUNDARY
        else
          let events = slice 0 (b + 1) log in
          if ends_in_open_turn events then Inl OPEN_TURN else Inr events)"

definition forkSeed :: "session_event list \<Rightarrow> jsnum option \<Rightarrow> fork_error + session_event list" where
  "forkSeed log requested =
     (case requested of
        Some boundary \<Rightarrow> seed_to log boundary
      | None \<Rightarrow>
          (case last_of log of
             None \<Rightarrow> Inr []
           | Some e \<Rightarrow> seed_to log (NInt (int (ev_seq e)))))"

datatype fork_source = BySession nat | ById string

definition resolveForkSource :: "fork_source \<Rightarrow> store_state \<Rightarrow> fork_error + nat" where
  "resolveForkSource source st =
     (case source of
        ById sid \<Rightarrow> (case get_session sid st of None \<Rightarrow> Inl SESSION_NOT_FOUND | Some s \<Rightarrow> Inr s)
      | BySession s \<Rightarrow>
          (case get_session (session_id (st_sessions st ! s)) st of
             None \<Rightarrow> Inl SESSION_NOT_FOUND
           | Some live \<Rightarrow> if live \<noteq> s then Inl SESSION_NOT_LIVE else Inr s))"

definition fork_options :: "session \<Rightarrow> session_event list \<Rightarrow> prepare_options" where
  "fork_options source seed =
     CreateOptions (Some seed)
       (no_meta\<lparr>cm_cwd := jget (se_header source) ''cwd'',
                cm_parentSession := Some (JStr (session_id source)), cm_isSeeded := Some (JBool True)\<rparr>)
       (Some (length seed))"

definition fork ::
  "fork_source \<Rightarrow> jsnum option \<Rightarrow> string option \<Rightarrow> int \<Rightarrow> (store_state \<Rightarrow> store_state \<times> bool) \<Rightarrow> store_state \<Rightarrow>
   store_state \<times> (fork_error + nat)" where
  "fork source boundary childId now listeners st =
     (if (case childId of Some c \<Rightarrow> get_session c st \<noteq> None | None \<Rightarrow> False) then (st, Inl SESSION_ALREADY_EXISTS)
      else case resolveForkSource source st of
        Inl err \<Rightarrow> (st, Inl err)
      | Inr s \<Rightarrow>
          (case forkSeed (se_log (st_sessions st ! s)) boundary of
             Inl err \<Rightarrow> (st, Inl err)
           | Inr seed \<Rightarrow>
               (case create childId (fork_options (st_sessions st ! s) seed) now listeners st of
                  (st', Inl err) \<Rightarrow> (st', Inl (CreateFailed err))
                | (st', Inr child) \<Rightarrow> (st', Inr child))))"

section \<open>Minted identities are fresh\<close>

lemma minted_inject: "minted m = minted n \<longleftrightarrow> m = n"
  by (simp add: minted_def)

lemma mint_Some:
  "mint fuel c store = Some (c', sid) \<Longrightarrow> map_of store sid = None \<and> c < c' \<and> sid = minted c'"
proof (induction fuel arbitrary: c)
  case (Suc fuel)
  show ?case
  proof (cases "map_of store (minted (c + 1)) = None")
    case True
    with Suc.prems show ?thesis by (auto simp: Let_def)
  next
    case False
    with Suc.prems have "mint fuel (c + 1) store = Some (c', sid)" by (auto simp: Let_def)
    from Suc.IH [OF this] show ?thesis by auto
  qed
qed simp

lemma mint_None:
  "mint fuel c store = None \<Longrightarrow> minted ` {c <.. c + fuel} \<subseteq> fst ` set store"
proof (induction fuel arbitrary: c)
  case (Suc fuel)
  then have used: "map_of store (minted (c + 1)) \<noteq> None" and rest: "mint fuel (c + 1) store = None"
    by (auto simp: Let_def split: if_splits)
  from used have "minted (c + 1) \<in> fst ` set store"
    by (metis map_of_eq_None_iff)
  moreover have "{c <.. c + Suc fuel} = insert (c + 1) {c + 1 <.. c + 1 + fuel}" by auto
  ultimately show ?case using Suc.IH [OF rest] by auto
qed simp

text \<open>One round more than the store has entries reaches an unused identity.\<close>

lemma mint_fresh: "\<exists>c' sid. mint (length store + 1) c store = Some (c', sid) \<and> map_of store sid = None"
proof (cases "mint (length store + 1) c store")
  case None
  let ?K = "{c <.. c + (length store + 1)}"
  have "inj_on minted ?K" by (auto intro: inj_onI simp: minted_inject)
  then have "card (minted ` ?K) = length store + 1" by (simp add: card_image)
  moreover have "card (minted ` ?K) \<le> card (fst ` set store)"
    using mint_None [OF None] by (intro card_mono) auto
  moreover have "card (fst ` set store) \<le> length store"
    by (metis card_length length_map set_map)
  ultimately show ?thesis by simp
next
  case (Some p)
  with mint_Some show ?thesis by (cases p) blast
qed

section \<open>The lifecycle of an entry\<close>

definition live :: "store_state \<Rightarrow> nat \<Rightarrow> bool" where
  "live st n \<longleftrightarrow> map_of (st_store st) (en_id (st_entries st ! n)) = Some n"

definition edges_of :: "nat \<Rightarrow> edge list \<Rightarrow> edge list" where
  "edges_of n es = filter (\<lambda>e. e = Created n \<or> e = Disposed n) es"

lemma edges_of_snoc [simp]:
  "edges_of n (es @ [Created m]) = edges_of n es @ (if m = n then [Created m] else [])"
  "edges_of n (es @ [Disposed m]) = edges_of n es @ (if m = n then [Disposed m] else [])"
  by (simp_all add: edges_of_def)

text \<open>The steps the store can take, those of listeners in the middle of a dispatch included.\<close>

inductive store_step :: "store_state \<Rightarrow> store_state \<Rightarrow> bool" where
  step_prepare: "store_step st (fst (prepare sid opts now st))"
| step_enter: "s < length (st_sessions st) \<Longrightarrow> enter s st = Inr (st', n) \<Longrightarrow> store_step st st'"
| step_announce_begin: "announce_begin s st = Inr st' \<Longrightarrow> store_step st st'"
| step_announce_end: "n < length (st_entries st) \<Longrightarrow> en_announcing (st_entries st ! n) \<Longrightarrow>
    store_step st (announce_end n st)"
| step_append_begin: "store_step st (fst (append_begin s accepts now d srcs op st))"
| step_append_end: "n < length (st_entries st) \<Longrightarrow> en_appending (st_entries st ! n) \<Longrightarrow>
    store_step st (append_end n st)"
| step_detach: "n < length (st_entries st) \<Longrightarrow> store_step st (detach n st)"

inductive store_reachable :: "store_state \<Rightarrow> bool" where
  reach_empty: "store_reachable empty_store"
| reach_step: "store_reachable st \<Longrightarrow> store_step st st' \<Longrightarrow> store_reachable st'"

inductive_cases store_step_cases: "store_step st st'"

text \<open>
  The invariant: the two maps agree; an entry in publication is live; a live entry still holds its
  detach capability or has a request waiting for the publication to end; and the edges published
  for an entry are those its state calls for.
\<close>

definition entry_ok :: "store_state \<Rightarrow> nat \<Rightarrow> bool" where
  "entry_ok st n \<longleftrightarrow>
     (let e = st_entries st ! n in
        (en_announcing e \<longrightarrow> en_announced e)
      \<and> (en_announcing e \<or> en_appending e \<longrightarrow> live st n)
      \<and> (en_detachRequested e \<longrightarrow> en_announcing e \<or> en_appending e)
      \<and> (live st n \<longleftrightarrow> en_entered e \<or> en_detachRequested e)
      \<and> (en_entered e \<longrightarrow> \<not> en_detachRequested e)
      \<and> (live st n \<longrightarrow> map_of (st_attachments st) (en_session e) = Some n)
      \<and> edges_of n (st_edges st) = (if en_announced e then [Created n] else [])
           @ (if en_announced e \<and> \<not> live st n then [Disposed n] else []))"

definition maps_ok :: "store_state \<Rightarrow> bool" where
  "maps_ok st \<longleftrightarrow>
     (\<forall>i n. map_of (st_store st) i = Some n \<longrightarrow> n < length (st_entries st) \<and> en_id (st_entries st ! n) = i)
   \<and> (\<forall>s n. map_of (st_attachments st) s = Some n \<longrightarrow>
        n < length (st_entries st) \<and> en_session (st_entries st ! n) = s \<and> live st n)
   \<and> (\<forall>n \<ge> length (st_entries st). edges_of n (st_edges st) = [])"

definition store_ok :: "store_state \<Rightarrow> bool" where
  "store_ok st \<longleftrightarrow> maps_ok st \<and> (\<forall>n < length (st_entries st). entry_ok st n)"

lemma empty_store_ok: "store_ok empty_store"
  by (simp add: store_ok_def maps_ok_def empty_store_def edges_of_def)

text \<open>Changing one entry's flags, with everything else as it was.\<close>

lemma set_entry_simps [simp]:
  "st_sessions (set_entry n f st) = st_sessions st" "st_store (set_entry n f st) = st_store st"
  "st_attachments (set_entry n f st) = st_attachments st" "st_edges (set_entry n f st) = st_edges st"
  "st_entries (set_entry n f st) = (st_entries st)[n := f (st_entries st ! n)]"
  by (simp_all add: set_entry_def)

lemma live_set_entry:
  assumes "\<And>e. en_id (f e) = en_id e"
  shows "live (set_entry n f st) m = live st m"
  using assms
  by (cases "m = n"; cases "n < length (st_entries st)") (simp_all add: live_def list_update_beyond)

lemma store_ok_set_entry:
  assumes ok: "store_ok st" and f: "\<And>e. en_id (f e) = en_id e" "\<And>e. en_session (f e) = en_session e"
    and n: "n < length (st_entries st) \<Longrightarrow> entry_ok (set_entry n f st) n"
  shows "store_ok (set_entry n f st)"
proof -
  have "entry_ok (set_entry n f st) m" if "m < length (st_entries st)" "m \<noteq> n" for m
    using ok that live_set_entry [OF f(1), of n st m]
    by (auto simp: store_ok_def entry_ok_def Let_def)
  moreover have same: "en_id ((st_entries st)[n := f (st_entries st ! n)] ! m) = en_id (st_entries st ! m)"
    "en_session ((st_entries st)[n := f (st_entries st ! n)] ! m) = en_session (st_entries st ! m)" for m
    using f by (cases "m = n"; cases "n < length (st_entries st)"; simp add: list_update_beyond)+
  have "maps_ok (set_entry n f st)"
    using ok live_set_entry [OF f(1), of n st]
    by (auto simp: store_ok_def maps_ok_def same)
  ultimately show ?thesis using n by (auto simp: store_ok_def)
qed

lemma maps_okI:
  assumes "\<And>i n. map_of (st_store st) i = Some n \<Longrightarrow>
      n < length (st_entries st) \<and> en_id (st_entries st ! n) = i"
    and "\<And>s n. map_of (st_attachments st) s = Some n \<Longrightarrow>
      n < length (st_entries st) \<and> en_session (st_entries st ! n) = s \<and> live st n"
    and "\<And>n. length (st_entries st) \<le> n \<Longrightarrow> edges_of n (st_edges st) = []"
  shows "maps_ok st"
  using assms by (simp add: maps_ok_def)

lemma maps_okD:
  assumes "maps_ok st"
  shows "map_of (st_store st) i = Some n \<Longrightarrow> n < length (st_entries st) \<and> en_id (st_entries st ! n) = i"
    "map_of (st_attachments st) s = Some n \<Longrightarrow>
      n < length (st_entries st) \<and> en_session (st_entries st ! n) = s \<and> live st n"
    "length (st_entries st) \<le> n \<Longrightarrow> edges_of n (st_edges st) = []"
  using assms by (simp_all add: maps_ok_def)

lemma entry_ok_cong:
  assumes "st_entries st' ! n = st_entries st ! n" "live st' n = live st n"
    "map_of (st_attachments st') (en_session (st_entries st ! n))
      = map_of (st_attachments st) (en_session (st_entries st ! n))"
    "edges_of n (st_edges st') = edges_of n (st_edges st)"
  shows "entry_ok st' n = entry_ok st n"
  using assms by (simp add: entry_ok_def Let_def)

lemma store_ok_cong:
  assumes "st_entries st' = st_entries st" "st_store st' = st_store st"
    "st_attachments st' = st_attachments st" "st_edges st' = st_edges st"
  shows "store_ok st' = store_ok st"
  using assms by (simp add: store_ok_def maps_ok_def entry_ok_def live_def Let_def)

lemma store_ok_entry: "store_ok st \<Longrightarrow> n < length (st_entries st) \<Longrightarrow> entry_ok st n"
  by (simp add: store_ok_def)

lemma enter_ok:
  assumes ok: "store_ok st" and e: "enter s st = Inr (st', n)"
  shows "store_ok st'"
proof -
  let ?sid = "session_id (st_sessions st ! s)"
  from e have new: "map_of (st_store st) ?sid = None" "map_of (st_attachments st) s = None"
    and n: "n = length (st_entries st)"
    and st': "st_entries st' = st_entries st @
        [\<lparr>en_id = ?sid, en_session = s, en_announced = False, en_announcing = False,
          en_appending = False, en_detachRequested = False, en_entered = True\<rparr>]"
      "st_store st' = map_set ?sid n (st_store st)"
      "st_attachments st' = map_set s n (st_attachments st)" "st_edges st' = st_edges st"
    by (auto simp: enter_def Let_def split: if_splits)
  have maps: "maps_ok st" using ok by (simp add: store_ok_def)
  have live': "live st' m = (if m = n then True else live st m)" if "m \<le> n" for m
    using that new n maps by (auto simp: live_def st' nth_append maps_ok_def)
  have "entry_ok st' m" if m: "m < n" for m
  proof -
    have "map_of (st_attachments st) (en_session (st_entries st ! m)) = None \<Longrightarrow> \<not> live st m"
      using store_ok_entry [OF ok] m n by (auto simp: entry_ok_def Let_def)
    then have "entry_ok st' m = entry_ok st m"
      using m n live' [of m] new
      by (auto simp: entry_ok_def Let_def st' nth_append)
    with store_ok_entry [OF ok] m n show ?thesis by simp
  qed
  moreover have "entry_ok st' n"
    using live' [of n] maps n by (auto simp: entry_ok_def Let_def st' nth_append maps_ok_def)
  moreover have "maps_ok st'"
  proof (rule maps_okI)
    show "m < length (st_entries st') \<and> en_id (st_entries st' ! m) = i"
      if "map_of (st_store st') i = Some m" for i m
      using that maps_okD(1) [OF maps, of i m] n by (auto simp: st' nth_append split: if_splits)
    show "m < length (st_entries st') \<and> en_session (st_entries st' ! m) = t \<and> live st' m"
      if "map_of (st_attachments st') t = Some m" for t m
      using that maps_okD(2) [OF maps, of t m] live' [of m] n
      by (auto simp: st' nth_append split: if_splits)
  qed (use maps_okD(3) [OF maps] in \<open>simp add: st'\<close>)
  ultimately show ?thesis using n by (auto simp: store_ok_def st' less_Suc_eq)
qed

text \<open>Removing an entry that is not in publication and whose capability is spent.\<close>

lemma detachEntered_ok:
  assumes n: "n < length (st_entries st)" and maps: "maps_ok st"
    and others: "\<And>m. m < length (st_entries st) \<Longrightarrow> m \<noteq> n \<Longrightarrow> entry_ok st m"
    and live: "live st n" and att: "map_of (st_attachments st) (en_session (st_entries st ! n)) = Some n"
    and quiet: "\<not> en_announcing (st_entries st ! n)" "\<not> en_appending (st_entries st ! n)"
      "\<not> en_entered (st_entries st ! n)"
    and edges: "edges_of n (st_edges st) = (if en_announced (st_entries st ! n) then [Created n] else [])"
  shows "store_ok (detachEntered n st)"
proof -
  let ?e = "st_entries st ! n" and ?st' = "detachEntered n st"
  have st': "st_entries ?st' = (st_entries st)[n := ?e\<lparr>en_detachRequested := False\<rparr>]"
    "st_store ?st' = map_delete (en_id ?e) (st_store st)"
    "st_attachments ?st' = map_delete (en_session ?e) (st_attachments st)"
    "st_edges ?st' = st_edges st @ (if en_announced ?e then [Disposed n] else [])"
    using n live by (auto simp: detachEntered_def Let_def live_def)
  have live': "live ?st' m = (m \<noteq> n \<and> live st m)" if "m < length (st_entries st)" for m
    using live n that by (auto simp: live_def st' nth_list_update)
  have "entry_ok ?st' m" if m: "m < length (st_entries st)" for m
  proof (cases "m = n")
    case True
    then show ?thesis
      using quiet edges n live' [OF n] by (simp add: entry_ok_def Let_def st')
  next
    case False
    have "entry_ok ?st' m = entry_ok st m"
      using False others [OF m False] att live' [OF m] m
      by (auto simp: entry_ok_def Let_def st')
    with others [OF m False] show ?thesis by simp
  qed
  moreover have "maps_ok ?st'"
  proof (rule maps_okI)
    show "m < length (st_entries ?st') \<and> en_id (st_entries ?st' ! m) = i"
      if "map_of (st_store ?st') i = Some m" for i m
      using that maps_okD(1) [OF maps, of i m] n by (cases "m = n") (auto simp: st' split: if_splits)
    show "m < length (st_entries ?st') \<and> en_session (st_entries ?st' ! m) = t \<and> live ?st' m"
      if "map_of (st_attachments ?st') t = Some m" for t m
      using that maps_okD(2) [OF maps, of t m] live' [of m] n
      by (cases "m = n") (auto simp: st' split: if_splits)
    show "edges_of m (st_edges ?st') = []" if "length (st_entries ?st') \<le> m" for m
      using that maps_okD(3) [OF maps, of m] n by (auto simp: st')
  qed
  ultimately show ?thesis by (simp add: store_ok_def st')
qed

text \<open>Ending a publication, and running the detach it may have held back.\<close>

lemma entry_facts:
  assumes "store_ok st" "n < length (st_entries st)"
  shows "en_announcing (st_entries st ! n) \<Longrightarrow> en_announced (st_entries st ! n)"
    "en_announcing (st_entries st ! n) \<or> en_appending (st_entries st ! n) \<Longrightarrow> live st n"
    "en_detachRequested (st_entries st ! n) \<Longrightarrow>
       (en_announcing (st_entries st ! n) \<or> en_appending (st_entries st ! n)) \<and> \<not> en_entered (st_entries st ! n)"
    "live st n \<longleftrightarrow> en_entered (st_entries st ! n) \<or> en_detachRequested (st_entries st ! n)"
    "live st n \<Longrightarrow> map_of (st_attachments st) (en_session (st_entries st ! n)) = Some n"
    "edges_of n (st_edges st) = (if en_announced (st_entries st ! n) then [Created n] else [])
       @ (if en_announced (st_entries st ! n) \<and> \<not> live st n then [Disposed n] else [])"
  using store_ok_entry [OF assms] by (auto simp: entry_ok_def Let_def)

lemma unpublish_ok:
  assumes ok: "store_ok st" and n: "n < length (st_entries st)"
    and f: "\<And>e. en_id (f e) = en_id e" "\<And>e. en_session (f e) = en_session e"
      "en_announced (f (st_entries st ! n)) = en_announced (st_entries st ! n)"
      "en_entered (f (st_entries st ! n)) = en_entered (st_entries st ! n)"
      "en_detachRequested (f (st_entries st ! n)) = en_detachRequested (st_entries st ! n)"
      "en_announcing (f (st_entries st ! n)) \<Longrightarrow> en_announcing (st_entries st ! n)"
      "en_appending (f (st_entries st ! n)) \<Longrightarrow> en_appending (st_entries st ! n)"
    and quiet: "st' = (if en_detachRequested (st_entries st ! n)
        \<and> \<not> en_announcing (f (st_entries st ! n)) \<and> \<not> en_appending (f (st_entries st ! n))
      then detachEntered n (set_entry n f st) else set_entry n f st)"
  shows "store_ok st'"
proof -
  note facts = entry_facts [OF ok n]
  have live': "live (set_entry n f st) m = live st m" for m by (rule live_set_entry [OF f(1)])
  show ?thesis
  proof (cases "en_detachRequested (st_entries st ! n)
      \<and> \<not> en_announcing (f (st_entries st ! n)) \<and> \<not> en_appending (f (st_entries st ! n))")
    case True
    have "entry_ok (set_entry n f st) m" if "m < length (st_entries st)" "m \<noteq> n" for m
      using store_ok_entry [OF ok that(1)] entry_ok_cong [of "set_entry n f st" m st] that(2) live' [of m]
      by simp
    moreover have "maps_ok (set_entry n f st)"
    proof (rule maps_okI)
      have maps: "maps_ok st" using ok by (simp add: store_ok_def)
      show "m < length (st_entries (set_entry n f st)) \<and> en_id (st_entries (set_entry n f st) ! m) = i"
        if "map_of (st_store (set_entry n f st)) i = Some m" for i m
        using that maps_okD(1) [OF maps, of i m] n f(1) by (cases "m = n") auto
      show "m < length (st_entries (set_entry n f st)) \<and> en_session (st_entries (set_entry n f st) ! m) = t
          \<and> live (set_entry n f st) m"
        if "map_of (st_attachments (set_entry n f st)) t = Some m" for t m
        using that maps_okD(2) [OF maps, of t m] n f(2) live' by (cases "m = n") auto
    qed (use ok in \<open>simp add: store_ok_def maps_ok_def\<close>)
    moreover have "live st n" using facts(4) True by simp
    ultimately show ?thesis
      using True facts n f live' unfolding quiet
      by (auto intro!: detachEntered_ok)
  next
    case False
    have "entry_ok (set_entry n f st) n"
      using facts n f live' False unfolding entry_ok_def Let_def by auto
    then have "store_ok (set_entry n f st)"
      by (intro store_ok_set_entry [OF ok f(1,2)])
    with False quiet show ?thesis by auto
  qed
qed

lemma announce_end_ok:
  assumes "store_ok st" "n < length (st_entries st)"
  shows "store_ok (announce_end n st)"
  by (rule unpublish_ok [OF assms, where f = "\<lambda>e. e\<lparr>en_announcing := False\<rparr>"])
    (use assms(2) in \<open>auto simp: announce_end_def Let_def\<close>)

lemma append_end_ok:
  assumes "store_ok st" "n < length (st_entries st)"
  shows "store_ok (append_end n st)"
  by (rule unpublish_ok [OF assms, where f = "\<lambda>e. e\<lparr>en_appending := False\<rparr>"])
    (use assms(2) in \<open>auto simp: append_end_def Let_def\<close>)

lemma liveEntryFor_Inr:
  assumes "store_ok st" "liveEntryFor s st = Inr n"
  shows "n < length (st_entries st)" "live st n"
  using assms maps_okD(2) [of st s n]
  by (auto simp: liveEntryFor_def live_def store_ok_def split: option.splits if_splits)

lemma announce_begin_ok:
  assumes ok: "store_ok st" and a: "announce_begin s st = Inr st'"
  shows "store_ok st'"
proof -
  from a obtain n where l: "liveEntryFor s st = Inr n" and new: "\<not> en_announced (st_entries st ! n)"
    and st': "st' = (set_entry n (\<lambda>e. e\<lparr>en_announced := True, en_announcing := True\<rparr>) st)
        \<lparr>st_edges := st_edges st @ [Created n]\<rparr>"
    by (auto simp: announce_begin_def rbind_Inr_iff split: if_splits)
  note n = liveEntryFor_Inr [OF ok l]
  have live': "live st' m = live st m" for m
    using live_set_entry [of "\<lambda>e. e\<lparr>en_announced := True, en_announcing := True\<rparr>" n st m]
    by (simp add: st' live_def)
  have "entry_ok st' m" if m: "m < length (st_entries st)" for m
  proof (cases "m = n")
    case True
    with entry_facts [OF ok n(1)] new n live' show ?thesis
      by (auto simp: entry_ok_def Let_def st')
  next
    case False
    then have "st_entries st' ! m = st_entries st ! m" "edges_of m (st_edges st') = edges_of m (st_edges st)"
      "st_attachments st' = st_attachments st" by (simp_all add: st')
    with store_ok_entry [OF ok m] entry_ok_cong [of st' m st] live' [of m] show ?thesis by simp
  qed
  moreover have maps: "maps_ok st" using ok by (simp add: store_ok_def)
  have "maps_ok st'"
  proof (rule maps_okI)
    show "m < length (st_entries st') \<and> en_id (st_entries st' ! m) = i"
      if "map_of (st_store st') i = Some m" for i m
      using that maps_okD(1) [OF maps, of i m] n by (cases "m = n") (auto simp: st')
    show "m < length (st_entries st') \<and> en_session (st_entries st' ! m) = t \<and> live st' m"
      if "map_of (st_attachments st') t = Some m" for t m
      using that maps_okD(2) [OF maps, of t m] n live' by (cases "m = n") (auto simp: st')
    show "edges_of m (st_edges st') = []" if "length (st_entries st') \<le> m" for m
      using that maps_okD(3) [OF maps, of m] n by (auto simp: st')
  qed
  ultimately show ?thesis by (simp add: store_ok_def st')
qed

lemma append_begin_ok:
  assumes ok: "store_ok st"
  shows "store_ok (fst (append_begin s accepts now d srcs op st))"
proof -
  obtain se' r where a: "append_event (case map_of (st_attachments st) s of
      Some n \<Rightarrow> en_appending (st_entries st ! n) | None \<Rightarrow> False) accepts now d srcs op (st_sessions st ! s) = (se', r)"
    by fastforce
  let ?st' = "st\<lparr>st_sessions := (st_sessions st)[s := se']\<rparr>"
  have ok': "store_ok ?st'" using ok store_ok_cong [of ?st' st] by simp
  show ?thesis
  proof (cases "map_of (st_attachments st) s")
    case None
    with a ok' show ?thesis by (auto simp: append_begin_def Let_def split: sum.splits)
  next
    case (Some n)
    have n: "n < length (st_entries st)" "live st n"
      using maps_okD(2) [of st s n] ok Some by (auto simp: store_ok_def)
    then have live: "live ?st' n" by (simp add: live_def)
    have "store_ok (set_entry n (\<lambda>e. e\<lparr>en_appending := True\<rparr>) ?st')"
    proof (rule store_ok_set_entry [OF ok'])
      show "entry_ok (set_entry n (\<lambda>e. e\<lparr>en_appending := True\<rparr>) ?st') n"
        using entry_facts [OF ok', of n] n live
          live_set_entry [of "\<lambda>e. e\<lparr>en_appending := True\<rparr>" n ?st' n]
        by (auto simp: entry_ok_def Let_def)
    qed simp_all
    with a Some ok' show ?thesis
      by (auto simp: append_begin_def Let_def split: sum.splits)
  qed
qed

lemma detach_ok:
  assumes ok: "store_ok st" and n: "n < length (st_entries st)"
  shows "store_ok (detach n st)"
proof (cases "en_entered (st_entries st ! n)")
  case False
  with ok show ?thesis by (simp add: detach_def Let_def)
next
  case True
  note facts = entry_facts [OF ok n]
  show ?thesis
  proof (cases "en_announcing (st_entries st ! n) \<or> en_appending (st_entries st ! n)")
    case busy: True
    let ?f = "\<lambda>e. e\<lparr>en_entered := False, en_detachRequested := True\<rparr>"
    have eq: "detach n st = set_entry n ?f st"
      using True busy n by (simp add: detach_def Let_def set_entry_def)
    show ?thesis unfolding eq
    proof (rule store_ok_set_entry [OF ok])
      show "entry_ok (set_entry n ?f st) n"
        using facts n busy True live_set_entry [of ?f n st n] by (auto simp: entry_ok_def Let_def)
    qed simp_all
  next
    case idle: False
    let ?f = "\<lambda>e. e\<lparr>en_entered := False\<rparr>"
    have eq: "detach n st = detachEntered n (set_entry n ?f st)"
      using True idle by (simp add: detach_def Let_def)
    have live': "live (set_entry n ?f st) m = live st m" for m by (rule live_set_entry) simp
    have live: "live st n" using facts(4) True by simp
    have maps: "maps_ok st" using ok by (simp add: store_ok_def)
    show ?thesis unfolding eq
    proof (rule detachEntered_ok)
      show "maps_ok (set_entry n ?f st)"
      proof (rule maps_okI)
        show "m < length (st_entries (set_entry n ?f st)) \<and> en_id (st_entries (set_entry n ?f st) ! m) = i"
          if "map_of (st_store (set_entry n ?f st)) i = Some m" for i m
          using that maps_okD(1) [OF maps, of i m] n by (cases "m = n") auto
        show "m < length (st_entries (set_entry n ?f st)) \<and> en_session (st_entries (set_entry n ?f st) ! m) = t
            \<and> live (set_entry n ?f st) m"
          if "map_of (st_attachments (set_entry n ?f st)) t = Some m" for t m
          using that maps_okD(2) [OF maps, of t m] n live' by (cases "m = n") auto
      qed (use maps in \<open>simp add: maps_ok_def\<close>)
      show "entry_ok (set_entry n ?f st) m" if "m < length (st_entries (set_entry n ?f st))" "m \<noteq> n" for m
        using store_ok_entry [OF ok, of m] entry_ok_cong [of "set_entry n ?f st" m st] that live' [of m]
        by simp
    qed (use n facts live live' idle in auto)
  qed
qed

lemma prepare_ok: "store_ok st \<Longrightarrow> store_ok (fst (prepare sid opts now st))"
  using store_ok_cong [of "fst (prepare sid opts now st)" st]
  by (auto simp: prepare_def Let_def split: option.splits prod.splits sum.splits)

lemma store_step_ok: "store_step st st' \<Longrightarrow> store_ok st \<Longrightarrow> store_ok st'"
  by (induction rule: store_step.induct)
    (auto intro: prepare_ok enter_ok announce_begin_ok announce_end_ok append_begin_ok append_end_ok detach_ok)

lemma reachable_ok: "store_reachable st \<Longrightarrow> store_ok st"
  by (induction rule: store_reachable.induct) (auto intro: empty_store_ok store_step_ok)

section \<open>Properties of the store\<close>

text \<open>
  C15: creation and disposal are published in pairs and in order, whatever listeners do in between.
  In every reachable store, the edges published for an entry are none before its announcement,
  its creation while it is live, and its creation followed by one disposal afterwards; an entry in
  the middle of a publication is live; an entry outside of one is live exactly as long as its
  detach capability has not been used; and no other live entry has its identity or its session.
\<close>

theorem store_lifecycle_is_paired:
  assumes "store_reachable st" and "n < length (st_entries st)"
  shows "edges_of n (st_edges st) =
      (if en_announced (st_entries st ! n) then [Created n] else [])
      @ (if en_announced (st_entries st ! n) \<and> \<not> live st n then [Disposed n] else [])
    \<and> (en_announcing (st_entries st ! n) \<or> en_appending (st_entries st ! n) \<longrightarrow> live st n)
    \<and> (\<not> en_announcing (st_entries st ! n) \<and> \<not> en_appending (st_entries st ! n) \<longrightarrow>
         live st n = en_entered (st_entries st ! n))
    \<and> (\<forall>m < length (st_entries st). live st n \<and> live st m
         \<and> (en_id (st_entries st ! m) = en_id (st_entries st ! n)
            \<or> en_session (st_entries st ! m) = en_session (st_entries st ! n)) \<longrightarrow> m = n)"
proof -
  note ok = reachable_ok [OF assms(1)]
  note facts = entry_facts [OF ok assms(2)]
  have "m = n" if m: "m < length (st_entries st)" "live st n" "live st m"
    "en_id (st_entries st ! m) = en_id (st_entries st ! n)
      \<or> en_session (st_entries st ! m) = en_session (st_entries st ! n)" for m
    using m facts(5) entry_facts(5) [OF ok m(1)] by (auto simp: live_def)
  with facts show ?thesis by blast
qed

text \<open>A creation whose listener detaches the session in the middle of its announcement.\<close>

definition sample_prepared :: store_state where
  "sample_prepared = fst (prepare (Some ''s'') (CreateOptions None no_meta None) 1 empty_store)"

definition sample_entered :: store_state where
  "sample_entered = fst (projr (enter 0 sample_prepared))"

definition sample_announcing :: store_state where
  "sample_announcing = projr (announce_begin 0 sample_entered)"

definition sample_detached :: store_state where
  "sample_detached = announce_end 0 (detach 0 sample_announcing)"

lemma sample_store_steps:
  "length (st_sessions sample_prepared) = 1" "enter 0 sample_prepared = Inr (sample_entered, 0)"
  "announce_begin 0 sample_entered = Inr sample_announcing"
  "length (st_entries sample_announcing) = 1" "length (st_entries (detach 0 sample_announcing)) = 1"
  "en_announcing (st_entries (detach 0 sample_announcing) ! 0)"
  "live (detach 0 sample_announcing) 0"
  by code_simp+

lemma sample_store_reachable: "store_reachable sample_detached"
proof -
  have "store_reachable sample_prepared"
    unfolding sample_prepared_def by (intro reach_step [OF reach_empty] step_prepare)
  then have "store_reachable sample_entered"
    by (rule reach_step) (rule step_enter [of 0], simp_all add: sample_store_steps)
  then have "store_reachable sample_announcing"
    by (rule reach_step) (rule step_announce_begin [OF sample_store_steps(3)])
  then have "store_reachable (detach 0 sample_announcing)"
    by (rule reach_step) (rule step_detach, simp add: sample_store_steps)
  then show ?thesis unfolding sample_detached_def
    by (rule reach_step) (rule step_announce_end, simp_all add: sample_store_steps)
qed

theorem store_lifecycle_is_paired_witness:
  "edges_of 0 (st_edges sample_detached) = [Created 0, Disposed 0]"
proof -
  have "0 < length (st_entries sample_detached)" "en_announced (st_entries sample_detached ! 0)"
    "\<not> live sample_detached 0"
    by code_simp+
  with store_lifecycle_is_paired [OF sample_store_reachable this(1)] show ?thesis by simp
qed

text \<open>
  Minting always finds an unused identity. Preparing a session without a given id never fails
  for a taken id; the counter grows; and the prepared session carries an id no live session has.
\<close>

theorem minted_id_is_fresh:
  "snd (prepare None opts now st) \<noteq> Inl SessionExists
   \<and> st_counter st < st_counter (fst (prepare None opts now st))
   \<and> map_of (st_store st) (minted (st_counter (fst (prepare None opts now st)))) = None"
proof -
  from mint_fresh [of "st_store st" "st_counter st"] obtain c' sid where
    m: "mint (length (st_store st) + 1) (st_counter st) (st_store st) = Some (c', sid)"
    "map_of (st_store st) sid = None" by blast
  from mint_Some [OF m(1)] have "sid = minted c'" "st_counter st < c'" by auto
  with m show ?thesis
    by (auto simp: prepare_def Let_def split: sum.splits)
qed

section \<open>Forking\<close>

lemma open_turn_scan:
  "seedSession log = Inr tr \<Longrightarrow> (tc_openTurn tr \<noteq> None) = ends_in_open_turn log"
proof (induction log arbitrary: tr rule: rev_induct)
  case Nil
  then show ?case
    by (auto simp: seedSession_def freshTrace_def ends_in_open_turn_def find_last_def)
next
  case (snoc e log)
  then obtain u where u: "seedSession log = Inr u" "trace_step u e = Inr tr"
    by (auto simp: seedSession_def run_snoc rbind_Inr_iff)
  note IH = snoc.IH [OF u(1)]
  from u(2) show ?case
  proof (cases rule: trace_step_elim)
    case plain
    then have "\<not> is_turn_boundary (ev_data e)" by (cases "ev_data e") auto
    with plain IH show ?thesis by (simp add: ends_in_open_turn_def find_last_snoc)
  qed (use IH in \<open>auto simp: ends_in_open_turn_def find_last_snoc\<close>)
qed

lemma seed_to_prefix:
  "seed_to log b = Inr seed \<Longrightarrow>
   seed = take (nat (num_int b) + 1) log \<and> \<not> ends_in_open_turn seed \<and> nat (num_int b) < length log"
  by (auto simp: seed_to_def Let_def slice_def split: if_splits)

lemma forkSeed_prefix:
  assumes "forkSeed log b = Inr seed"
  shows "\<exists>k \<le> length log. seed = take k log \<and> \<not> ends_in_open_turn seed"
proof (cases "seed = []")
  case True
  then show ?thesis by (intro exI [of _ 0]) (simp add: ends_in_open_turn_def find_last_def)
next
  case False
  with assms obtain b' where b': "seed_to log b' = Inr seed"
    by (auto simp: forkSeed_def split: option.splits)
  from seed_to_prefix [OF this] show ?thesis by (metis Suc_eq_plus1 Suc_leI)
qed

definition child_meta :: "session \<Rightarrow> create_meta" where
  "child_meta source = no_meta\<lparr>cm_cwd := jget (se_header source) ''cwd'',
     cm_parentSession := Some (JStr (session_id source)), cm_isSeeded := Some (JBool True)\<rparr>"

lemma validated_cwd:
  "validateSessionHeader sid h = Inr h' \<Longrightarrow>
   opt_str h ''cwd'' \<and> \<not> (case str_of h ''cwd'' of Some p \<Rightarrow> \<not> isAbsolute p | None \<Rightarrow> False)"
  unfolding validateSessionHeader_def by (simp only: split: if_split_asm) simp_all

lemma child_header_valid:
  assumes "validateSessionHeader sid0 (se_header source) = Inr (se_header source)"
    and "0 \<le> now" "now \<le> MAX_SAFE_INTEGER"
  shows "snapshotSessionHeader sid (Some (creation_header sid (child_meta source) now)) now2
      = Inr (creation_header sid (child_meta source) now)"
    "header_isSeeded (creation_header sid (child_meta source) now)"
    "str_of (creation_header sid (child_meta source) now) ''parentSession'' = Some (session_id source)"
proof -
  have cwd: "case jget (se_header source) ''cwd'' of None \<Rightarrow> True
      | Some v \<Rightarrow> \<exists>path. v = JStr path \<and> isAbsolute path"
    using validated_cwd [OF assms(1)]
    by (auto simp: opt_str_def str_of_def split: option.splits json.splits)
  note defs = snapshotSessionHeader_def snapshotJsonValue_def creation_header_def no_meta_def child_meta_def
    coalesce_def opt_field_def int_json_def validateSessionHeader_def isPlainRecord_def
    SESSION_FORMAT_VERSION_def str_of_def nonneg_safe_def opt_str_def header_isSeeded_def
  show "snapshotSessionHeader sid (Some (creation_header sid (child_meta source) now)) now2
      = Inr (creation_header sid (child_meta source) now)"
  proof (cases "jget (se_header source) ''cwd''")
    case None
    with assms show ?thesis by (simp add: defs)
  next
    case (Some v)
    with cwd obtain path where "v = JStr path" "isAbsolute path" by auto
    with Some assms show ?thesis by (simp add: defs)
  qed
  show "header_isSeeded (creation_header sid (child_meta source) now)"
    "str_of (creation_header sid (child_meta source) now) ''parentSession'' = Some (session_id source)"
    by (simp_all add: defs split: option.splits)
qed

lemma fold_prefix: "returns (foldSurface (xs @ ys)) \<Longrightarrow> returns (foldSurface xs)"
  by (auto simp: foldSurface_hrun hrun_append returns_iff rbind_Inr_iff split: prod.splits)

lemma snapshot_seed_run:
  "returns (foldSurface log) \<Longrightarrow> \<forall>e \<in> set log. admit_event e = Inr () \<and> isJsonValue (event_json e) \<Longrightarrow>
   \<exists>m. run (seed_step False) ([], new_surface_manager 0) log = Inr (log, m)"
proof -
  assume r: "returns (foldSurface log)"
    and a: "\<forall>e \<in> set log. admit_event e = Inr () \<and> isJsonValue (event_json e)"
  have same: "run (seed_step False) st evs = run (seed_step True) st evs"
    if "\<forall>e \<in> set evs. isJsonValue (event_json e)" for st evs
    using that
  proof (induction evs arbitrary: st)
    case (Cons e evs)
    then have "seed_step False st e = seed_step True st e"
      by (simp add: seed_step_def snapshotJsonValue_def)
    with Cons show ?case by simp
  qed simp
  from seed_run_accepts [OF r] a same [of log] show ?thesis by auto
qed

text \<open>
  Forking works and inherits a closed history. Take a session after any calls, with a header
  and events that pass the boundary checks, and a boundary the fork accepts. The fork's seed is a
  prefix of the source log in which no turn is open, also for the trace companion when it accepted
  the source; and building the child succeeds: its log is that prefix with the end of the seed
  marked, the whole prefix counts as inherited, and its header names the source as parent.
\<close>

theorem fork_inherits_closed_prefix:
  assumes "construct restore sid0 sd header supplied start = Inr se0"
    and "source = state_after session_serve se0 cs"
    and "forkSeed (se_log source) boundary = Inr seed"
    and "\<forall>e \<in> set (se_log source). admit_event e = Inr () \<and> isJsonValue (event_json e)"
    and "0 \<le> now" and "now \<le> MAX_SAFE_INTEGER"
  shows "(\<exists>k \<le> length (se_log source). seed = take k (se_log source))
    \<and> (\<forall>tr. seedSession (se_log source) = Inr tr \<longrightarrow>
         (\<exists>tr'. seedSession seed = Inr tr' \<and> tc_openTurn tr' = None))
    \<and> (\<exists>child. build_session sid (fork_options source seed) now = Inr child
         \<and> se_log child = marked_log seed now \<and> se_inheritedEventCount child = length seed
         \<and> se_firstLiveSeq child = length seed
         \<and> str_of (se_header child) ''parentSession'' = Some (session_id source))"
proof (intro conjI allI impI)
  from forkSeed_prefix [OF assms(3)] obtain k where k: "k \<le> length (se_log source)"
    "seed = take k (se_log source)" "\<not> ends_in_open_turn seed" by blast
  then show "\<exists>k \<le> length (se_log source). seed = take k (se_log source)" by blast
  have split: "se_log source = seed @ drop k (se_log source)" using k(2) by simp
  show "\<exists>tr'. seedSession seed = Inr tr' \<and> tc_openTurn tr' = None"
    if "seedSession (se_log source) = Inr tr" for tr
  proof -
    from that obtain tr' where "seedSession seed = Inr tr'"
      by (subst (asm) split) (auto simp: seedSession_def run_append rbind_Inr_iff)
    with open_turn_scan [OF this] k(3) show ?thesis by auto
  qed
  from session_sim.related_after [OF construct_rel(1) [OF assms(1)], of cs] assms(2)
  have rel: "session_rel (se_inheritedEventCount source) source (se_log source)"
    by (auto simp: session_rel_def)
  have lin: "validateSessionHeader sid0 (se_header source) = Inr (se_header source)"
    using state_after_lineage [OF construct_lineage [OF assms(1)]] assms(2) by (simp add: lineage_ok_def)
  have "returns (foldSurface seed)"
    using rel fold_prefix [of seed "drop k (se_log source)"] split by (simp add: session_rel_def)
  moreover have "\<forall>e \<in> set seed. admit_event e = Inr () \<and> isJsonValue (event_json e)"
    using assms(4) k(2) by (auto dest: in_set_takeD)
  ultimately obtain m where m: "run (seed_step False) ([], new_surface_manager 0) seed = Inr (seed, m)"
    using snapshot_seed_run by blast
  let ?h = "creation_header sid (child_meta source) now"
  let ?se = "fresh_session seed m ?h (length seed)"
  from seeding.inv_run [OF m] have "session_rel (length seed) ?se seed"
    by (auto simp: seeded_ok_def intro: fresh_session_rel)
  from mark_end_seed_rel [OF this, of True now] obtain child where
    c: "mark_end_seed True now ?se = Inr child" "session_rel (length seed) child (marked_log seed now)"
      "se_header child = ?h" "se_firstLiveSeq child = length seed"
    by (auto simp: fresh_session_def)
  have "build_session sid (fork_options source seed) now = Inr child"
    using m c(1) child_header_valid(1,2) [OF lin assms(5,6)]
    by (simp add: build_session_def fork_options_def session_create_def construct_def header_result_def
        check_lineage_def Let_def child_meta_def [symmetric])
  with c child_header_valid(3) [OF lin assms(5,6)]
  show "\<exists>child. build_session sid (fork_options source seed) now = Inr child
      \<and> se_log child = marked_log seed now \<and> se_inheritedEventCount child = length seed
      \<and> se_firstLiveSeq child = length seed
      \<and> str_of (se_header child) ''parentSession'' = Some (session_id source)"
    by (auto simp: session_rel_def)
qed

definition sample_fork_calls :: "session_call list" where
  "sample_fork_calls =
     [AppendCall False (\<lambda>_. True) 8 (TurnStart 1) None None,
      AppendCall False (\<lambda>_. True) 8 (TurnEnd 1 Completed) None None,
      AppendCall False (\<lambda>_. True) 8 (TurnStart 2) None None]"

theorem fork_inherits_closed_prefix_witness:
  "\<exists>child. build_session ''c'' (fork_options (state_after session_serve sample_session sample_fork_calls)
       (take 2 (se_log (state_after session_serve sample_session sample_fork_calls)))) 9 = Inr child
     \<and> se_inheritedEventCount child = 2"
proof -
  define src where "src = state_after session_serve sample_session sample_fork_calls"
  have f: "forkSeed (se_log src) (Some (NInt 1)) = Inr (take 2 (se_log src))"
    unfolding src_def by code_simp
  have l: "length (take 2 (se_log src)) = 2" unfolding src_def by code_simp
  have "\<forall>e \<in> set (se_log src). admit_event e = Inr () \<and> isJsonValue (event_json e)"
    unfolding src_def by code_simp
  note fork = fork_inherits_closed_prefix [OF sample_construct src_def f this, of 9 "''c''"]
  have "(0 :: int) \<le> 9" "9 \<le> MAX_SAFE_INTEGER" by (simp_all add: MAX_SAFE_INTEGER_def)
  from fork [OF this] l show ?thesis unfolding src_def [symmetric] by metis
qed

text \<open>The same source cannot be forked at its end: turn 2 is open there.\<close>

lemma sample_fork_open:
  "forkSeed (se_log (state_after session_serve sample_session sample_fork_calls)) None = Inl OPEN_TURN"
  by code_simp

end
