(* ===== verification/Consumed_Work.thy ===== *)
theory Consumed_Work
  imports Session_Trace
begin

text \<open>
  How an agent log accounts for the work it consumed, core/agent/src/consumed-work.ts: one pass
  over the log with two sets of turn numbers, the open turn, the latest accounting end and the
  dropped-work flag. The result compares that pass with a specification that reads the log
  declaratively: which turn ends account for work, which of them is the latest, and what was
  dropped after it.
\<close>

section \<open>The fold\<close>

record consumed_work =
  cw_end :: "session_event option"
  cw_droppedUnrun :: bool

text \<open>Endings a backend adds are \<open>OtherReason\<close>: the switch's default.\<close>

fun accountsForClaim :: "turn_end_reason \<Rightarrow> bool" where
  "accountsForClaim Completed = False"
| "accountsForClaim Blocked = True"
| "accountsForClaim (Aborted _) = True"
| "accountsForClaim Interrupted = True"
| "accountsForClaim (Errored _) = True"
| "accountsForClaim _ = True"

record work_state =
  wk_stepped :: "int set"
  wk_claimed :: "int set"
  wk_open :: "int option"
  wk_end :: "session_event option"
  wk_droppedUnrun :: bool

definition work_start :: work_state where
  "work_start = \<lparr>wk_stepped = {}, wk_claimed = {}, wk_open = None, wk_end = None, wk_droppedUnrun = False\<rparr>"

text \<open>
  The case \<open>turn/end\<close>: \<open>stepped.delete(turn) || (claimed.delete(turn) && ...)\<close>, whose second
  deletion runs only when the first one found nothing.
\<close>

definition close_turn :: "session_event \<Rightarrow> int \<Rightarrow> turn_end_reason \<Rightarrow> work_state \<Rightarrow> work_state" where
  "close_turn e turn reason w =
     (let w1 = w\<lparr>wk_open := None\<rparr> in
      if turn \<in> wk_stepped w
      then w1\<lparr>wk_stepped := wk_stepped w - {turn}, wk_end := Some e, wk_droppedUnrun := False\<rparr>
      else if turn \<in> wk_claimed w
      then
        (let w2 = w1\<lparr>wk_claimed := wk_claimed w - {turn}\<rparr> in
         if accountsForClaim reason then w2\<lparr>wk_end := Some e, wk_droppedUnrun := False\<rparr> else w2)
      else w1)"

definition note_splice :: "inbox_splice \<Rightarrow> work_state \<Rightarrow> work_state" where
  "note_splice sp w =
     (if sp_removedCount sp = None then w
      else if sp_canceled sp
      then w\<lparr>wk_droppedUnrun := wk_droppedUnrun w \<or> length (sp_inserted sp) = 0\<rparr>
      else case wk_open w of
        Some turn \<Rightarrow> w\<lparr>wk_claimed := insert turn (wk_claimed w)\<rparr>
      | None \<Rightarrow> w)"

definition work_step :: "session_event \<Rightarrow> work_state \<Rightarrow> work_state" where
  "work_step e w =
     (case ev_data e of
        TurnStart turn \<Rightarrow> w\<lparr>wk_open := Some turn\<rparr>
      | StepStart turn _ \<Rightarrow> w\<lparr>wk_stepped := insert turn (wk_stepped w)\<rparr>
      | InboxSpliced sp \<Rightarrow> note_splice sp w
      | TurnEnd turn reason \<Rightarrow> close_turn e turn reason w
      | _ \<Rightarrow> w)"

definition foldConsumedWork :: "session_event list \<Rightarrow> consumed_work" where
  "foldConsumedWork events =
     (let w = fold work_step events work_start in
      \<lparr>cw_end = wk_end w, cw_droppedUnrun = wk_droppedUnrun w\<rparr>)"

section \<open>What the log says\<close>

fun opens_turn :: "int option \<Rightarrow> event_data \<Rightarrow> int option" where
  "opens_turn _ (TurnStart turn) = Some turn"
| "opens_turn _ (TurnEnd _ _) = None"
| "opens_turn t _ = t"

definition open_turn_of :: "session_event list \<Rightarrow> int option" where
  "open_turn_of log = fold (\<lambda>e t. opens_turn t (ev_data e)) log None"

fun is_claim :: "event_data \<Rightarrow> bool" where
  "is_claim (InboxSpliced sp) = (sp_removedCount sp \<noteq> None \<and> \<not> sp_canceled sp)"
| "is_claim _ = False"

fun is_drop :: "event_data \<Rightarrow> bool" where
  "is_drop (InboxSpliced sp) = (sp_removedCount sp \<noteq> None \<and> sp_canceled sp \<and> sp_inserted sp = [])"
| "is_drop _ = False"

definition took_step :: "session_event list \<Rightarrow> int \<Rightarrow> bool" where
  "took_step log turn \<longleftrightarrow> (\<exists>e \<in> set log. \<exists>step. ev_data e = StepStart turn step)"

definition took_input :: "session_event list \<Rightarrow> int \<Rightarrow> bool" where
  "took_input log turn \<longleftrightarrow>
     (\<exists>i < length log. is_claim (ev_data (log ! i)) \<and> open_turn_of (take i log) = Some turn)"

text \<open>Event \<open>i\<close> is a turn end that accounts for work: its turn stepped, or took input and did not
  merely complete.\<close>

definition accounts :: "session_event list \<Rightarrow> nat \<Rightarrow> bool" where
  "accounts log i \<longleftrightarrow>
     (\<exists>turn reason. ev_data (log ! i) = TurnEnd turn reason
        \<and> (took_step (take i log) turn
           \<or> took_input (take i log) turn \<and> accountsForClaim reason))"

definition latest_account :: "session_event list \<Rightarrow> nat option" where
  "latest_account log = find_last (accounts log) [0..<length log]"

definition dropped_after :: "nat option \<Rightarrow> session_event list \<Rightarrow> bool" where
  "dropped_after i log \<longleftrightarrow>
     (\<exists>e \<in> set (drop (case i of None \<Rightarrow> 0 | Some k \<Rightarrow> Suc k) log). is_drop (ev_data e))"

definition turn_ends :: "session_event list \<Rightarrow> int list" where
  "turn_ends log = concat (map (\<lambda>e. case ev_data e of TurnEnd turn _ \<Rightarrow> [turn] | _ \<Rightarrow> []) log)"

section \<open>Growth of the log\<close>

lemma open_turn_of_snoc: "open_turn_of (log @ [e]) = opens_turn (open_turn_of log) (ev_data e)"
  by (simp add: open_turn_of_def)

lemma took_step_snoc:
  "took_step (log @ [e]) turn \<longleftrightarrow> took_step log turn \<or> (\<exists>step. ev_data e = StepStart turn step)"
  by (auto simp: took_step_def)

lemma took_input_snoc:
  "took_input (log @ [e]) turn \<longleftrightarrow>
     took_input log turn \<or> is_claim (ev_data e) \<and> open_turn_of log = Some turn"
proof -
  have old: "(i < length log \<and> is_claim (ev_data ((log @ [e]) ! i)) \<and> open_turn_of (take i (log @ [e])) = Some turn)
      \<longleftrightarrow> (i < length log \<and> is_claim (ev_data (log ! i)) \<and> open_turn_of (take i log) = Some turn)" for i
    by (auto simp: nth_append)
  have "took_input (log @ [e]) turn \<longleftrightarrow>
      (\<exists>i. i < length log \<and> is_claim (ev_data ((log @ [e]) ! i)) \<and> open_turn_of (take i (log @ [e])) = Some turn)
      \<or> is_claim (ev_data e) \<and> open_turn_of log = Some turn"
    unfolding took_input_def length_append_singleton less_Suc_eq conj_disj_distribR ex_disj_distrib by simp
  then show ?thesis by (simp only: old took_input_def)
qed

lemma accounts_prefix: "i < length log \<Longrightarrow> accounts (log @ [e]) i \<longleftrightarrow> accounts log i"
  by (simp add: accounts_def nth_append)

lemma latest_account_snoc:
  "latest_account (log @ [e]) =
     (if accounts (log @ [e]) (length log) then Some (length log) else latest_account log)"
proof -
  have "find_last (accounts (log @ [e])) [0..<length log] = find_last (accounts log) [0..<length log]"
    unfolding find_last_def by (rule find_cong) (auto simp: accounts_prefix)
  then show ?thesis by (simp add: latest_account_def find_last_snoc)
qed

lemma find_last_in: "find_last P xs = Some x \<Longrightarrow> x \<in> set xs \<and> P x"
  by (induction xs rule: rev_induct) (auto simp: find_last_snoc find_last_def split: if_splits)

lemma latest_account_bound: "latest_account log = Some i \<Longrightarrow> i < length log"
  using find_last_in [of "accounts log" "[0..<length log]" i] by (simp add: latest_account_def)

lemma dropped_after_snoc:
  "(\<And>k. i = Some k \<Longrightarrow> k < length log) \<Longrightarrow>
   dropped_after i (log @ [e]) \<longleftrightarrow> dropped_after i log \<or> is_drop (ev_data e)"
  by (cases i) (auto simp: dropped_after_def Suc_le_eq)

lemma dropped_after_end [simp]: "\<not> dropped_after (Some (length log)) (log @ [e])"
  by (simp add: dropped_after_def)

lemma turn_ends_snoc:
  "turn_ends (log @ [e]) = turn_ends log @ (case ev_data e of TurnEnd turn _ \<Rightarrow> [turn] | _ \<Rightarrow> [])"
  by (simp add: turn_ends_def)

section \<open>The pass agrees with the log\<close>

text \<open>Only turns that have not ended yet are constrained: an ended number cannot end again.\<close>

definition work_inv :: "session_event list \<Rightarrow> work_state \<Rightarrow> bool" where
  "work_inv log w \<longleftrightarrow>
     wk_open w = open_turn_of log
     \<and> (\<forall>t. t \<notin> set (turn_ends log) \<longrightarrow> (t \<in> wk_stepped w \<longleftrightarrow> took_step log t))
     \<and> (\<forall>t. t \<notin> set (turn_ends log) \<longrightarrow> (t \<in> wk_claimed w \<longleftrightarrow> took_input log t))
     \<and> wk_end w = map_option ((!) log) (latest_account log)
     \<and> wk_droppedUnrun w = dropped_after (latest_account log) log"

lemma end_snoc:
  "map_option ((!) (log @ [e])) (latest_account log) = map_option ((!) log) (latest_account log)"
  by (cases "latest_account log") (auto simp: nth_append dest: latest_account_bound)

lemma work_step_end:
  assumes "work_inv log w" "ev_data e = TurnEnd turn reason" "turn \<notin> set (turn_ends log)"
  shows "work_inv (log @ [e]) (work_step e w)"
proof -
  have acc: "accounts (log @ [e]) (length log) \<longleftrightarrow>
      turn \<in> wk_stepped w \<or> turn \<in> wk_claimed w \<and> accountsForClaim reason"
    using assms by (simp add: accounts_def work_inv_def)
  have nodrop: "dropped_after (latest_account log) (log @ [e]) = dropped_after (latest_account log) log"
    using assms(2) by (subst dropped_after_snoc) (auto dest: latest_account_bound)
  show ?thesis
    using assms acc nodrop
    by (auto simp: work_inv_def work_step_def close_turn_def Let_def open_turn_of_snoc took_step_snoc
        took_input_snoc turn_ends_snoc latest_account_snoc end_snoc)
qed

lemma work_step_other:
  assumes "work_inv log w" "\<And>turn reason. ev_data e \<noteq> TurnEnd turn reason"
  shows "work_inv (log @ [e]) (work_step e w)"
proof -
  have acc: "\<not> accounts (log @ [e]) (length log)"
    using assms(2) by (simp add: accounts_def)
  have ends: "turn_ends (log @ [e]) = turn_ends log"
    using assms(2) by (cases "ev_data e") (auto simp: turn_ends_snoc)
  have drops: "dropped_after (latest_account log) (log @ [e]) \<longleftrightarrow>
      dropped_after (latest_account log) log \<or> is_drop (ev_data e)"
    by (rule dropped_after_snoc) (rule latest_account_bound)
  note snocs = open_turn_of_snoc took_step_snoc took_input_snoc latest_account_snoc end_snoc
  show ?thesis
  proof (cases "\<exists>sp. ev_data e = InboxSpliced sp")
    case True
    then obtain sp where "ev_data e = InboxSpliced sp" by blast
    then show ?thesis
      using assms(1) acc ends drops
      by (cases "sp_removedCount sp"; cases "sp_canceled sp"; cases "open_turn_of log")
        (auto simp: work_inv_def work_step_def note_splice_def snocs)
  next
    case False
    with assms acc ends drops show ?thesis
      by (cases "ev_data e") (auto simp: work_inv_def work_step_def snocs)
  qed
qed

lemma work_fold_inv:
  "distinct (turn_ends log) \<Longrightarrow> work_inv log (fold work_step log work_start)"
proof (induction log rule: rev_induct)
  case Nil
  show ?case
    by (simp add: work_inv_def work_start_def open_turn_of_def took_step_def took_input_def
        latest_account_def find_last_def dropped_after_def turn_ends_def)
next
  case (snoc e log)
  then have inv: "work_inv log (fold work_step log work_start)"
    by (simp add: turn_ends_snoc)
  show ?case
  proof (cases "\<exists>turn reason. ev_data e = TurnEnd turn reason")
    case True
    then obtain turn reason where e: "ev_data e = TurnEnd turn reason" by blast
    with snoc.prems have "turn \<notin> set (turn_ends log)" by (simp add: turn_ends_snoc)
    from work_step_end [OF inv e this] show ?thesis by simp
  next
    case False
    from work_step_other [OF inv] False show ?thesis by simp
  qed
qed

text \<open>Logs the companion accepts end every turn once: turn numbers only grow.\<close>

definition ended_before :: "session_event list \<Rightarrow> session_trace \<Rightarrow> bool" where
  "ended_before log tr \<longleftrightarrow> distinct (turn_ends log) \<and> (\<forall>t \<in> set (turn_ends log). t < tc_nextTurn tr)
     \<and> (\<forall>t. tc_openTurn tr = Some t \<longrightarrow> t = tc_nextTurn tr)"

interpretation ended_fold: history_fold "\<lambda>_. trace_step" freshTrace ended_before
proof
  show "ended_before [] freshTrace"
    by (simp add: ended_before_def freshTrace_def turn_ends_def)
next
  fix xs tr e tr'
  assume inv: "ended_before xs tr" and step: "trace_step tr e = Inr tr'"
  from step inv show "ended_before (xs @ [e]) tr'"
    by (cases rule: trace_step_elim) (auto simp: ended_before_def turn_ends_snoc split: event_data.splits)
qed

lemma accepted_turn_ends_distinct: "seedSession log = Inr tr \<Longrightarrow> distinct (turn_ends log)"
  using ended_fold.hinv_hrun by (simp add: seedSession_def hrun_const ended_before_def)


text \<open>
  C16: the one-pass account is what the log says. For an event sequence in which no turn ends twice
  (every log the companion accepts, lemma \<open>accepted_turn_ends_distinct\<close>), the reported end is the
  latest turn end whose turn entered a step, or took inbox input and ended other than by
  completing; the flag tells whether a cancellation without replacement came after that end.
\<close>

theorem consumed_work_accounts_for_log:
  assumes "distinct (turn_ends log)"
  shows "cw_end (foldConsumedWork log) = map_option ((!) log) (latest_account log)
    \<and> cw_droppedUnrun (foldConsumedWork log) = dropped_after (latest_account log) log"
  using work_fold_inv [OF assms] by (simp add: foldConsumedWork_def work_inv_def Let_def)

definition sample_claim :: "int option \<Rightarrow> bool \<Rightarrow> event_data" where
  "sample_claim removed canceled = InboxSpliced
     \<lparr>sp_target = NextTurn, sp_start = 0, sp_removedCount = removed, sp_inserted = [], sp_canceled = canceled\<rparr>"

definition sample_work_log :: "session_event list" where
  "sample_work_log =
     [log_event 0 0 (TurnStart 1), log_event 1 0 (sample_claim (Some 1) False),
      log_event 2 0 (TurnEnd 1 Blocked), log_event 3 0 (sample_claim (Some 1) True)]"

theorem consumed_work_accounts_for_log_witness:
  "cw_end (foldConsumedWork sample_work_log) = Some (log_event 2 0 (TurnEnd 1 Blocked))
    \<and> cw_droppedUnrun (foldConsumedWork sample_work_log)"
proof -
  have d: "distinct (turn_ends sample_work_log)" by code_simp
  have "took_input (take 2 sample_work_log) 1"
    unfolding took_input_def
    by (rule exI [of _ 1]) (simp add: sample_work_log_def sample_claim_def open_turn_of_def numeral_2_eq_2)
  then have acc: "accounts sample_work_log 2"
    by (simp add: accounts_def sample_work_log_def)
  have "\<not> accounts sample_work_log 3"
    by (simp add: accounts_def sample_work_log_def sample_claim_def eval_nat_numeral)
  with acc have l: "latest_account sample_work_log = Some 2"
    by (simp add: latest_account_def find_last_def sample_work_log_def upt_rec numeral_eq_Suc)
  show ?thesis
    using consumed_work_accounts_for_log [OF d]
    by (simp add: l) (simp add: sample_work_log_def dropped_after_def sample_claim_def numeral_eq_Suc)
qed

end
