(* ===== verification/Tool_Pairing.thy ===== *)
theory Tool_Pairing
  imports Session_Log
begin

text \<open>
  Tool-pairing balance over a session surface, compaction/compaction/src/tool-pairing.ts: which
  cuts of the surface no unanswered tool call crosses, answered from a cache that is extended
  while the surface only grows and rebuilt after a replacement. The result: under every sequence
  of session calls and balance queries the cache answers as counting the calls and results of the
  current surface afresh does, errors included.
\<close>

section \<open>The cache\<close>

record balance_cache =
  bc_generation :: nat
  bc_cutBalanced :: "bool list"
  bc_indexBySeq :: "(nat \<times> nat) list"
  bc_inProgressToolCalls :: int

datatype pairing_error =
    NoMatchingEvent nat | UnmatchedResult nat | SeqNotFound nat | SurfaceFailed surface_error

definition is_tool_call :: "content_block \<Rightarrow> bool" where
  "is_tool_call b = (case b of ToolCallBlock _ _ _ \<Rightarrow> True | _ \<Rightarrow> False)"

definition eventDelta :: "session_event \<Rightarrow> int" where
  "eventDelta e =
     (case ev_data e of
        AssistantMessage _ _ m _ _ \<Rightarrow> int (length (filter is_tool_call (msg_content m)))
      | ToolResult _ \<Rightarrow> -1
      | _ \<Rightarrow> 0)"

text \<open>The body of the validation loop over the unseen tail: running count and pending cuts.\<close>

definition extend_step :: "session \<Rightarrow> int \<times> bool list \<Rightarrow> nat \<Rightarrow> pairing_error + int \<times> bool list" where
  "extend_step se acc seq =
     (case eventAt se seq of
        None \<Rightarrow> Inl (NoMatchingEvent seq)
      | Some e \<Rightarrow>
          if ev_seq e \<noteq> seq then Inl (NoMatchingEvent seq)
          else
            let inProgress = fst acc + eventDelta e in
            if inProgress < 0 then Inl (UnmatchedResult seq)
            else Inr (inProgress, snd acc @ [inProgress = 0]))"

definition index_tail :: "nat \<Rightarrow> nat list \<Rightarrow> (nat \<times> nat) list \<Rightarrow> (nat \<times> nat) list" where
  "index_tail processed tail index =
     fold (\<lambda>(seq, offset). map_set seq (processed + offset)) (zip tail [0..<length tail]) index"

definition extendCache :: "session \<Rightarrow> balance_cache \<Rightarrow> nat list \<Rightarrow> pairing_error + balance_cache" where
  "extendCache se c seqs =
     (let processed = length (bc_cutBalanced c) - 1;
          tail = drop processed seqs in
      rbind (run (extend_step se) (bc_inProgressToolCalls c, []) tail) (\<lambda>(inProgress, pendingCuts).
        Inr (c\<lparr>bc_indexBySeq := index_tail processed tail (bc_indexBySeq c),
               bc_cutBalanced := bc_cutBalanced c @ pendingCuts,
               bc_inProgressToolCalls := inProgress\<rparr>)))"

definition empty_cache :: "nat \<Rightarrow> balance_cache" where
  "empty_cache generation =
     \<lparr>bc_generation = generation, bc_cutBalanced = [True], bc_indexBySeq = [], bc_inProgressToolCalls = 0\<rparr>"

text \<open>
  \<open>balanceCache\<close> for one session and its \<open>WeakMap\<close> entry. The cache is mutated only after the
  tail has been validated, so a throw leaves the entry as it was.
\<close>

definition synchronized :: "session \<Rightarrow> nat \<Rightarrow> nat list \<Rightarrow> balance_cache option \<Rightarrow> pairing_error + balance_cache" where
  "synchronized se generation seqs cached =
     (case cached of
        None \<Rightarrow> extendCache se (empty_cache generation) seqs
      | Some c \<Rightarrow>
          if bc_generation c \<noteq> generation \<or> length seqs < length (bc_cutBalanced c) - 1
          then extendCache se (empty_cache generation) seqs
          else if length (bc_cutBalanced c) - 1 < length seqs then extendCache se c seqs
          else Inr c)"

definition balanceCache ::
  "session \<Rightarrow> balance_cache option \<Rightarrow> (session \<times> balance_cache option) \<times> (pairing_error + balance_cache)" where
  "balanceCache se cached =
     (case surface_nodes 0 (se_log se) (se_surface se) of
        (m, Inl err) \<Rightarrow> ((se\<lparr>se_surface := m\<rparr>, cached), Inl (SurfaceFailed err))
      | (m, Inr seqs) \<Rightarrow>
          (case surface_generation 0 (se_log se) m of
             (m', Inl err) \<Rightarrow> ((se\<lparr>se_surface := m'\<rparr>, cached), Inl (SurfaceFailed err))
           | (m', Inr generation) \<Rightarrow>
               let se' = se\<lparr>se_surface := m'\<rparr> in
               (case synchronized se' generation seqs cached of
                  Inl err \<Rightarrow> ((se', cached), Inl err)
                | Inr c \<Rightarrow> ((se', Some c), Inr c))))"

definition cutBalance :: "balance_cache \<Rightarrow> nat \<Rightarrow> nat \<Rightarrow> pairing_error + bool" where
  "cutBalance c seq offset =
     (case map_of (bc_indexBySeq c) seq of
        None \<Rightarrow> Inl (SeqNotFound seq)
      | Some index \<Rightarrow>
          if index + offset < length (bc_cutBalanced c) then Inr (bc_cutBalanced c ! (index + offset))
          else Inl (SeqNotFound seq))"

definition balanced_cut ::
  "nat \<Rightarrow> session \<times> balance_cache option \<Rightarrow> nat \<Rightarrow> (session \<times> balance_cache option) \<times> (pairing_error + bool)" where
  "balanced_cut offset st seq =
     (case balanceCache (fst st) (snd st) of
        (st', Inl err) \<Rightarrow> (st', Inl err)
      | (st', Inr c) \<Rightarrow> (st', cutBalance c seq offset))"

definition toolPairingBalancedBefore ::
  "session \<times> balance_cache option \<Rightarrow> nat \<Rightarrow> (session \<times> balance_cache option) \<times> (pairing_error + bool)" where
  "toolPairingBalancedBefore = balanced_cut 0"

definition toolPairingBalancedAfter ::
  "session \<times> balance_cache option \<Rightarrow> nat \<Rightarrow> (session \<times> balance_cache option) \<times> (pairing_error + bool)" where
  "toolPairingBalancedAfter = balanced_cut 1"

section \<open>What the surface says\<close>

text \<open>Calls still unanswered after a list of surface events.\<close>

definition open_calls :: "session_event list \<Rightarrow> nat list \<Rightarrow> int" where
  "open_calls log seqs = sum_list (map (\<lambda>s. eventDelta (log ! s)) seqs)"

text \<open>The first surface entry, if any, at which a result answers nothing.\<close>

fun first_unmatched :: "session_event list \<Rightarrow> int \<Rightarrow> nat list \<Rightarrow> nat option" where
  "first_unmatched log n [] = None"
| "first_unmatched log n (s # ss) =
     (if n + eventDelta (log ! s) < 0 then Some s else first_unmatched log (n + eventDelta (log ! s)) ss)"

definition surface_balance :: "session_event list \<Rightarrow> nat list \<Rightarrow> nat \<Rightarrow> nat \<Rightarrow> pairing_error + bool" where
  "surface_balance log nodes offset seq =
     (case first_unmatched log 0 nodes of
        Some s \<Rightarrow> Inl (UnmatchedResult s)
      | None \<Rightarrow>
          (case index_of seq nodes of
             None \<Rightarrow> Inl (SeqNotFound seq)
           | Some i \<Rightarrow> Inr (open_calls log (take (i + offset) nodes) = 0)))"

text \<open>A client: session calls interleaved with queries.\<close>

datatype pairing_call = OnSession session_call | Before nat | After nat
datatype pairing_answer = SessionAnswer session_answer | Balance "pairing_error + bool"

fun pairing_serve ::
  "session \<times> balance_cache option \<Rightarrow> pairing_call \<Rightarrow> (session \<times> balance_cache option) \<times> pairing_answer" where
  "pairing_serve st (OnSession c) =
     (let (se, r) = session_serve (fst st) c in ((se, snd st), SessionAnswer r))"
| "pairing_serve st (Before seq) = (let (st', r) = toolPairingBalancedBefore st seq in (st', Balance r))"
| "pairing_serve st (After seq) = (let (st', r) = toolPairingBalancedAfter st seq in (st', Balance r))"

definition log_balance :: "session_event list \<Rightarrow> nat \<Rightarrow> nat \<Rightarrow> pairing_answer" where
  "log_balance log offset seq =
     Balance (case foldSurface log of
        Inl err \<Rightarrow> Inl (SurfaceFailed err)
      | Inr (nodes, _) \<Rightarrow> surface_balance log nodes offset seq)"

fun pairing_spec ::
  "nat \<Rightarrow> session_event list \<Rightarrow> pairing_call \<Rightarrow> session_event list \<times> pairing_answer" where
  "pairing_spec inherited log (OnSession c) =
     (let (log', r) = log_call inherited log c in (log', SessionAnswer r))"
| "pairing_spec inherited log (Before seq) = (log, log_balance log 0 seq)"
| "pairing_spec inherited log (After seq) = (log, log_balance log 1 seq)"

section \<open>The validation loop\<close>

definition cuts_from :: "session_event list \<Rightarrow> int \<Rightarrow> nat list \<Rightarrow> bool list" where
  "cuts_from log n seqs = map (\<lambda>k. n + open_calls log (take (Suc k) seqs) = 0) [0..<length seqs]"

lemma open_calls_simps [simp]:
  "open_calls log [] = 0"
  "open_calls log (s # ss) = eventDelta (log ! s) + open_calls log ss"
  "open_calls log (xs @ ys) = open_calls log xs + open_calls log ys"
  by (simp_all add: open_calls_def)

lemma cuts_from_Cons:
  "cuts_from log n (s # ss) =
     (n + eventDelta (log ! s) = 0) # cuts_from log (n + eventDelta (log ! s)) ss"
  unfolding cuts_from_def length_Cons map_upt_Suc by (simp add: add.assoc)

lemma extend_run:
  assumes "contiguous (se_log se)" "\<forall>s \<in> set seqs. s < length (se_log se)"
  shows "run (extend_step se) (n, cuts) seqs =
    (case first_unmatched (se_log se) n seqs of
       Some s \<Rightarrow> Inl (UnmatchedResult s)
     | None \<Rightarrow> Inr (n + open_calls (se_log se) seqs, cuts @ cuts_from (se_log se) n seqs))"
  using assms(2)
proof (induction seqs arbitrary: n cuts)
  case Nil
  show ?case by (simp add: cuts_from_def)
next
  case (Cons s ss)
  let ?log = "se_log se"
  have "extend_step se (n, cuts) s =
      (if n + eventDelta (?log ! s) < 0 then Inl (UnmatchedResult s)
       else Inr (n + eventDelta (?log ! s), cuts @ [n + eventDelta (?log ! s) = 0]))"
    using Cons.prems assms(1) by (simp add: extend_step_def eventAt_def contiguous_def Let_def)
  with Cons show ?case
    by (simp add: cuts_from_Cons add.assoc split: option.splits)
qed

lemma first_unmatched_append:
  "first_unmatched log n (xs @ ys) =
     (case first_unmatched log n xs of
        Some s \<Rightarrow> Some s | None \<Rightarrow> first_unmatched log (n + open_calls log xs) ys)"
  by (induction xs arbitrary: n) (auto simp: add.assoc split: option.splits)

lemma cuts_from_append:
  "cuts_from log n (xs @ ys) = cuts_from log n xs @ cuts_from log (n + open_calls log xs) ys"
  by (induction xs arbitrary: n) (simp_all add: cuts_from_Cons add.assoc, simp add: cuts_from_def)

lemma length_cuts_from [simp]: "length (cuts_from log n seqs) = length seqs"
  by (simp add: cuts_from_def)

lemma index_tail_of:
  assumes "distinct (pre @ tail)" and "\<And>s. map_of index s = index_of s pre"
  shows "map_of (index_tail (length pre) tail index) s = index_of s (pre @ tail)"
  using assms
proof (induction tail arbitrary: s rule: rev_induct)
  case Nil
  then show ?case by (simp add: index_tail_def)
next
  case (snoc t ts)
  have step: "index_tail (length pre) (ts @ [t]) index = map_set t (length pre + length ts) (index_tail (length pre) ts index)"
    by (simp add: index_tail_def)
  have "index_of s (xs @ [t]) = (case index_of s xs of Some i \<Rightarrow> Some i | None \<Rightarrow> if s = t then Some (length xs) else None)"
    for xs
    by (induction xs) (auto split: option.splits)
  then have "index_of s (pre @ ts @ [t]) = (case index_of s (pre @ ts) of Some i \<Rightarrow> Some i
      | None \<Rightarrow> if s = t then Some (length pre + length ts) else None)"
    by (metis append_assoc length_append)
  moreover have "t \<notin> set (pre @ ts)" using snoc.prems(1) by auto
  then have "index_of t (pre @ ts) = None" unfolding index_of_None .
  ultimately show ?case
    using snoc by (auto simp: step split: option.splits)
qed


section \<open>The cache describes a surface\<close>

definition cache_of :: "session_event list \<Rightarrow> nat list \<Rightarrow> nat \<Rightarrow> balance_cache \<Rightarrow> bool" where
  "cache_of log nodes generation c \<longleftrightarrow>
     bc_generation c = generation
     \<and> first_unmatched log 0 nodes = None
     \<and> bc_cutBalanced c = True # cuts_from log 0 nodes
     \<and> bc_inProgressToolCalls c = open_calls log nodes
     \<and> (\<forall>s. map_of (bc_indexBySeq c) s = index_of s nodes)"

lemma cache_of_empty: "cache_of log [] generation (empty_cache generation)"
  by (simp add: cache_of_def empty_cache_def cuts_from_def)

lemma extendCache_of:
  assumes "contiguous (se_log se)" "\<forall>s \<in> set (pre @ tail). s < length (se_log se)" "distinct (pre @ tail)"
    and "cache_of (se_log se) pre generation c"
  shows "case first_unmatched (se_log se) 0 (pre @ tail) of
      Some s \<Rightarrow> extendCache se c (pre @ tail) = Inl (UnmatchedResult s)
    | None \<Rightarrow> \<exists>c'. extendCache se c (pre @ tail) = Inr c' \<and> cache_of (se_log se) (pre @ tail) generation c'"
proof -
  let ?log = "se_log se"
  have p: "length (bc_cutBalanced c) - 1 = length pre" and u: "first_unmatched ?log 0 pre = None"
    and i: "map_of (bc_indexBySeq c) s = index_of s pre" for s
    using assms(4) by (simp_all add: cache_of_def)
  have "\<forall>s \<in> set tail. s < length ?log" using assms(2) by simp
  note ext = extend_run [OF assms(1) this, of "open_calls ?log pre" "[]"]
  note idx = index_tail_of [OF assms(3), of "bc_indexBySeq c", OF i]
  show ?thesis
    using assms(4)
    by (auto simp: extendCache_def p ext cache_of_def first_unmatched_append u cuts_from_append idx
        split: option.splits)
qed

lemma cache_of_grown:
  assumes "cache_of (take j log) nodes g c" "\<forall>s \<in> set nodes. s < length (take j log)"
  shows "cache_of log nodes g c"
proof -
  have n: "log ! s = take j log ! s" if "s \<in> set nodes" for s using assms(2) that by simp
  have o: "set ss \<subseteq> set nodes \<Longrightarrow> open_calls log ss = open_calls (take j log) ss" for ss
    by (induction ss) (simp_all add: n)
  have "set ss \<subseteq> set nodes \<Longrightarrow> first_unmatched log k ss = first_unmatched (take j log) k ss" for ss k
    by (induction ss arbitrary: k) (simp_all add: n)
  moreover have "cuts_from log 0 nodes = cuts_from (take j log) 0 nodes"
    using o unfolding cuts_from_def by (metis (no_types, lifting) map_eq_conv set_take_subset)
  ultimately show ?thesis using assms(1) o by (simp add: cache_of_def)
qed

lemma cutBalance_of:
  assumes "cache_of log nodes g c" "offset \<le> 1"
  shows "cutBalance c seq offset =
    (case index_of seq nodes of
       None \<Rightarrow> Inl (SeqNotFound seq)
     | Some i \<Rightarrow> Inr (open_calls log (take (i + offset) nodes) = 0))"
proof (cases "index_of seq nodes")
  case None
  with assms show ?thesis by (simp add: cutBalance_def cache_of_def)
next
  case (Some i)
  from index_of_Some [OF Some] have i: "i < length nodes" by simp
  have "(True # cuts_from log 0 nodes) ! k = (open_calls log (take k nodes) = 0)" if "k \<le> length nodes" for k
    using that by (cases k) (simp_all add: cuts_from_def)
  with assms Some i show ?thesis by (simp add: cutBalance_def cache_of_def)
qed

section \<open>Queries\<close>

definition cache_ok :: "session_event list \<Rightarrow> balance_cache option \<Rightarrow> bool" where
  "cache_ok log cached \<longleftrightarrow>
     (\<forall>c. cached = Some c \<longrightarrow> (\<exists>j st. j \<le> length log \<and> folded (take j log) st
        \<and> cache_of (take j log) (fs_nodes st) (fs_replaceGeneration st) c))"

definition pairing_rel :: "nat \<Rightarrow> session \<times> balance_cache option \<Rightarrow> session_event list \<Rightarrow> bool" where
  "pairing_rel inherited st log \<longleftrightarrow> session_rel inherited (fst st) log \<and> cache_ok log (snd st)"

lemma folded_nodes:
  assumes "folded log st"
  shows "contiguous log" "distinct (fs_nodes st)" "\<forall>s \<in> set (fs_nodes st). s < length log"
proof -
  from assms obtain reps i where "hrun fold_step [] surface_start log = Inr (st, reps, i)"
    by (auto simp: folded_def)
  from surface_fold.hinv_hrun [OF this]
  have inv: "contiguous log" "accounted log (fs_nodes st) reps" by (auto simp: surface_inv_def)
  show "contiguous log" by (rule inv)
  show "distinct (fs_nodes st)" by (rule accounted_nodes(1) [OF inv(2)])
  show "\<forall>s \<in> set (fs_nodes st). s < length log" using accounted_bound [OF inv(2)] by blast
qed

lemma synchronized_of:
  assumes st: "folded (se_log se) st" and ok: "cache_ok (se_log se) cached"
  shows "case first_unmatched (se_log se) 0 (fs_nodes st) of
      Some s \<Rightarrow> synchronized se (fs_replaceGeneration st) (fs_nodes st) cached = Inl (UnmatchedResult s)
    | None \<Rightarrow> \<exists>c. synchronized se (fs_replaceGeneration st) (fs_nodes st) cached = Inr c
        \<and> cache_of (se_log se) (fs_nodes st) (fs_replaceGeneration st) c"
proof -
  let ?g = "fs_replaceGeneration st" and ?log = "se_log se" and ?nodes = "fs_nodes st"
  note f = folded_nodes [OF st]
  have fresh: "case first_unmatched ?log 0 ?nodes of
      Some s \<Rightarrow> extendCache se (empty_cache ?g) ?nodes = Inl (UnmatchedResult s)
    | None \<Rightarrow> \<exists>c. extendCache se (empty_cache ?g) ?nodes = Inr c \<and> cache_of ?log ?nodes ?g c"
    using extendCache_of [of se "[]" ?nodes ?g "empty_cache ?g", unfolded append_Nil] f cache_of_empty by blast
  show ?thesis
  proof (cases "\<exists>c. cached = Some c \<and> bc_generation c = ?g")
    case False
    then have "synchronized se ?g ?nodes cached = extendCache se (empty_cache ?g) ?nodes"
      by (cases cached) (simp_all add: synchronized_def)
    from this fresh show ?thesis by (simp only:)
  next
    case True
    then obtain c where c: "cached = Some c" "bc_generation c = ?g" by blast
    with ok obtain j st0 where j: "folded (take j ?log) st0"
      "cache_of (take j ?log) (fs_nodes st0) (fs_replaceGeneration st0) c"
      by (auto simp: cache_ok_def)
    then have g: "fs_replaceGeneration st0 = ?g" using c by (simp add: cache_of_def)
    obtain zs where zs: "?nodes = fs_nodes st0 @ zs"
      using folded_extends [OF j(1) st] g by metis
    have old: "cache_of ?log (fs_nodes st0) ?g c"
      using cache_of_grown [OF j(2)] folded_nodes(3) [OF j(1)] g by simp
    then have len: "length (bc_cutBalanced c) - 1 = length (fs_nodes st0)" by (simp add: cache_of_def)
    show ?thesis
    proof (cases "zs = []")
      case True
      with zs have "?nodes = fs_nodes st0" by simp
      moreover from this have "synchronized se ?g ?nodes cached = Inr c"
        using c len by (simp add: synchronized_def)
      moreover from old have "first_unmatched ?log 0 (fs_nodes st0) = None" by (simp add: cache_of_def)
      ultimately show ?thesis using old by simp
    next
      case False
      with c len zs have "synchronized se ?g ?nodes cached = extendCache se c ?nodes"
        by (simp add: synchronized_def)
      moreover have "case first_unmatched ?log 0 ?nodes of
          Some s \<Rightarrow> extendCache se c ?nodes = Inl (UnmatchedResult s)
        | None \<Rightarrow> \<exists>c'. extendCache se c ?nodes = Inr c' \<and> cache_of ?log ?nodes ?g c'"
        using extendCache_of [of se "fs_nodes st0" zs ?g c] f old unfolding zs by blast
      ultimately show ?thesis by (simp only:)
    qed
  qed
qed

lemma balanced_cut_related:
  assumes rel: "pairing_rel inherited st log" and off: "offset \<le> 1"
  shows "Balance (snd (balanced_cut offset st seq)) = log_balance log offset seq
    \<and> pairing_rel inherited (fst (balanced_cut offset st seq)) log"
proof -
  obtain se cached where s: "st = (se, cached)" by (cases st)
  from rel obtain k where l: "se_log se = log" and k: "manager_at k log (se_surface se)"
    and sr: "session_rel inherited se log" and ret: "returns (foldSurface log)" and ok: "cache_ok log cached"
    by (auto simp: pairing_rel_def session_rel_def s)
  from ret obtain nodes reps where fold: "foldSurface log = Inr (nodes, reps)" by (auto simp: returns_iff)
  then obtain fs where fs: "folded log fs" "fs_nodes fs = nodes" by (rule folded_of_fold)
  then obtain reps' i where h: "hrun fold_step [] surface_start log = Inr (fs, reps', i)"
    by (auto simp: folded_def)
  from read_at [OF k, of fs_nodes] h fs obtain k' m where
    m: "surface_nodes 0 log (se_surface se) = (m, Inr nodes)" "manager_at k' log m"
    by (auto simp: surface_nodes_def)
  from read_at [OF m(2), of fs_replaceGeneration] h obtain k'' m' where
    m': "surface_generation 0 log m = (m', Inr (fs_replaceGeneration fs))" "manager_at k'' log m'"
    by (auto simp: surface_generation_def)
  let ?se = "se\<lparr>se_surface := m'\<rparr>"
  have sr': "session_rel inherited ?se log"
    using sr m'(2) by (auto simp: session_rel_def caches_ok_def derived_ok_def)
  note sync = synchronized_of [of ?se fs cached, simplified, unfolded l, OF fs(1) ok, unfolded fs(2)]
  show ?thesis
  proof (cases "first_unmatched log 0 nodes")
    case (Some u)
    with sync sr' ok show ?thesis
      by (simp add: s balanced_cut_def balanceCache_def l m(1) m'(1) pairing_rel_def log_balance_def fold
          surface_balance_def)
  next
    case None
    with sync obtain c where c: "synchronized ?se (fs_replaceGeneration fs) nodes cached = Inr c"
      "cache_of log nodes (fs_replaceGeneration fs) c" by (auto simp: l)
    have "cache_ok log (Some c)"
      unfolding cache_ok_def using c(2) fs by (metis option.inject order_refl take_all)
    with c None sr' show ?thesis
      by (simp add: s balanced_cut_def balanceCache_def l m(1) m'(1) pairing_rel_def log_balance_def fold
          surface_balance_def cutBalance_of [OF c(2) off])
  qed
qed

lemma cache_ok_grows: "cache_ok log cached \<Longrightarrow> cache_ok (log @ rest) cached"
  unfolding cache_ok_def by (metis le_add1 length_append nle_le take_append diff_is_0_eq take_0 append_Nil2 le_trans)

lemma log_call_grows: "\<exists>rest. fst (log_call inherited log c) = log @ rest"
  by (cases c) (auto simp: Let_def split: sum.splits)

interpretation pairing_sim: simulation pairing_serve "pairing_spec inherited" "pairing_rel inherited" for inherited
proof
  fix st log c
  assume rel: "pairing_rel inherited st log"
  have "snd (pairing_serve st c) = snd (pairing_spec inherited log c)
      \<and> pairing_rel inherited (fst (pairing_serve st c)) (fst (pairing_spec inherited log c))"
  proof (cases c)
    case (OnSession d)
    from rel have sr: "session_rel inherited (fst st) log" and ok: "cache_ok log (snd st)"
      by (auto simp: pairing_rel_def)
    from log_call_grows [of inherited log d] cache_ok_grows [OF ok]
    have "cache_ok (fst (log_call inherited log d)) (snd st)" by auto
    with session_call_related [OF sr, of d] OnSession show ?thesis
      by (auto simp: pairing_rel_def split: prod.splits)
  next
    case (Before seq)
    with balanced_cut_related [OF rel, of 0 seq] show ?thesis
      by (auto simp: toolPairingBalancedBefore_def split: prod.splits)
  next
    case (After seq)
    with balanced_cut_related [OF rel, of 1 seq] show ?thesis
      by (auto simp: toolPairingBalancedAfter_def split: prod.splits)
  qed
  then show "snd (pairing_serve st c) = snd (pairing_spec inherited log c)"
    and "pairing_rel inherited (fst (pairing_serve st c)) (fst (pairing_spec inherited log c))" by auto
qed

text \<open>
  C17: the balance cache is invisible. Starting from a constructed session with no cache entry,
  every sequence of session calls and balance queries is answered as if each query folded the
  log and counted the calls and results of its surface afresh: the answer for a cut is whether
  no call is open there, a result without a call is reported at the same entry, and a sequence
  number outside the surface is refused.
\<close>

theorem pairing_cache_refines_count:
  assumes "construct restore sid seed header supplied now = Inr se"
  shows "answers_to pairing_serve (se, None) cs =
    answers_to (pairing_spec (se_inheritedEventCount se)) (se_log se) cs"
proof (rule pairing_sim.same_answers)
  show "pairing_rel (se_inheritedEventCount se) (se, None) (se_log se)"
    using construct_rel(1) [OF assms] by (simp add: pairing_rel_def cache_ok_def)
qed

definition sample_pairing :: "pairing_call list" where
  "sample_pairing =
     [OnSession (AppendCall False (\<lambda>_. True) 8
        (AssistantMessage 1 1 \<lparr>msg_id = ''a'', msg_role = Assistant,
           msg_content = [ToolCallBlock ''c'' ''read'' ''{}''], msg_source = ModelSource ''p'' ''m'' None\<rparr> None False)
        None (Some append_op)),
      Before 0, After 0, After 7]"

theorem pairing_cache_refines_count_witness:
  "tl (answers_to pairing_serve (sample_session, None) sample_pairing) =
   [Balance (Inr True), Balance (Inr False), Balance (Inl (SeqNotFound 7))]"
proof -
  have spec: "tl (answers_to (pairing_spec 0) [] sample_pairing) =
      [Balance (Inr True), Balance (Inr False), Balance (Inl (SeqNotFound 7))]"
    by code_simp
  have "se_inheritedEventCount sample_session = 0" "se_log sample_session = []"
    by (simp_all add: sample_session_def fresh_session_def)
  with pairing_cache_refines_count [OF sample_construct, of sample_pairing] spec show ?thesis by simp
qed

end
