(* ===== verification/Chunk_Rows.thy ===== *)
theory Chunk_Rows
  imports Json
begin

text \<open>
  The lossless row packing of streamed chunks, core/session/src/chunk-rows.ts: runs of delta
  chunk events of one block become one storage row each, and a row expands to its events again.
  Events and rows are the JSON values that storage holds; times are JavaScript numbers, with the
  rounding of a double where a difference or a sum leaves the exact range. The results: decoding
  what was packed gives the events back; and a row that decodes gives delta events only, with
  consecutive safe sequence numbers and safe times, whatever the row holds.
\<close>

section \<open>Arithmetic on integral numbers\<close>

text \<open>
  The double next to an integer of at most 54 bits, ties to even: what \<open>+\<close> and \<open>-\<close> return on
  two safe integers.
\<close>

definition double_of :: "int \<Rightarrow> int" where
  "double_of i =
     (if \<bar>i\<bar> \<le> 9007199254740992 \<or> even i then i
      else if even (i div 2) then 2 * (i div 2) else 2 * (i div 2) + 2)"

definition js_add :: "jsnum \<Rightarrow> jsnum \<Rightarrow> jsnum" where
  "js_add a b = (if a = NNegZero \<and> b = NNegZero then NNegZero else NInt (double_of (num_int a + num_int b)))"

definition js_sub :: "jsnum \<Rightarrow> jsnum \<Rightarrow> jsnum" where
  "js_sub a b = (if a = NNegZero \<and> b = NInt 0 then NNegZero else NInt (double_of (num_int a - num_int b)))"

section \<open>Reads of parsed values\<close>

text \<open>
  A read that gives no number behaves as \<open>NaN\<close> in arithmetic and comparison; the encoder reads
  strings only from shapes it has recognised.
\<close>

fun num_of :: "json option \<Rightarrow> jsnum" where
  "num_of (Some (JNum n)) = n"
| "num_of _ = NNaN"

fun str_of :: "json option \<Rightarrow> string" where
  "str_of (Some (JStr s)) = s"
| "str_of _ = []"

fun is_num :: "json option \<Rightarrow> bool" where
  "is_num (Some (JNum _)) = True"
| "is_num _ = False"

fun is_str :: "json option \<Rightarrow> bool" where
  "is_str (Some (JStr _)) = True"
| "is_str _ = False"

fun is_rec :: "json option \<Rightarrow> bool" where
  "is_rec (Some v) = isRecord v"
| "is_rec None = False"

definition sub :: "json \<Rightarrow> string \<Rightarrow> json" where
  "sub v k = (case jget v k of Some w \<Rightarrow> w | None \<Rightarrow> JNull)"

abbreviation chunk_of :: "json \<Rightarrow> json" where
  "chunk_of e \<equiv> sub (sub e ''data'') ''chunk''"

section \<open>Recognising a delta\<close>

datatype delta_kind = TextDelta | ReasoningDelta | ToolCallDelta

fun delta_tag :: "delta_kind \<Rightarrow> string" where
  "delta_tag TextDelta = ''text-delta''"
| "delta_tag ReasoningDelta = ''reasoning-delta''"
| "delta_tag ToolCallDelta = ''tool-call-delta''"

definition safe_seq :: "jsnum \<Rightarrow> bool" where
  "safe_seq n \<longleftrightarrow> isEventSeq (JNum n)"

definition classify_chunk :: "json \<Rightarrow> delta_kind option" where
  "classify_chunk chunk =
     (let tag = jget chunk ''type'' in
      if tag = Some (JStr ''text-delta'') \<or> tag = Some (JStr ''reasoning-delta'')
      then
        (if hasExactKeys chunk [''type'', ''index'', ''text''] \<and> is_str (jget chunk ''text'')
         then Some (if tag = Some (JStr ''text-delta'') then TextDelta else ReasoningDelta) else None)
      else if tag = Some (JStr ''tool-call-delta'')
      then
        (let shapeOk = hasExactKeys chunk [''type'', ''index'', ''id'', ''argumentsDelta'']
             \<or> hasExactKeys chunk [''type'', ''index'', ''id'', ''name'', ''argumentsDelta'']
               \<and> is_str (jget chunk ''name'') in
         if shapeOk \<and> is_str (jget chunk ''id'') \<and> is_str (jget chunk ''argumentsDelta'')
         then Some ToolCallDelta else None)
      else None)"

definition classify :: "json \<Rightarrow> delta_kind option" where
  "classify e =
     (if jget e ''type'' \<noteq> Some (JStr ''assistant/chunk'') then None
      else if \<not> hasExactKeys e [''type'', ''seq'', ''time'', ''data''] then None
      else if \<not> safe_seq (num_of (jget e ''seq'')) \<or> \<not> isSafeInteger (num_of (jget e ''time'')) then None
      else
        let data = sub e ''data'' in
        if \<not> isRecord data \<or> \<not> hasExactKeys data [''turn'', ''step'', ''chunk''] then None
        else if \<not> is_num (jget data ''turn'') \<or> \<not> is_num (jget data ''step'') then None
        else
          let chunk = sub data ''chunk'' in
          if \<not> isRecord chunk \<or> \<not> is_num (jget chunk ''index'') then None
          else classify_chunk chunk)"

section \<open>Packing\<close>

abbreviation ev_num :: "json \<Rightarrow> string \<Rightarrow> jsnum" where
  "ev_num e k \<equiv> num_of (jget e k)"

abbreviation data_num :: "json \<Rightarrow> string \<Rightarrow> jsnum" where
  "data_num e k \<equiv> num_of (jget (sub e ''data'') k)"

definition indexOf :: "json \<Rightarrow> jsnum" where
  "indexOf e = num_of (jget (chunk_of e) ''index'')"

text \<open>\<open>===\<close> on two reads that are strings or \<open>undefined\<close>.\<close>

fun same_read :: "json option \<Rightarrow> json option \<Rightarrow> bool" where
  "same_read None None = True"
| "same_read (Some a) (Some b) = prim_eq a b"
| "same_read _ _ = False"

definition continues :: "json \<Rightarrow> json \<Rightarrow> delta_kind \<Rightarrow> bool" where
  "continues prev next kind \<longleftrightarrow>
     num_eq (ev_num next ''seq'') (js_add (ev_num prev ''seq'') (NInt 1))
     \<and> isSafeInteger (js_sub (ev_num next ''time'') (ev_num prev ''time''))
     \<and> num_eq (data_num next ''turn'') (data_num prev ''turn'')
     \<and> num_eq (data_num next ''step'') (data_num prev ''step'')
     \<and> num_eq (indexOf next) (indexOf prev)
     \<and> (kind = ToolCallDelta \<longrightarrow>
          same_read (jget (chunk_of prev) ''id'') (jget (chunk_of next) ''id'')
          \<and> has_own (chunk_of prev) ''name'' = has_own (chunk_of next) ''name''
          \<and> same_read (jget (chunk_of prev) ''name'') (jget (chunk_of next) ''name''))"

definition time_gaps :: "json list \<Rightarrow> jsnum list" where
  "time_gaps evs = map (\<lambda>(e, p). js_sub (ev_num e ''time'') (ev_num p ''time'')) (zip (drop 1 evs) evs)"

definition row_base :: "json \<Rightarrow> json list \<Rightarrow> (string \<times> json) list" where
  "row_base first evs =
     [(''turn'', JNum (data_num first ''turn'')), (''step'', JNum (data_num first ''step'')),
      (''index'', JNum (indexOf first)), (''dt'', JArr (map JNum (time_gaps evs)))]"

fun row_tag :: "delta_kind \<Rightarrow> string" where
  "row_tag TextDelta = ''text-chunks''"
| "row_tag ReasoningDelta = ''reasoning-chunks''"
| "row_tag ToolCallDelta = ''tool-call-chunks''"

definition row_data :: "delta_kind \<Rightarrow> json list \<Rightarrow> json" where
  "row_data kind evs =
     (let first = hd evs in
      if kind = ToolCallDelta
      then JObj (row_base first evs @ [(''id'', JStr (str_of (jget (chunk_of first) ''id'')))]
             @ (if has_own (chunk_of first) ''name''
                then [(''name'', JStr (str_of (jget (chunk_of first) ''name'')))] else [])
             @ [(''args'', JArr (map (\<lambda>e. JStr (str_of (jget (chunk_of e) ''argumentsDelta''))) evs))])
      else JObj (row_base first evs
             @ [(''texts'', JArr (map (\<lambda>e. JStr (str_of (jget (chunk_of e) ''text''))) evs))]))"

definition buildRow :: "delta_kind \<Rightarrow> json list \<Rightarrow> json" where
  "buildRow kind evs =
     JObj [(''type'', JStr (row_tag kind)),
           (''seq0'', JNum (ev_num (hd evs) ''seq'')), (''time0'', JNum (ev_num (hd evs) ''time'')),
           (''data'', row_data kind evs)]"

definition MIN_RUN :: nat where
  "MIN_RUN = 3"

record pack_state =
  pk_out :: "json list"
  pk_kind :: "delta_kind option"
  pk_run :: "json list"

definition flush :: "pack_state \<Rightarrow> pack_state" where
  "flush st =
     \<lparr>pk_out = pk_out st @
        (case pk_kind st of
           Some k \<Rightarrow> if MIN_RUN \<le> length (pk_run st) then [buildRow k (pk_run st)] else pk_run st
         | None \<Rightarrow> pk_run st),
      pk_kind = None, pk_run = []\<rparr>"

definition pack_step :: "pack_state \<Rightarrow> json \<Rightarrow> pack_state" where
  "pack_step st e =
     (case classify e of
        None \<Rightarrow> let st' = flush st in st'\<lparr>pk_out := pk_out st' @ [e]\<rparr>
      | Some k \<Rightarrow>
          if pk_kind st = Some k \<and> pk_run st \<noteq> [] \<and> continues (last (pk_run st)) e k
          then st\<lparr>pk_run := pk_run st @ [e]\<rparr>
          else (flush st)\<lparr>pk_kind := Some k, pk_run := [e]\<rparr>)"

definition packChunkRuns :: "json list \<Rightarrow> json list" where
  "packChunkRuns events =
     pk_out (flush (foldl pack_step \<lparr>pk_out = [], pk_kind = None, pk_run = []\<rparr> events))"

section \<open>Decoding\<close>

datatype row_error =
    BadEnvelope | BadSeq0 | BadTime0 | DataNotObject | BadToolKeys | BadToolStrings | BadTextKeys
  | BadPlacement | BadPayload | BadGaps | GapCount | SeqsUnsafe | TimesUnsafe | NotSessionSeq

fun safe_gap :: "json \<Rightarrow> bool" where
  "safe_gap (JNum n) = isSafeInteger n"
| "safe_gap _ = False"

definition array_of :: "json \<Rightarrow> string \<Rightarrow> json list option" where
  "array_of v k = (case jget v k of Some (JArr xs) \<Rightarrow> Some xs | _ \<Rightarrow> None)"

definition validateRunData :: "json \<Rightarrow> string \<Rightarrow> row_error + json list" where
  "validateRunData data payloadKey =
     (if \<not> is_num (jget data ''turn'') \<or> \<not> is_num (jget data ''step'') \<or> \<not> is_num (jget data ''index'')
      then Inl BadPlacement
      else case array_of data payloadKey of
        None \<Rightarrow> Inl BadPayload
      | Some payload \<Rightarrow>
          if length payload = 0 \<or> list_ex (\<lambda>x. \<not> is_str (Some x)) payload then Inl BadPayload
          else (case array_of data ''dt'' of
                  None \<Rightarrow> Inl BadGaps
                | Some dt \<Rightarrow>
                    if list_ex (\<lambda>g. \<not> safe_gap g) dt then Inl BadGaps
                    else if length dt \<noteq> length payload - 1 then Inl GapCount
                    else Inr payload))"

definition time_step :: "jsnum \<Rightarrow> json \<Rightarrow> row_error + jsnum" where
  "time_step t gap =
     (let t' = js_add t (num_of (Some gap)) in if isSafeInteger t' then Inr t' else Inl TimesUnsafe)"

definition sessionSeq :: "jsnum \<Rightarrow> row_error + jsnum" where
  "sessionSeq n = (if safe_seq n then Inr n else Inl NotSessionSeq)"

definition validate_payload :: "json \<Rightarrow> string \<Rightarrow> row_error + json list" where
  "validate_payload data tag =
     (if tag = ''tool-call-chunks''
      then
        let withName = hasExactKeys data [''turn'', ''step'', ''index'', ''id'', ''name'', ''dt'', ''args''] in
        if \<not> withName \<and> \<not> hasExactKeys data [''turn'', ''step'', ''index'', ''id'', ''dt'', ''args'']
        then Inl BadToolKeys
        else if \<not> is_str (jget data ''id'') \<or> withName \<and> \<not> is_str (jget data ''name'')
        then Inl BadToolStrings
        else validateRunData data ''args''
      else if \<not> hasExactKeys data [''turn'', ''step'', ''index'', ''dt'', ''texts'']
      then Inl BadTextKeys
      else validateRunData data ''texts'')"

definition validateRow :: "json \<Rightarrow> string \<Rightarrow> row_error + json" where
  "validateRow row tag =
     (if \<not> hasExactKeys row [''type'', ''seq0'', ''time0'', ''data''] then Inl BadEnvelope
      else if \<not> safe_seq (num_of (jget row ''seq0'')) then Inl BadSeq0
      else if \<not> isSafeInteger (num_of (jget row ''time0'')) then Inl BadTime0
      else if \<not> is_rec (jget row ''data'') then Inl DataNotObject
      else
        let data = sub row ''data'' in
        rbind (validate_payload data tag) (\<lambda>payload.
          if MAX_SAFE_INTEGER - num_int (num_of (jget row ''seq0'')) < int (length payload) - 1
          then Inl SeqsUnsafe
          else
            rbind (run time_step (num_of (jget row ''time0'')) (the (array_of data ''dt''))) (\<lambda>_.
            rbind (sessionSeq (num_of (jget row ''seq0''))) (\<lambda>_. Inr row))))"

definition member_chunk :: "string \<Rightarrow> json \<Rightarrow> json \<Rightarrow> json" where
  "member_chunk tag data member =
     (if tag = ''text-chunks''
      then JObj [(''type'', JStr ''text-delta''), (''index'', sub data ''index''), (''text'', member)]
      else if tag = ''reasoning-chunks''
      then JObj [(''type'', JStr ''reasoning-delta''), (''index'', sub data ''index''), (''text'', member)]
      else JObj ([(''type'', JStr ''tool-call-delta''), (''index'', sub data ''index''), (''id'', sub data ''id'')]
             @ (if has_own data ''name'' then [(''name'', sub data ''name'')] else [])
             @ [(''argumentsDelta'', member)]))"

text \<open>The loop of \<open>expandRow\<close> from member \<open>k\<close> on, with the running time before it.\<close>

fun expand_from :: "json \<Rightarrow> string \<Rightarrow> nat \<Rightarrow> jsnum \<Rightarrow> json list \<Rightarrow> row_error + json list" where
  "expand_from row tag k time [] = Inr []"
| "expand_from row tag k time (m # ms) =
     (let data = sub row ''data'';
          time' = (if 0 < k then js_add time (num_of (Some (the (array_of data ''dt'') ! (k - 1)))) else time) in
      rbind (sessionSeq (js_add (num_of (jget row ''seq0'')) (NInt (int k)))) (\<lambda>seq.
      rbind (expand_from row tag (Suc k) time' ms) (\<lambda>evs.
        Inr (JObj [(''type'', JStr ''assistant/chunk''), (''seq'', JNum seq), (''time'', JNum time'),
                   (''data'', JObj [(''turn'', sub data ''turn''), (''step'', sub data ''step''),
                                    (''chunk'', member_chunk tag data m)])] # evs))))"

definition row_members :: "json \<Rightarrow> string \<Rightarrow> json list" where
  "row_members row tag =
     the (array_of (sub row ''data'') (if tag = ''tool-call-chunks'' then ''args'' else ''texts''))"

definition expandRow :: "json \<Rightarrow> string \<Rightarrow> row_error + json list" where
  "expandRow row tag = expand_from row tag 0 (num_of (jget row ''time0'')) (row_members row tag)"

definition row_tag_of :: "json \<Rightarrow> string option" where
  "row_tag_of v =
     (case jget v ''type'' of
        Some (JStr t) \<Rightarrow>
          if t = ''text-chunks'' \<or> t = ''reasoning-chunks'' \<or> t = ''tool-call-chunks'' then Some t else None
      | _ \<Rightarrow> None)"

definition isChunkRow :: "json \<Rightarrow> bool" where
  "isChunkRow v \<longleftrightarrow> row_tag_of v \<noteq> None"

definition chunkRowLength :: "json \<Rightarrow> nat" where
  "chunkRowLength row = length (row_members row (the (row_tag_of row)))"

definition decodeStorageRecord :: "json \<Rightarrow> row_error + json list" where
  "decodeStorageRecord v =
     (if \<not> isRecord v then Inr [v]
      else case row_tag_of v of
        None \<Rightarrow>
          if is_num (jget v ''seq'')
          then rbind (sessionSeq (num_of (jget v ''seq''))) (\<lambda>_. Inr [v])
          else Inr [v]
      | Some tag \<Rightarrow> rbind (validateRow v tag) (\<lambda>row. expandRow row tag))"


section \<open>Exact arithmetic\<close>

definition integral :: "jsnum \<Rightarrow> bool" where
  "integral n \<longleftrightarrow> n = NInt (num_int n) \<or> n = NNegZero"

lemma isSafeInteger_iff: "isSafeInteger n \<longleftrightarrow> integral n \<and> \<bar>num_int n\<bar> \<le> MAX_SAFE_INTEGER"
  by (cases n) (auto simp: integral_def MAX_SAFE_INTEGER_def)

lemma integral_ops [simp]: "integral (js_add a b)" "integral (js_sub a b)" "integral (NInt i)"
  by (auto simp: integral_def js_add_def js_sub_def)

lemma num_eq_integral: "integral a \<Longrightarrow> integral b \<Longrightarrow> num_eq a b \<longleftrightarrow> num_int a = num_int b"
  by (cases a; cases b) (auto simp: integral_def)

lemma double_of_exact [simp]: "\<bar>i\<bar> \<le> MAX_SAFE_INTEGER \<Longrightarrow> double_of i = i"
  by (simp add: double_of_def MAX_SAFE_INTEGER_def)

text \<open>A rounded result is safe only if it was exact.\<close>

lemma double_of_safe: "\<bar>double_of i\<bar> \<le> MAX_SAFE_INTEGER \<longleftrightarrow> \<bar>i\<bar> \<le> MAX_SAFE_INTEGER"
  unfolding double_of_def MAX_SAFE_INTEGER_def by presburger

lemma num_int_add: "num_int (js_add a b) = double_of (num_int a + num_int b)"
  by (auto simp: js_add_def double_of_def)

lemma num_int_sub: "num_int (js_sub a b) = double_of (num_int a - num_int b)"
  by (auto simp: js_sub_def double_of_def)

lemma safe_sub:
  "isSafeInteger (js_sub a b) \<Longrightarrow> num_int (js_sub a b) = num_int a - num_int b"
  by (simp add: isSafeInteger_iff num_int_sub double_of_safe)

lemma safe_add:
  "isSafeInteger (js_add a b) \<longleftrightarrow> \<bar>num_int a + num_int b\<bar> \<le> MAX_SAFE_INTEGER"
  by (simp add: isSafeInteger_iff num_int_add double_of_safe)

lemma safe_seq_iff: "safe_seq n \<longleftrightarrow> n = NInt (num_int n) \<and> 0 \<le> num_int n \<and> num_int n \<le> MAX_SAFE_INTEGER"
  by (cases n) (auto simp: safe_seq_def)

lemma safe_seq_integral: "safe_seq n \<Longrightarrow> integral n"
  by (simp add: safe_seq_iff integral_def)

section \<open>A recognised event equals its reconstruction\<close>

lemma is_num_iff: "is_num r \<longleftrightarrow> r = Some (JNum (num_of r))"
  by (cases r rule: is_num.cases) auto

lemma is_str_iff: "is_str r \<longleftrightarrow> r = Some (JStr (str_of r))"
  by (cases r rule: is_str.cases) auto

lemma sub_Some [simp]: "jget v k = Some w \<Longrightarrow> sub v k = w"
  by (simp add: sub_def)

lemma json_wf_get: "json_wf v \<Longrightarrow> jget v k = Some w \<Longrightarrow> json_wf w"
  by (cases v) (auto dest: map_of_SomeD)

lemma hasExactKeys_get:
  assumes "hasExactKeys v ks" "k \<in> set ks"
  shows "jget v k = Some (sub v k)"
proof (cases v)
  case (JObj kvs)
  with assms have "k \<in> fst ` set kvs" by (auto simp: hasExactKeys_def list_all_iff)
  then obtain w where "map_of kvs k = Some w" by (metis map_of_eq_None_iff not_Some_eq)
  with JObj show ?thesis by (simp add: sub_def)
qed (use assms in \<open>auto simp: hasExactKeys_def list_all_iff\<close>)

lemma hasExactKeys_own:
  assumes "hasExactKeys v ks" "distinct ks"
  shows "has_own v k \<longleftrightarrow> k \<in> set ks"
proof (cases v)
  case (JObj kvs)
  have sub: "set ks \<subseteq> fst ` set kvs" and len: "length kvs = length ks"
    using assms(1) JObj by (auto simp: hasExactKeys_def list_all_iff)
  have "card (fst ` set kvs) \<le> card (set ks)"
    using card_image_le [of "set kvs" fst] card_length [of kvs] len distinct_card [OF assms(2)] by simp
  then have "set ks = fst ` set kvs" using card_seteq [OF _ sub] by simp
  with JObj show ?thesis by simp
qed (use assms in \<open>auto simp: hasExactKeys_def list_all_iff\<close>)

definition chunk_keys :: "json \<Rightarrow> delta_kind \<Rightarrow> string list" where
  "chunk_keys chunk kind =
     (if kind = ToolCallDelta
      then [''type'', ''index'', ''id''] @ (if has_own chunk ''name'' then [''name''] else []) @ [''argumentsDelta'']
      else [''type'', ''index'', ''text''])"

lemma classify_chunk_elim:
  assumes "classify_chunk chunk = Some kind" "json_wf chunk"
  shows "hasExactKeys chunk (chunk_keys chunk kind)"
    and "jget chunk ''type'' = Some (JStr (delta_tag kind))"
    and "kind \<noteq> ToolCallDelta \<Longrightarrow> is_str (jget chunk ''text'')"
    and "kind = ToolCallDelta \<Longrightarrow> is_str (jget chunk ''id'') \<and> is_str (jget chunk ''argumentsDelta'')
      \<and> (has_own chunk ''name'' \<longrightarrow> is_str (jget chunk ''name''))"
proof -
  have n: "hasExactKeys chunk [''type'', ''index'', ''id'', ''argumentsDelta''] \<Longrightarrow> \<not> has_own chunk ''name''"
    "hasExactKeys chunk [''type'', ''index'', ''id'', ''name'', ''argumentsDelta''] \<Longrightarrow> has_own chunk ''name''"
    by (simp_all add: hasExactKeys_own)
  from assms(1) show "jget chunk ''type'' = Some (JStr (delta_tag kind))"
    "kind \<noteq> ToolCallDelta \<Longrightarrow> is_str (jget chunk ''text'')"
    by (auto simp: classify_chunk_def Let_def split: if_splits)
  from assms(1) n show "hasExactKeys chunk (chunk_keys chunk kind)"
    by (auto simp: classify_chunk_def chunk_keys_def Let_def split: if_splits)
  from assms(1) n show "kind = ToolCallDelta \<Longrightarrow> is_str (jget chunk ''id'') \<and> is_str (jget chunk ''argumentsDelta'')
      \<and> (has_own chunk ''name'' \<longrightarrow> is_str (jget chunk ''name''))"
    by (auto simp: classify_chunk_def Let_def split: if_splits)
qed


lemma isDeepEqualJson_num: "isDeepEqualJson (JNum a) (JNum b) \<longleftrightarrow> num_eq a b"
  by simp

lemma str_field:
  "is_str (jget v k) \<Longrightarrow> jget w k = jget v k \<Longrightarrow> \<exists>x. jget v k = Some x \<and> isDeepEqualJson x (sub w k)"
  by (cases "jget v k" rule: is_str.cases) (auto simp: sub_def)

text \<open>The chunk that expansion rebuilds, for the row of the run the chunk belongs to.\<close>

lemma member_chunk_eq:
  assumes c: "classify_chunk chunk = Some kind" "json_wf chunk" "is_num (jget chunk ''index'')"
    and index: "sub data ''index'' = JNum i" "num_eq (num_of (jget chunk ''index'')) i"
    and member: "member = JStr (str_of (jget chunk (if kind = ToolCallDelta then ''argumentsDelta'' else ''text'')))"
    and call: "kind = ToolCallDelta \<Longrightarrow> jget data ''id'' = jget chunk ''id''
      \<and> jget data ''name'' = jget chunk ''name'' \<and> has_own data ''name'' = has_own chunk ''name''"
  shows "isDeepEqualJson chunk (member_chunk (row_tag kind) data member)"
proof -
  note e = classify_chunk_elim [OF c(1,2)]
  have i: "\<exists>x. jget chunk ''index'' = Some x \<and> isDeepEqualJson x (JNum i)"
    using c(3) index(2) by (auto simp: is_num_iff)
  have t: "\<exists>x. jget chunk ''type'' = Some x \<and> isDeepEqualJson x (JStr (delta_tag kind))"
    using e(2) by simp
  show ?thesis
  proof (cases "kind = ToolCallDelta")
    case False
    then have "\<exists>x. jget chunk ''text'' = Some x \<and> isDeepEqualJson x member"
      using e(3) member by (auto simp: is_str_iff)
    then have "isDeepEqualJson chunk (JObj [(''type'', JStr (delta_tag kind)), (''index'', JNum i), (''text'', member)])"
      using e(1) i t False by (intro isDeepEqualJson_literal [OF c(2)]) (auto simp: chunk_keys_def)
    with False show ?thesis by (cases kind) (auto simp: member_chunk_def index)
  next
    case True
    note e4 = e(4) [OF True] and call = call [OF True]
    let ?name = "if has_own data ''name'' then [(''name'', sub data ''name'')] else []"
    have "\<exists>x. jget chunk ''argumentsDelta'' = Some x \<and> isDeepEqualJson x member"
      using e4 member True by (auto simp: is_str_iff)
    moreover have "\<exists>x. jget chunk ''id'' = Some x \<and> isDeepEqualJson x (sub data ''id'')"
      "has_own chunk ''name'' \<Longrightarrow> \<exists>x. jget chunk ''name'' = Some x \<and> isDeepEqualJson x (sub data ''name'')"
      using e4 call str_field [of chunk _ data] by auto
    ultimately have "isDeepEqualJson chunk (JObj ([(''type'', JStr (delta_tag kind)), (''index'', JNum i),
        (''id'', sub data ''id'')] @ ?name @ [(''argumentsDelta'', member)]))"
      using e(1) i t True call by (intro isDeepEqualJson_literal [OF c(2)]) (auto simp: chunk_keys_def)
    with True show ?thesis by (simp add: member_chunk_def index)
  qed
qed

lemma classify_elim:
  assumes "classify e = Some kind" "json_wf e"
  obtains sq tm data u p chunk i where
    "jget e ''type'' = Some (JStr ''assistant/chunk'')" "hasExactKeys e [''type'', ''seq'', ''time'', ''data'']"
    "jget e ''seq'' = Some (JNum sq)" "safe_seq sq" "jget e ''time'' = Some (JNum tm)" "isSafeInteger tm"
    "jget e ''data'' = Some data" "json_wf data" "hasExactKeys data [''turn'', ''step'', ''chunk'']"
    "jget data ''turn'' = Some (JNum u)" "jget data ''step'' = Some (JNum p)"
    "jget data ''chunk'' = Some chunk" "json_wf chunk"
    "jget chunk ''index'' = Some (JNum i)" "classify_chunk chunk = Some kind"
proof -
  from assms(1) have t: "jget e ''type'' = Some (JStr ''assistant/chunk'')"
    and keys: "hasExactKeys e [''type'', ''seq'', ''time'', ''data'']"
    and s: "safe_seq (ev_num e ''seq'')" and tm: "isSafeInteger (ev_num e ''time'')"
    and dkeys: "hasExactKeys (sub e ''data'') [''turn'', ''step'', ''chunk'']"
    and nums: "is_num (jget (sub e ''data'') ''turn'')" "is_num (jget (sub e ''data'') ''step'')"
      "is_num (jget (chunk_of e) ''index'')"
    and c: "classify_chunk (chunk_of e) = Some kind"
    by (auto simp: classify_def Let_def split: if_splits)
  obtain data where d: "jget e ''data'' = Some data" "sub e ''data'' = data"
    using hasExactKeys_get [OF keys, of "''data''"] by (metis list.set_intros sub_Some)
  obtain chunk where ch: "jget data ''chunk'' = Some chunk" "sub data ''chunk'' = chunk"
    using hasExactKeys_get [OF dkeys, of "''chunk''"] d(2) by (metis list.set_intros sub_Some)
  have num: "\<exists>n. jget v k = Some (JNum n)" if "is_num (jget v k)" for v k
    using that by (cases "jget v k" rule: is_num.cases) auto
  have safe: "\<exists>n. jget e k = Some (JNum n)" if "safe_seq (ev_num e k) \<or> isSafeInteger (ev_num e k)" for k
    using that by (cases "jget e k" rule: num_of.cases) (auto simp: safe_seq_def)
  obtain sq tm u p i where n: "jget e ''seq'' = Some (JNum sq)" "jget e ''time'' = Some (JNum tm)"
    "jget data ''turn'' = Some (JNum u)" "jget data ''step'' = Some (JNum p)"
    "jget chunk ''index'' = Some (JNum i)"
    using safe [of "''seq''"] safe [of "''time''"] s tm num nums d(2) ch(2) by metis
  have wf: "json_wf data" "json_wf chunk"
    using json_wf_get [OF assms(2) d(1)] json_wf_get ch(1) by blast+
  from n d ch have "ev_num e ''seq'' = sq" "ev_num e ''time'' = tm" by simp_all
  with that [OF t keys n(1) _ n(2) _ d(1) wf(1) _ n(3,4) ch(1) wf(2) n(5)] s tm dkeys c d(2) ch(2)
  show thesis by metis
qed

text \<open>The event that expansion rebuilds.\<close>

lemma member_event_eq:
  assumes c: "classify e = Some kind" "json_wf e"
    and nums: "num_eq (ev_num e ''seq'') s" "num_eq (ev_num e ''time'') t"
      "num_eq (data_num e ''turn'') u" "num_eq (data_num e ''step'') p" "num_eq (indexOf e) i"
    and index: "sub data ''index'' = JNum i"
    and member: "member = JStr (str_of (jget (chunk_of e) (if kind = ToolCallDelta then ''argumentsDelta'' else ''text'')))"
    and call: "kind = ToolCallDelta \<Longrightarrow> jget data ''id'' = jget (chunk_of e) ''id''
      \<and> jget data ''name'' = jget (chunk_of e) ''name'' \<and> has_own data ''name'' = has_own (chunk_of e) ''name''"
  shows "isDeepEqualJson e (JObj [(''type'', JStr ''assistant/chunk''), (''seq'', JNum s), (''time'', JNum t),
      (''data'', JObj [(''turn'', JNum u), (''step'', JNum p), (''chunk'', member_chunk (row_tag kind) data member)])])"
  using c
proof (rule classify_elim, goal_cases)
  case (1 sq tm dat u' p' chunk i')
  from 1 have "isDeepEqualJson chunk (member_chunk (row_tag kind) data member)"
    using nums(5) index member call by (intro member_chunk_eq) (simp_all add: indexOf_def)
  with 1 nums have "isDeepEqualJson dat
      (JObj [(''turn'', JNum u), (''step'', JNum p), (''chunk'', member_chunk (row_tag kind) data member)])"
    by (intro isDeepEqualJson_literal) auto
  with 1 nums c(2) show ?case by (intro isDeepEqualJson_literal) auto
qed


section \<open>A run and its row\<close>

definition uniform :: "delta_kind \<Rightarrow> json list \<Rightarrow> bool" where
  "uniform kind evs \<longleftrightarrow>
     (\<forall>e \<in> set evs. json_wf e \<and> classify e = Some kind)
     \<and> (\<forall>i. Suc i < length evs \<longrightarrow> continues (evs ! i) (evs ! Suc i) kind)"

lemma uniform_one: "json_wf e \<Longrightarrow> classify e = Some kind \<Longrightarrow> uniform kind [e]"
  by (simp add: uniform_def)

lemma uniform_snoc:
  assumes "uniform kind evs" "json_wf e" "classify e = Some kind" "evs \<noteq> []" "continues (last evs) e kind"
  shows "uniform kind (evs @ [e])"
proof -
  have "continues ((evs @ [e]) ! i) ((evs @ [e]) ! Suc i) kind" if "Suc i < length (evs @ [e])" for i
  proof (cases "Suc i < length evs")
    case True
    with assms(1) show ?thesis by (simp add: uniform_def nth_append)
  next
    case False
    with that have "i = length evs - 1" by simp
    with assms(4,5) show ?thesis by (simp add: nth_append last_conv_nth)
  qed
  with assms show ?thesis by (auto simp: uniform_def)
qed

lemma same_read_str: "same_read a b \<Longrightarrow> is_str a \<Longrightarrow> b = a"
proof (cases a rule: is_str.cases)
  case (1 s)
  assume "same_read a b"
  with 1 show "b = a" by (cases b; cases "the b") auto
qed auto

lemma jget_own: "jget v k = None \<longleftrightarrow> \<not> has_own v k"
  by (cases v) (auto simp: map_of_eq_None_iff)

definition call_fields :: "json \<Rightarrow> json option \<times> json option" where
  "call_fields chunk = (jget chunk ''id'', jget chunk ''name'')"

lemma continues_elim:
  assumes "continues a b kind" "classify a = Some kind" "json_wf a" "classify b = Some kind" "json_wf b"
  shows "num_int (ev_num b ''seq'') = num_int (ev_num a ''seq'') + 1"
    "num_int (js_sub (ev_num b ''time'') (ev_num a ''time'')) = num_int (ev_num b ''time'') - num_int (ev_num a ''time'')"
    "isSafeInteger (js_sub (ev_num b ''time'') (ev_num a ''time''))"
    "num_eq (data_num b ''turn'') (data_num a ''turn'')" "num_eq (data_num b ''step'') (data_num a ''step'')"
    "num_eq (indexOf b) (indexOf a)"
    "kind = ToolCallDelta \<Longrightarrow> call_fields (chunk_of b) = call_fields (chunk_of a)"
proof -
  obtain s where s: "ev_num a ''seq'' = s" "safe_seq s"
    using assms(2,3) by (rule classify_elim) simp
  obtain s' where s': "ev_num b ''seq'' = s'" "safe_seq s'"
    using assms(4,5) by (rule classify_elim) simp
  have "num_eq s' (js_add s (NInt 1))" using assms(1) s s' by (simp add: continues_def)
  with s' have "num_int s' = num_int (js_add s (NInt 1))"
    by (simp add: num_eq_integral safe_seq_integral)
  moreover have "double_of (num_int s + 1) = num_int s + 1"
    using s(2) by (auto simp: safe_seq_iff double_of_def MAX_SAFE_INTEGER_def)
  ultimately show "num_int (ev_num b ''seq'') = num_int (ev_num a ''seq'') + 1"
    by (simp add: s s' num_int_add)
  show "isSafeInteger (js_sub (ev_num b ''time'') (ev_num a ''time''))"
    using assms(1) by (simp add: continues_def)
  then show "num_int (js_sub (ev_num b ''time'') (ev_num a ''time'')) = num_int (ev_num b ''time'') - num_int (ev_num a ''time'')"
    by (rule safe_sub)
  show "num_eq (data_num b ''turn'') (data_num a ''turn'')" "num_eq (data_num b ''step'') (data_num a ''step'')"
    "num_eq (indexOf b) (indexOf a)" using assms(1) by (simp_all add: continues_def)
  assume k: "kind = ToolCallDelta"
  obtain chunk where ch: "chunk_of a = chunk" "json_wf chunk" "classify_chunk chunk = Some kind"
    using assms(2,3) by (rule classify_elim) simp
  from classify_chunk_elim(4) [OF ch(3,2) k]
  have a: "is_str (jget chunk ''id'')" "has_own chunk ''name'' \<longrightarrow> is_str (jget chunk ''name'')" by auto
  have c: "same_read (jget chunk ''id'') (jget (chunk_of b) ''id'')"
    "has_own chunk ''name'' = has_own (chunk_of b) ''name''"
    "same_read (jget chunk ''name'') (jget (chunk_of b) ''name'')"
    using assms(1) k ch(1) by (auto simp: continues_def)
  have "jget (chunk_of b) ''name'' = jget chunk ''name''"
  proof (cases "has_own chunk ''name''")
    case True
    with a(2) same_read_str [OF c(3)] show ?thesis by simp
  next
    case False
    with c(2) show ?thesis using jget_own by metis
  qed
  with same_read_str [OF c(1) a(1)] show "call_fields (chunk_of b) = call_fields (chunk_of a)"
    by (simp add: call_fields_def ch(1))
qed

lemma data_nums_wf:
  assumes "classify e = Some kind" "json_wf e"
  shows "no_nan (data_num e ''turn'')" "no_nan (data_num e ''step'')" "no_nan (indexOf e)"
proof -
  from assms show "no_nan (data_num e ''turn'')"
    by (rule classify_elim) (drule (1) json_wf_get [where k = "''turn''"], simp)
  from assms show "no_nan (data_num e ''step'')"
    by (rule classify_elim) (drule (1) json_wf_get [where k = "''step''"], simp)
  from assms show "no_nan (indexOf e)"
    by (rule classify_elim) (drule (1) json_wf_get [where k = "''index''"], simp add: indexOf_def)
qed

text \<open>What every member of a run shares with the first one.\<close>

lemma uniform_nth:
  assumes u: "uniform kind evs" and i: "i < length evs"
  shows "num_int (ev_num (evs ! i) ''seq'') = num_int (ev_num (evs ! 0) ''seq'') + int i
    \<and> num_eq (data_num (evs ! i) ''turn'') (data_num (evs ! 0) ''turn'')
    \<and> num_eq (data_num (evs ! i) ''step'') (data_num (evs ! 0) ''step'')
    \<and> num_eq (indexOf (evs ! i)) (indexOf (evs ! 0))
    \<and> (kind = ToolCallDelta \<longrightarrow> call_fields (chunk_of (evs ! i)) = call_fields (chunk_of (evs ! 0)))"
  using i
proof (induction i)
  case 0
  then have "classify (evs ! 0) = Some kind" "json_wf (evs ! 0)" using u by (auto simp: uniform_def)
  from data_nums_wf [OF this] show ?case by (simp add: num_eq_refl)
next
  case (Suc i)
  then have "classify (evs ! i) = Some kind" "json_wf (evs ! i)" "classify (evs ! Suc i) = Some kind"
    "json_wf (evs ! Suc i)" "continues (evs ! i) (evs ! Suc i) kind"
    using u by (auto simp: uniform_def)
  note c = continues_elim [OF this(5,1-4)]
  from Suc have ih: "num_eq (data_num (evs ! i) ''turn'') (data_num (evs ! 0) ''turn'')"
    "num_eq (data_num (evs ! i) ''step'') (data_num (evs ! 0) ''step'')"
    "num_eq (indexOf (evs ! i)) (indexOf (evs ! 0))" by simp_all
  from c Suc num_eq_trans [OF c(4) ih(1)] num_eq_trans [OF c(5) ih(2)] num_eq_trans [OF c(6) ih(3)]
  show ?case by simp
qed


section \<open>Decoding the row of a run\<close>

lemma row_reads [simp]:
  "jget (buildRow kind evs) ''type'' = Some (JStr (row_tag kind))"
  "jget (buildRow kind evs) ''seq0'' = Some (JNum (ev_num (hd evs) ''seq''))"
  "jget (buildRow kind evs) ''time0'' = Some (JNum (ev_num (hd evs) ''time''))"
  "jget (buildRow kind evs) ''data'' = Some (row_data kind evs)"
  "hasExactKeys (buildRow kind evs) [''type'', ''seq0'', ''time0'', ''data'']"
  "isRecord (buildRow kind evs)"
  by (simp_all add: buildRow_def hasExactKeys_def)

lemma row_data_reads [simp]:
  "jget (row_data kind evs) ''turn'' = Some (JNum (data_num (hd evs) ''turn''))"
  "jget (row_data kind evs) ''step'' = Some (JNum (data_num (hd evs) ''step''))"
  "jget (row_data kind evs) ''index'' = Some (JNum (indexOf (hd evs)))"
  "array_of (row_data kind evs) ''dt'' = Some (map JNum (time_gaps evs))"
  "isRecord (row_data kind evs)"
  by (simp_all add: row_data_def row_base_def Let_def array_of_def)

definition member_text :: "delta_kind \<Rightarrow> json \<Rightarrow> json" where
  "member_text kind e =
     JStr (str_of (jget (chunk_of e) (if kind = ToolCallDelta then ''argumentsDelta'' else ''text'')))"

lemma row_members_eq: "row_members (buildRow kind evs) (row_tag kind) = map (member_text kind) evs"
  by (cases kind) (simp_all add: row_members_def row_data_def row_base_def Let_def array_of_def member_text_def)

lemma row_call:
  assumes "uniform kind evs" "evs \<noteq> []" "kind = ToolCallDelta"
  shows "jget (row_data kind evs) ''id'' = jget (chunk_of (hd evs)) ''id''"
    "jget (row_data kind evs) ''name'' = jget (chunk_of (hd evs)) ''name''"
    "has_own (row_data kind evs) ''name'' = has_own (chunk_of (hd evs)) ''name''"
    "is_str (jget (row_data kind evs) ''id'')"
    "has_own (chunk_of (hd evs)) ''name'' \<Longrightarrow> is_str (jget (row_data kind evs) ''name'')"
proof -
  from assms(1,2) have "classify (hd evs) = Some kind" "json_wf (hd evs)" by (auto simp: uniform_def)
  then obtain chunk where ch: "chunk_of (hd evs) = chunk" "json_wf chunk" "classify_chunk chunk = Some kind"
    by (rule classify_elim) simp
  from classify_chunk_elim(4) [OF ch(3,2) assms(3)]
  have str: "is_str (jget chunk ''id'')" "has_own chunk ''name'' \<Longrightarrow> is_str (jget chunk ''name'')" by auto
  have eq: "is_str r \<Longrightarrow> Some (JStr (str_of r)) = r" for r by (cases r rule: is_str.cases) auto
  show "jget (row_data kind evs) ''id'' = jget (chunk_of (hd evs)) ''id''"
    "is_str (jget (row_data kind evs) ''id'')"
    using str(1) eq by (simp_all add: ch(1) assms(3) row_data_def row_base_def Let_def)
  show "jget (row_data kind evs) ''name'' = jget (chunk_of (hd evs)) ''name''"
    using str(2) eq jget_own [of chunk "''name''"]
    by (auto simp add: ch(1) assms(3) row_data_def row_base_def Let_def)
  show "has_own (row_data kind evs) ''name'' = has_own (chunk_of (hd evs)) ''name''"
    by (cases "has_own (chunk_of (hd evs)) ''name''") (simp_all add: assms(3) row_data_def row_base_def Let_def)
  show "is_str (jget (row_data kind evs) ''name'')" if "has_own (chunk_of (hd evs)) ''name''"
    using that by (simp add: assms(3) row_data_def row_base_def Let_def)
qed

lemma length_time_gaps [simp]: "length (time_gaps evs) = length evs - 1"
  by (simp add: time_gaps_def)

lemma time_gaps_nth:
  "Suc i < length evs \<Longrightarrow>
   time_gaps evs ! i = js_sub (ev_num (evs ! Suc i) ''time'') (ev_num (evs ! i) ''time'')"
  by (simp add: time_gaps_def)

lemma uniform_gap:
  assumes "uniform kind evs" "Suc i < length evs" "integral t" "num_int t = num_int (ev_num (evs ! i) ''time'')"
  shows "isSafeInteger (time_gaps evs ! i)" "isSafeInteger (js_add t (time_gaps evs ! i))"
    "num_int (js_add t (time_gaps evs ! i)) = num_int (ev_num (evs ! Suc i) ''time'')"
proof -
  have e: "classify (evs ! i) = Some kind" "json_wf (evs ! i)" "classify (evs ! Suc i) = Some kind"
    "json_wf (evs ! Suc i)" "continues (evs ! i) (evs ! Suc i) kind"
    using assms by (auto simp: uniform_def)
  note c = continues_elim [OF e(5,1-4)]
  have "isSafeInteger (ev_num (evs ! Suc i) ''time'')"
    using e(3,4) by (rule classify_elim) simp
  then have "\<bar>num_int (ev_num (evs ! Suc i) ''time'')\<bar> \<le> MAX_SAFE_INTEGER"
    by (simp add: isSafeInteger_iff)
  then show "isSafeInteger (time_gaps evs ! i)" "isSafeInteger (js_add t (time_gaps evs ! i))"
    "num_int (js_add t (time_gaps evs ! i)) = num_int (ev_num (evs ! Suc i) ''time'')"
    using c(2,3) assms(2-4) by (simp_all add: time_gaps_nth safe_add num_int_add)
qed

lemma gaps_run:
  assumes "uniform kind evs" "integral t" "num_int t = num_int (ev_num (evs ! i) ''time'')" "i < length evs"
  shows "returns (run time_step t (map JNum (drop i (time_gaps evs))))"
  using assms(2-4)
proof (induction "length evs - Suc i" arbitrary: i t)
  case 0
  then have "drop i (time_gaps evs) = []" by simp
  then show ?case by simp
next
  case (Suc n)
  then have i: "Suc i < length evs" by simp
  note g = uniform_gap [OF assms(1) i Suc.prems(1,2)]
  have "drop i (time_gaps evs) = time_gaps evs ! i # drop (Suc i) (time_gaps evs)"
    using i by (intro Cons_nth_drop_Suc [symmetric]) simp
  with Suc.hyps(1) [of "Suc i" "js_add t (time_gaps evs ! i)"] Suc.hyps(2) i g
  show ?case by (simp add: time_step_def)
qed

lemma time_gaps_safe:
  assumes "uniform kind evs"
  shows "list_all safe_gap (map JNum (time_gaps evs))"
proof -
  have "isSafeInteger (time_gaps evs ! i)" if "i < length (time_gaps evs)" for i
  proof -
    from that have i: "Suc i < length evs" by simp
    with assms have "classify (evs ! i) = Some kind" "json_wf (evs ! i)" by (auto simp: uniform_def)
    then have "isSafeInteger (ev_num (evs ! i) ''time'')" by (rule classify_elim) simp
    then have "integral (ev_num (evs ! i) ''time'')" by (simp add: isSafeInteger_iff)
    from uniform_gap(1) [OF assms i this] show ?thesis by simp
  qed
  then show ?thesis by (simp add: list_all_length)
qed

lemma uniform_seq_bound:
  assumes "uniform kind evs" "i < length evs"
  shows "0 \<le> num_int (ev_num (hd evs) ''seq'') + int i"
    "num_int (ev_num (hd evs) ''seq'') + int i \<le> MAX_SAFE_INTEGER" "safe_seq (ev_num (evs ! i) ''seq'')"
proof -
  from assms have e: "classify (evs ! i) = Some kind" "json_wf (evs ! i)" by (auto simp: uniform_def)
  then show s: "safe_seq (ev_num (evs ! i) ''seq'')" by (rule classify_elim) simp
  have "hd evs = evs ! 0" using assms(2) by (cases evs) auto
  with s uniform_nth [OF assms]
  show "0 \<le> num_int (ev_num (hd evs) ''seq'') + int i" "num_int (ev_num (hd evs) ''seq'') + int i \<le> MAX_SAFE_INTEGER"
    by (auto simp: safe_seq_iff)
qed

lemma expand_run:
  assumes u: "uniform kind evs" and t: "integral t" "k \<le> length evs"
    and before: "k = 0 \<Longrightarrow> evs \<noteq> [] \<Longrightarrow> num_int t = num_int (ev_num (evs ! 0) ''time'')"
      "k \<noteq> 0 \<Longrightarrow> num_int t = num_int (ev_num (evs ! (k - 1)) ''time'')"
  shows "\<exists>out. expand_from (buildRow kind evs) (row_tag kind) k t (map (member_text kind) (drop k evs)) = Inr out
    \<and> list_all2 isDeepEqualJson (drop k evs) out"
  using t before
proof (induction "length evs - k" arbitrary: k t)
  case 0
  then show ?case by simp
next
  case (Suc n)
  then have k: "k < length evs" by simp
  then have ne: "evs \<noteq> []" by auto
  let ?row = "buildRow kind evs" and ?data = "row_data kind evs" and ?e = "evs ! k"
  define t' where "t' = (if 0 < k then js_add t (time_gaps evs ! (k - 1)) else t)"
  have t': "integral t'" "num_int t' = num_int (ev_num ?e ''time'')"
    using uniform_gap(3) [OF u, of "k - 1" t] Suc.prems k ne by (auto simp: t'_def)
  have s: "js_add (ev_num (hd evs) ''seq'') (NInt (int k)) = NInt (num_int (ev_num (hd evs) ''seq'') + int k)"
    using uniform_seq_bound(1,2) [OF u k] by (auto simp: js_add_def)
  have h: "hd evs = evs ! 0" using ne by (cases evs) auto
  note nth = uniform_nth [OF u k]
  have c: "classify ?e = Some kind" "json_wf ?e" using u k by (auto simp: uniform_def)
  have eq: "isDeepEqualJson ?e (JObj [(''type'', JStr ''assistant/chunk''),
      (''seq'', JNum (NInt (num_int (ev_num (hd evs) ''seq'') + int k))), (''time'', JNum t'),
      (''data'', JObj [(''turn'', JNum (data_num (hd evs) ''turn'')), (''step'', JNum (data_num (hd evs) ''step'')),
        (''chunk'', member_chunk (row_tag kind) ?data (member_text kind ?e))])])"
  proof (rule member_event_eq [OF c, where i = "indexOf (hd evs)"])
    show "num_eq (ev_num ?e ''seq'') (NInt (num_int (ev_num (hd evs) ''seq'') + int k))"
      using nth h uniform_seq_bound(3) [OF u k] by (simp add: num_eq_integral safe_seq_integral)
    have "isSafeInteger (ev_num ?e ''time'')" using c by (rule classify_elim) simp
    with t' show "num_eq (ev_num ?e ''time'') t'" by (simp add: num_eq_integral isSafeInteger_iff)
    show "jget ?data ''id'' = jget (chunk_of ?e) ''id''
      \<and> jget ?data ''name'' = jget (chunk_of ?e) ''name''
      \<and> has_own ?data ''name'' = has_own (chunk_of ?e) ''name''" if tool: "kind = ToolCallDelta"
    proof -
      note r = row_call(1,2) [OF u ne tool]
      have f: "jget (chunk_of ?e) ''id'' = jget (chunk_of (hd evs)) ''id''"
        "jget (chunk_of ?e) ''name'' = jget (chunk_of (hd evs)) ''name''"
        using nth tool h by (simp_all add: call_fields_def)
      have "has_own v ''name'' \<longleftrightarrow> jget v ''name'' \<noteq> None" for v
        by (simp add: jget_own)
      then show ?thesis by (simp only: r f)
    qed
  qed (use nth h in \<open>simp_all add: member_text_def\<close>)
  obtain out where out: "expand_from ?row (row_tag kind) (Suc k) t' (map (member_text kind) (drop (Suc k) evs)) = Inr out"
    "list_all2 isDeepEqualJson (drop (Suc k) evs) out"
  proof -
    have "n = length evs - Suc k" using Suc.hyps(2) by arith
    from Suc.hyps(1) [OF this t'(1)] t'(2) k that show thesis by auto
  qed
  have d: "drop k evs = ?e # drop (Suc k) evs" using k by (simp add: Cons_nth_drop_Suc)
  have gap: "0 < k \<Longrightarrow> map JNum (time_gaps evs) ! (k - 1) = JNum (time_gaps evs ! (k - 1))"
    using k by simp
  have "(if 0 < k then js_add t (num_of (Some (the (array_of ?data ''dt'') ! (k - 1)))) else t) = t'"
    using gap by (simp add: t'_def)
  moreover have "sessionSeq (NInt (num_int (ev_num (hd evs) ''seq'') + int k))
      = Inr (NInt (num_int (ev_num (hd evs) ''seq'') + int k))"
    using uniform_seq_bound(1,2) [OF u k] by (simp add: sessionSeq_def safe_seq_iff)
  ultimately show ?case
    unfolding d using out eq s by (simp add: Let_def)
qed

lemma decode_row:
  assumes u: "uniform kind evs" and ne: "evs \<noteq> []"
  shows "\<exists>out. decodeStorageRecord (buildRow kind evs) = Inr out \<and> list_all2 isDeepEqualJson evs out"
proof -
  let ?row = "buildRow kind evs" and ?data = "row_data kind evs" and ?tag = "row_tag kind"
  have h: "hd evs = evs ! 0" using ne by (cases evs) auto
  have e: "classify (hd evs) = Some kind" "json_wf (hd evs)" using u ne by (auto simp: uniform_def)
  then have s: "safe_seq (ev_num (hd evs) ''seq'')" and t: "isSafeInteger (ev_num (hd evs) ''time'')"
    by (auto elim: classify_elim)
  have tag: "row_tag_of ?row = Some ?tag" by (cases kind) (simp_all add: row_tag_of_def)
  have strs: "list_all (\<lambda>x. is_str (Some x)) (map (member_text kind) evs)"
    by (simp add: list_all_iff member_text_def)
  have arr: "array_of ?data (if kind = ToolCallDelta then ''args'' else ''texts'') = Some (map (member_text kind) evs)"
    by (auto simp add: row_data_def row_base_def Let_def array_of_def member_text_def)
  have gaps: "\<not> list_ex (\<lambda>g. \<not> safe_gap g) (map JNum (time_gaps evs))"
    using time_gaps_safe [OF u] by (auto simp: list_ex_iff list_all_iff)
  have run: "validateRunData ?data (if kind = ToolCallDelta then ''args'' else ''texts'') = Inr (map (member_text kind) evs)"
    using strs gaps ne by (auto simp add: validateRunData_def arr list_ex_iff list_all_iff)
  have "validate_payload ?data ?tag = Inr (map (member_text kind) evs)"
  proof (cases "kind = ToolCallDelta")
    case True
    with row_call(4,5) [OF u ne True] run show ?thesis
      by (cases "has_own (chunk_of (hd evs)) ''name''")
        (simp_all add: validate_payload_def Let_def row_data_def row_base_def hasExactKeys_def)
  next
    case False
    with run show ?thesis
      by (cases kind) (simp_all add: validate_payload_def row_data_def row_base_def hasExactKeys_def Let_def)
  qed
  moreover have "int (length evs) - 1 \<le> MAX_SAFE_INTEGER - num_int (ev_num (hd evs) ''seq'')"
    using uniform_seq_bound(2) [OF u, of "length evs - 1"] ne by (cases evs) auto
  moreover obtain z where "run time_step (ev_num (hd evs) ''time'') (map JNum (time_gaps evs)) = Inr z"
    using gaps_run [OF u, of "ev_num (hd evs) ''time''" 0] t h ne by (auto simp: returns_iff isSafeInteger_iff)
  ultimately have v: "validateRow ?row ?tag = Inr ?row"
    using s t by (simp add: validateRow_def sessionSeq_def Let_def)
  have "expandRow ?row ?tag = expand_from ?row ?tag 0 (ev_num (hd evs) ''time'') (map (member_text kind) (drop 0 evs))"
    by (simp add: expandRow_def row_members_eq)
  with expand_run [OF u, of "ev_num (hd evs) ''time''" 0] t h
  show ?thesis by (simp add: decodeStorageRecord_def tag v isSafeInteger_iff)
qed


section \<open>Round trip\<close>

text \<open>
  What a log hands to the encoder: detached JSON values that are not tagged as rows, whose
  numeric \<open>seq\<close> is a position.
\<close>

definition storable :: "json \<Rightarrow> bool" where
  "storable e \<longleftrightarrow> json_wf e \<and> \<not> isChunkRow e
     \<and> (is_num (jget e ''seq'') \<longrightarrow> safe_seq (num_of (jget e ''seq'')))"

definition decodes :: "json list \<Rightarrow> json list \<Rightarrow> bool" where
  "decodes rows evs \<longleftrightarrow>
     (\<exists>ess. map_result decodeStorageRecord rows = Inr ess \<and> list_all2 isDeepEqualJson evs (concat ess))"

lemma decodes_Nil: "decodes [] []"
  by (simp add: decodes_def)

lemma decodes_append: "decodes xs es \<Longrightarrow> decodes ys fs \<Longrightarrow> decodes (xs @ ys) (es @ fs)"
  unfolding decodes_def map_result_append by (auto intro: list_all2_appendI)

lemma decodes_verbatim: "list_all storable evs \<Longrightarrow> decodes evs evs"
proof (induction evs)
  case Nil
  show ?case by (rule decodes_Nil)
next
  case (Cons e evs)
  then have "decodeStorageRecord e = Inr [e]"
    by (auto simp: storable_def decodeStorageRecord_def isChunkRow_def sessionSeq_def)
  moreover have "isDeepEqualJson e e" using Cons.prems by (simp add: storable_def isDeepEqualJson_refl)
  ultimately have "decodes [e] [e]" by (simp add: decodes_def)
  from decodes_append [OF this Cons.IH] Cons.prems show ?case by simp
qed

definition run_ok :: "pack_state \<Rightarrow> bool" where
  "run_ok st \<longleftrightarrow>
     (case pk_kind st of None \<Rightarrow> pk_run st = [] | Some k \<Rightarrow> pk_run st \<noteq> [] \<and> uniform k (pk_run st))"

definition pack_inv :: "json list \<Rightarrow> pack_state \<Rightarrow> bool" where
  "pack_inv evs st \<longleftrightarrow>
     run_ok st \<and> list_all storable (pk_run st)
     \<and> (\<exists>past. evs = past @ pk_run st \<and> decodes (pk_out st) past)"

lemma flush_decodes: "pack_inv evs st \<Longrightarrow> decodes (pk_out (flush st)) evs"
proof -
  assume inv: "pack_inv evs st"
  then obtain past where past: "evs = past @ pk_run st" "decodes (pk_out st) past"
    and s: "list_all storable (pk_run st)" and r: "run_ok st" by (auto simp: pack_inv_def)
  have "decodes [buildRow k (pk_run st)] (pk_run st)" if "pk_kind st = Some k" for k
    using decode_row [of k "pk_run st"] r that by (auto simp: decodes_def run_ok_def)
  with decodes_append [OF past(2)] decodes_verbatim [OF s] past(1) show ?thesis
    by (auto simp: flush_def split: option.splits)
qed

lemma pack_step_inv:
  assumes inv: "pack_inv evs st" and e: "storable e"
  shows "pack_inv (evs @ [e]) (pack_step st e)"
proof (cases "classify e")
  case None
  have "decodes (pk_out (flush st) @ [e]) (evs @ [e])"
    using flush_decodes [OF inv] decodes_verbatim [of "[e]"] e by (intro decodes_append) simp_all
  with None show ?thesis by (simp add: pack_step_def Let_def pack_inv_def run_ok_def flush_def)
next
  case (Some k)
  have wf: "json_wf e" using e by (simp add: storable_def)
  show ?thesis
  proof (cases "pk_kind st = Some k \<and> pk_run st \<noteq> [] \<and> continues (last (pk_run st)) e k")
    case True
    with inv have "uniform k (pk_run st @ [e])"
      by (intro uniform_snoc [OF _ wf Some]) (auto simp: pack_inv_def run_ok_def)
    with True Some inv e show ?thesis by (auto simp: pack_step_def pack_inv_def run_ok_def)
  next
    case False
    then have "pack_step st e = (flush st)\<lparr>pk_kind := Some k, pk_run := [e]\<rparr>"
      using Some False by (auto simp: pack_step_def)
    with flush_decodes [OF inv] e uniform_one [OF wf Some] show ?thesis
      by (simp add: pack_inv_def run_ok_def)
  qed
qed

lemma pack_fold_inv:
  "list_all storable evs \<Longrightarrow> pack_inv past st \<Longrightarrow> pack_inv (past @ evs) (foldl pack_step st evs)"
proof (induction evs arbitrary: past st)
  case (Cons e evs)
  from Cons.IH [OF _ pack_step_inv [OF Cons.prems(2)], of e] Cons.prems(1) show ?case by simp
qed simp

text \<open>
  C18: packing loses nothing. For any batch of log events, every packed record decodes without an
  error, and the decoded events, in order, are the batch: each equals the original as a JSON
  value (key order and the sign of zero aside), token boundaries and timestamps included.
\<close>

theorem packed_events_decode_back:
  assumes "list_all storable events"
  shows "\<exists>ess. map_result decodeStorageRecord (packChunkRuns events) = Inr ess
    \<and> list_all2 isDeepEqualJson events (concat ess)"
proof -
  let ?st = "\<lparr>pk_out = [], pk_kind = None, pk_run = []\<rparr>"
  have "pack_inv [] ?st" by (simp add: pack_inv_def run_ok_def decodes_Nil)
  from flush_decodes [OF pack_fold_inv [OF assms this]] show ?thesis
    by (simp add: packChunkRuns_def decodes_def)
qed

definition sample_delta :: "nat \<Rightarrow> int \<Rightarrow> string \<Rightarrow> json" where
  "sample_delta s t x =
     JObj [(''type'', JStr ''assistant/chunk''), (''time'', JNum (NInt t)), (''seq'', num s),
           (''data'', JObj [(''turn'', num 1), (''step'', num 1),
              (''chunk'', JObj [(''type'', JStr ''text-delta''), (''text'', JStr x), (''index'', num 0)])])]"

definition sample_batch :: "json list" where
  "sample_batch = [sample_delta 4 50 ''a'', sample_delta 5 53 ''b'', sample_delta 6 52 ''c'', sample_delta 8 60 ''d'']"

theorem packed_events_decode_back_witness:
  "length (packChunkRuns sample_batch) = 2
   \<and> (\<exists>ess. map_result decodeStorageRecord (packChunkRuns sample_batch) = Inr ess
        \<and> length (concat ess) = 4)"
proof -
  have n: "length (packChunkRuns sample_batch) = 2" by code_simp
  have "list_all storable sample_batch"
    by (simp add: sample_batch_def sample_delta_def storable_def isChunkRow_def row_tag_of_def num_def
        safe_seq_def MAX_SAFE_INTEGER_def)
  from packed_events_decode_back [OF this] obtain ess where
    ess: "map_result decodeStorageRecord (packChunkRuns sample_batch) = Inr ess"
    "list_all2 isDeepEqualJson sample_batch (concat ess)" by blast
  from list_all2_lengthD [OF ess(2)] have "length (concat ess) = 4" by (simp add: sample_batch_def)
  with n ess(1) show ?thesis by blast
qed

section \<open>What a row can decode to\<close>

lemma expand_from_elim:
  assumes "expand_from row tag k t ms = Inr out"
  shows "length out = length ms"
    "j < length out \<Longrightarrow> ev_num (out ! j) ''seq'' = js_add (num_of (jget row ''seq0'')) (NInt (int (k + j)))
       \<and> safe_seq (ev_num (out ! j) ''seq'')"
proof -
  have "length out = length ms \<and> (\<forall>j < length out. ev_num (out ! j) ''seq'' =
      js_add (num_of (jget row ''seq0'')) (NInt (int (k + j))) \<and> safe_seq (ev_num (out ! j) ''seq''))"
    using assms
  proof (induction ms arbitrary: k t out)
    case Nil
    then show ?case by simp
  next
    case (Cons m ms)
    then obtain s t' evs rest where s: "sessionSeq (js_add (num_of (jget row ''seq0'')) (NInt (int k))) = Inr s"
      and r: "expand_from row tag (Suc k) t' ms = Inr evs" and out: "out = JObj rest # evs"
      and seq: "map_of rest ''seq'' = Some (JNum s)"
      by (fastforce simp: Let_def rbind_Inr_iff)
    from s have s': "s = js_add (num_of (jget row ''seq0'')) (NInt (int k))" "safe_seq s"
      by (auto simp: sessionSeq_def split: if_splits)
    from Cons.IH [OF r] s' show ?case
      by (auto simp: out seq nth_Cons add.left_commute split: nat.splits)
  qed
  then show "length out = length ms"
    "j < length out \<Longrightarrow> ev_num (out ! j) ''seq'' = js_add (num_of (jget row ''seq0'')) (NInt (int (k + j)))
       \<and> safe_seq (ev_num (out ! j) ''seq'')" by auto
qed


text \<open>What validation has established about the data of a row.\<close>

definition row_data_ok :: "delta_kind \<Rightarrow> json \<Rightarrow> json list \<Rightarrow> json list \<Rightarrow> bool" where
  "row_data_ok kind data members gaps \<longleftrightarrow>
     is_num (jget data ''turn'') \<and> is_num (jget data ''step'') \<and> is_num (jget data ''index'')
     \<and> array_of data (if kind = ToolCallDelta then ''args'' else ''texts'') = Some members
     \<and> array_of data ''dt'' = Some gaps \<and> members \<noteq> [] \<and> length gaps = length members - 1
     \<and> list_all (\<lambda>m. is_str (Some m)) members
     \<and> (kind = ToolCallDelta \<longrightarrow> is_str (jget data ''id'') \<and> (has_own data ''name'' \<longrightarrow> is_str (jget data ''name'')))"

lemma validateRunData_Inr:
  "validateRunData data key = Inr ms \<Longrightarrow>
   is_num (jget data ''turn'') \<and> is_num (jget data ''step'') \<and> is_num (jget data ''index'')
   \<and> array_of data key = Some ms \<and> ms \<noteq> [] \<and> list_all (\<lambda>m. is_str (Some m)) ms
   \<and> (\<exists>gaps. array_of data ''dt'' = Some gaps \<and> length gaps = length ms - 1)"
  by (auto simp: validateRunData_def list_ex_iff list_all_iff split: if_splits option.splits)

lemma validate_payload_Inr:
  assumes "validate_payload data (row_tag kind) = Inr ms"
  shows "\<exists>gaps. row_data_ok kind data ms gaps"
proof (cases "kind = ToolCallDelta")
  case True
  let ?six = "[''turn'', ''step'', ''index'', ''id'', ''dt'', ''args'']"
  have "hasExactKeys data ?six \<Longrightarrow> \<not> has_own data ''name''" by (simp add: hasExactKeys_own)
  with assms True have "validateRunData data ''args'' = Inr ms"
    "is_str (jget data ''id'')" "has_own data ''name'' \<longrightarrow> is_str (jget data ''name'')"
    by (auto simp: validate_payload_def Let_def split: if_splits)
  with True validateRunData_Inr show ?thesis by (fastforce simp: row_data_ok_def)
next
  case False
  with assms have "validateRunData data ''texts'' = Inr ms"
    by (cases kind) (auto simp: validate_payload_def Let_def split: if_splits)
  with False validateRunData_Inr show ?thesis by (fastforce simp: row_data_ok_def)
qed

lemma is_num_sub: "is_num (jget v k) \<Longrightarrow> is_num (Some (sub v k))"
  by (cases "jget v k" rule: is_num.cases) (auto simp: sub_def)

lemma is_str_sub: "is_str (jget v k) \<Longrightarrow> is_str (Some (sub v k))"
  by (cases "jget v k" rule: is_str.cases) (auto simp: sub_def)

lemma classify_member:
  assumes d: "row_data_ok kind data ms gaps" and m: "is_str (Some m)" and s: "safe_seq s" "isSafeInteger t"
  shows "classify (JObj [(''type'', JStr ''assistant/chunk''), (''seq'', JNum s), (''time'', JNum t),
      (''data'', JObj [(''turn'', sub data ''turn''), (''step'', sub data ''step''),
        (''chunk'', member_chunk (row_tag kind) data m)])]) = Some kind"
proof -
  have n: "is_num (Some (sub data ''turn''))" "is_num (Some (sub data ''step''))" "is_num (Some (sub data ''index''))"
    using d is_num_sub by (auto simp: row_data_ok_def)
  have "classify_chunk (member_chunk (row_tag kind) data m) = Some kind"
    using d m is_str_sub [of data "''id''"] is_str_sub [of data "''name''"]
    by (cases kind; cases "has_own data ''name''")
      (simp_all add: member_chunk_def classify_chunk_def hasExactKeys_def row_data_ok_def)
  moreover have "isRecord (member_chunk (row_tag kind) data m)"
    "jget (member_chunk (row_tag kind) data m) ''index'' = Some (sub data ''index'')"
    by (cases kind; simp add: member_chunk_def)+
  ultimately show ?thesis using n s by (simp add: classify_def hasExactKeys_def)
qed

lemma time_run_Cons:
  "returns (run time_step t (g # gs)) \<Longrightarrow>
   isSafeInteger (js_add t (num_of (Some g))) \<and> returns (run time_step (js_add t (num_of (Some g))) gs)"
  by (auto simp: time_step_def Let_def split: if_splits)

lemma expand_from_classified:
  assumes ok: "row_data_ok kind (sub row ''data'') all gaps"
    and "expand_from row (row_tag kind) k t ms = Inr out" "list_all (\<lambda>m. is_str (Some m)) ms"
    and "isSafeInteger t" "returns (run time_step t (drop (k - 1) gaps))" "k + length ms \<le> Suc (length gaps)"
  shows "list_all (\<lambda>e. classify e = Some kind) out"
  using assms(2-)
proof (induction ms arbitrary: k t out)
  case Nil
  then show ?case by simp
next
  case (Cons m ms)
  let ?data = "sub row ''data''"
  define t' where "t' = (if 0 < k then js_add t (num_of (Some (gaps ! (k - 1)))) else t)"
  have gaps: "the (array_of ?data ''dt'') = gaps" using ok by (simp add: row_data_ok_def)
  have t': "isSafeInteger t' \<and> returns (run time_step t' (drop k gaps))"
  proof (cases k)
    case 0
    with Cons.prems show ?thesis by (simp add: t'_def)
  next
    case (Suc j)
    with Cons.prems(5) have "drop j gaps = gaps ! j # drop k gaps"
      by (simp add: Cons_nth_drop_Suc)
    with time_run_Cons [of t "gaps ! j" "drop k gaps"] Cons.prems(4) Suc show ?thesis by (simp add: t'_def)
  qed
  from Cons.prems(1) [unfolded expand_from.simps Let_def gaps, folded t'_def]
  obtain s evs where s: "sessionSeq (js_add (num_of (jget row ''seq0'')) (NInt (int k))) = Inr s"
    and r: "expand_from row (row_tag kind) (Suc k) t' ms = Inr evs"
    and out: "out = JObj [(''type'', JStr ''assistant/chunk''), (''seq'', JNum s), (''time'', JNum t'),
        (''data'', JObj [(''turn'', sub ?data ''turn''), (''step'', sub ?data ''step''),
          (''chunk'', member_chunk (row_tag kind) ?data m)])] # evs"
    by (auto simp: rbind_Inr_iff)
  have "list_all (\<lambda>e. classify e = Some kind) evs"
    using Cons.IH [OF r] Cons.prems t' by simp
  moreover have "safe_seq s" using s by (auto simp: sessionSeq_def split: if_splits)
  ultimately show ?case
    unfolding out using classify_member [OF ok, of m s t'] t' Cons.prems(2) by simp
qed

text \<open>
  C19: a storage row never yields anything but a run of deltas. Whatever value storage returns, if
  it carries a row tag and decodes at all, then it decodes to at least one event and as many as
  the row's length says, each of the exact delta shape the encoder accepts (safe position, safe
  time, one kind for the whole row), at the consecutive positions from \<open>seq0\<close> on.
\<close>

theorem decoded_row_is_delta_run:
  assumes "isChunkRow row" "decodeStorageRecord row = Inr evs"
  shows "evs \<noteq> [] \<and> length evs = chunkRowLength row
    \<and> (\<exists>kind. list_all (\<lambda>e. classify e = Some kind) evs)
    \<and> (\<forall>j < length evs. num_int (ev_num (evs ! j) ''seq'') = num_int (num_of (jget row ''seq0'')) + int j)"
proof -
  from assms(1) obtain tag where tag: "row_tag_of row = Some tag" by (auto simp: isChunkRow_def)
  then obtain kind where kind: "tag = row_tag kind"
    by (auto simp: row_tag_of_def split: option.splits json.splits if_splits)
      (metis row_tag.simps)+
  have rec: "isRecord row" using tag by (cases row) (auto simp: row_tag_of_def)
  with assms(2) tag have v: "validateRow row tag = Inr row" and x: "expandRow row tag = Inr evs"
    by (auto simp: decodeStorageRecord_def rbind_Inr_iff validateRow_def Let_def split: if_splits)
  then obtain ms z where p: "validate_payload (sub row ''data'') tag = Inr ms"
    and t: "isSafeInteger (num_of (jget row ''time0''))"
    and r: "run time_step (num_of (jget row ''time0'')) (the (array_of (sub row ''data'') ''dt'')) = Inr z"
    by (auto simp: validateRow_def Let_def rbind_Inr_iff split: if_splits)
  from validate_payload_Inr p kind obtain gaps where ok: "row_data_ok kind (sub row ''data'') ms gaps"
    by blast
  have members: "row_members row tag = ms"
    using ok kind by (cases kind) (auto simp: row_members_def row_data_ok_def)
  with x have e: "expand_from row tag 0 (num_of (jget row ''time0'')) ms = Inr evs" by (simp add: expandRow_def)
  note elim = expand_from_elim [OF e]
  have "num_int (ev_num (evs ! j) ''seq'') = num_int (num_of (jget row ''seq0'')) + int j" if "j < length evs" for j
    using elim(2) [OF that] by (auto simp: safe_seq_iff num_int_add double_of_safe
        abs_if MAX_SAFE_INTEGER_def double_of_def split: if_splits)
  moreover have "list_all (\<lambda>e. classify e = Some kind) evs"
    using expand_from_classified [OF ok, of 0 "num_of (jget row ''time0'')" ms evs] e ok t r
    by (simp add: row_data_ok_def kind)
  moreover have "ms \<noteq> []" using ok by (simp add: row_data_ok_def)
  ultimately show ?thesis
    using elim(1) by (auto simp: chunkRowLength_def tag members)
qed


definition sample_row :: json where
  "sample_row =
     JObj [(''type'', JStr ''tool-call-chunks''), (''seq0'', num 9), (''time0'', JNum (NInt 100)),
           (''data'', JObj [(''turn'', num 1), (''step'', num 2), (''index'', num 0),
              (''dt'', JArr [JNum (NInt (- 5))]), (''id'', JStr ''c''), (''args'', JArr [JStr ''{'', JStr ''}''])])]"

theorem decoded_row_is_delta_run_witness:
  "\<exists>evs. decodeStorageRecord sample_row = Inr evs \<and> length evs = 2
     \<and> num_int (ev_num (evs ! 1) ''seq'') = 10"
proof -
  have row: "isChunkRow sample_row" "returns (decodeStorageRecord sample_row)" "chunkRowLength sample_row = 2"
    "num_of (jget sample_row ''seq0'') = NInt 9"
    by code_simp+
  then obtain evs where evs: "decodeStorageRecord sample_row = Inr evs" by (auto simp: returns_iff)
  from decoded_row_is_delta_run [OF row(1) evs] row(3,4) evs show ?thesis by auto
qed

end
