(* ===== verification/Js_Strings.thy ===== *)
theory Js_Strings
  imports Json
begin

text \<open>
  JavaScript strings as the packages read them: trimming, the character classes of their regular
  expressions, readers for a fixed number of digits, and zero-padded decimal numbers. The lemmas
  show that a trimmed non-empty string is its own trim and that the digit reader accepts exactly
  the padded notation.
\<close>

section \<open>Trimming\<close>

text \<open>\<open>trim\<close>, for the characters below 256.\<close>

definition js_space :: "char \<Rightarrow> bool" where
  "js_space c \<longleftrightarrow> of_char c \<in> {9, 10, 11, 12, 13, 32, 160 :: nat}"

definition js_trim :: "string \<Rightarrow> string" where
  "js_trim s = rev (dropWhile js_space (rev (dropWhile js_space s)))"

definition lower :: "char \<Rightarrow> bool" where
  "lower c \<longleftrightarrow> 97 \<le> (of_char c :: nat) \<and> (of_char c :: nat) \<le> 122"

definition digit :: "char \<Rightarrow> bool" where
  "digit c \<longleftrightarrow> 48 \<le> (of_char c :: nat) \<and> (of_char c :: nat) \<le> 57"

definition normalString :: "string \<Rightarrow> bool" where
  "normalString s \<longleftrightarrow> js_trim s \<noteq> [] \<and> s = js_trim s"

fun string_of :: "json option \<Rightarrow> string option" where
  "string_of (Some (JStr s)) = Some s"
| "string_of _ = None"

fun plain_record :: "json \<Rightarrow> bool" where
  "plain_record (JObj _) = True"
| "plain_record _ = False"

lemma last_dropWhile: "dropWhile P xs \<noteq> [] \<Longrightarrow> last (dropWhile P xs) = last xs"
  by (metis last_appendR takeWhile_dropWhile_id)

lemma js_trim_ends:
  assumes "js_trim s \<noteq> []"
  shows "\<not> js_space (hd (js_trim s))" "\<not> js_space (last (js_trim s))"
proof -
  let ?t = "dropWhile js_space s"
  have r: "dropWhile js_space (rev ?t) \<noteq> []" using assms by (simp add: js_trim_def)
  then show "\<not> js_space (last (js_trim s))"
    using hd_dropWhile [OF r] by (simp add: js_trim_def last_rev)
  have t: "?t \<noteq> []" using r by (metis dropWhile.simps(1) rev.simps(1))
  show "\<not> js_space (hd (js_trim s))"
    using hd_dropWhile [OF t] last_dropWhile [OF r] by (simp add: js_trim_def hd_rev last_rev)
qed

lemma dropWhile_hd: "xs \<noteq> [] \<Longrightarrow> \<not> P (hd xs) \<Longrightarrow> dropWhile P xs = xs"
  by (cases xs) auto

lemma js_trim_normal: "js_trim s \<noteq> [] \<Longrightarrow> normalString (js_trim s)"
proof -
  assume ne: "js_trim s \<noteq> []"
  note e = js_trim_ends [OF ne]
  have "js_trim (js_trim s) = js_trim s"
    using ne e by (subst js_trim_def) (simp add: dropWhile_hd hd_rev)
  with ne show "normalString (js_trim s)" by (simp add: normalString_def)
qed

section \<open>Fixed-width decimal fields\<close>

text \<open>\<open>\d{n}\<close> at the start of the subject, with the number it denotes; a literal character.\<close>

definition take_digits :: "nat \<Rightarrow> string \<Rightarrow> (int \<times> string) option" where
  "take_digits n s =
     (if n \<le> length s \<and> list_all digit (take n s) then Some (int (read_nat (take n s)), drop n s) else None)"

fun take_char :: "char \<Rightarrow> string \<Rightarrow> string option" where
  "take_char c (x # s) = (if x = c then Some s else None)"
| "take_char c [] = None"

text \<open>\<open>String(v).padStart(n, '0')\<close> for a number of at most n digits.\<close>

fun pad :: "nat \<Rightarrow> int \<Rightarrow> string" where
  "pad 0 v = []"
| "pad (Suc n) v = pad n (v div 10) @ [digit_char (nat (v mod 10))]"

lemma length_pad [simp]: "length (pad n v) = n"
  by (induction n v rule: pad.induct) auto

lemma digit_of_char: "d < 10 \<Longrightarrow> digit (digit_char d)"
  by (simp add: digit_def digit_char_def)

lemma digit_char_value: "digit c \<Longrightarrow> digit_char (digit_value c) = c \<and> digit_value c < 10"
  by (auto simp: digit_def digit_char_def digit_value_def)

lemma pad_digits: "list_all digit (pad n v)"
  by (induction n v rule: pad.induct) (auto simp: digit_of_char nat_less_iff)

lemma read_nat_snoc: "read_nat (s @ [c]) = 10 * read_nat s + digit_value c"
  by (simp add: read_nat_def)

lemma read_pad: "0 \<le> v \<Longrightarrow> v < 10 ^ n \<Longrightarrow> int (read_nat (pad n v)) = v"
proof (induction n v rule: pad.induct)
  case (1 v)
  then show ?case by (simp add: read_nat_def)
next
  case (2 n v)
  then have "0 \<le> v div 10" "v div 10 < 10 ^ n" by (auto simp: div_less_iff_less_mult mult.commute)
  with 2 show ?case by (simp add: read_nat_snoc digit_value_char nat_less_iff)
qed

lemma pad_read: "list_all digit s \<Longrightarrow> pad (length s) (int (read_nat s)) = s \<and> read_nat s < 10 ^ length s"
proof (induction s rule: rev_induct)
  case Nil
  then show ?case by (simp add: read_nat_def)
next
  case (snoc c s)
  then have c: "digit_char (digit_value c) = c" "digit_value c < 10" using digit_char_value by auto
  have "int (10 * read_nat s + digit_value c) div 10 = int (read_nat s)"
    "nat (int (10 * read_nat s + digit_value c) mod 10) = digit_value c"
    using c(2) by simp_all
  with snoc c show ?case by (simp add: read_nat_snoc)
qed

lemma take_digits_Some:
  "take_digits n s = Some (v, r) \<longleftrightarrow> s = pad n v @ r \<and> 0 \<le> v \<and> v < 10 ^ n"
proof
  assume "take_digits n s = Some (v, r)"
  then have n: "n \<le> length s" "list_all digit (take n s)" "v = int (read_nat (take n s))" "r = drop n s"
    by (auto simp: take_digits_def split: if_splits)
  then have len: "length (take n s) = n" by simp
  have p: "pad n v = take n s" "read_nat (take n s) < 10 ^ n"
    using pad_read [OF n(2)] by (simp_all only: len n(3))
  from p(2) have "int (read_nat (take n s)) < int (10 ^ n)" by (simp only: of_nat_less_iff)
  then have "0 \<le> v" "v < 10 ^ n" by (simp_all add: n(3))
  moreover have "s = pad n v @ r" by (simp only: p(1) n(4) append_take_drop_id)
  ultimately show "s = pad n v @ r \<and> 0 \<le> v \<and> v < 10 ^ n" by (intro conjI)
next
  assume "s = pad n v @ r \<and> 0 \<le> v \<and> v < 10 ^ n"
  then show "take_digits n s = Some (v, r)" by (simp add: take_digits_def pad_digits read_pad)
qed

lemma take_char_Some: "take_char c s = Some r \<longleftrightarrow> s = c # r"
  by (cases s) auto

lemma pad_inject: "0 \<le> v \<Longrightarrow> v < 10 ^ n \<Longrightarrow> 0 \<le> w \<Longrightarrow> w < 10 ^ n \<Longrightarrow> pad n v = pad n w \<longleftrightarrow> v = w"
  by (metis read_pad)

end
