(* ===== verification/Goal_Fold.thy ===== *)
theory Goal_Fold
  imports Session_Types Js_Strings "HOL-Library.List_Lexorder" "HOL-Library.Char_ord"
begin

text \<open>
  The durable goal stream, goal/goal/src/fold.ts and types.ts: the strict decoder of a
  \<open>goal/change\<close> payload, the fold over a session log that admits one mutation or one goal round at
  a time and throws on anything else, and the projection of goal/goal/src/index.ts that retains
  the first throw instead. The results: the payload the service writes decodes to the change it
  was written from; a goal's revisions count up by one from its creation and no goal identity is
  created twice; the round counter is the number of rounds admitted since the creation; and the
  projection is the fold, with the first failure kept.
\<close>

section \<open>Values\<close>

datatype goal_phase = Active | Paused | GoalBlocked | Complete

record block_reason =
  br_code :: string
  br_message :: string

record goal_ref =
  gr_id :: string
  gr_revision :: int

record goal_snapshot =
  g_id :: string
  g_revision :: int
  g_objective :: string
  g_phase :: goal_phase
  g_blockedReason :: "block_reason option"
  g_maxGoalRounds :: int

datatype goal_operation = Create | Edit | Pause | Resume | CompleteOp | Block

datatype goal_change =
    SnapshotChange (ch_operation: goal_operation) (ch_goal: goal_snapshot) (ch_roundsStarted: int)
      (ch_createdAt: int) (ch_updatedAt: int)
  | ClearChange (ch_cleared: goal_ref) (ch_clearedAt: int)

datatype goal_error =
    NotPositive string | NotNonNegative string | ReasonKeys | ReasonCode | ReasonMessage
  | GoalNotRecord | GoalIdEmpty | ObjectiveNotNormal | PhaseInvalid | SnapshotKeys
  | RefKeys | RefIdEmpty | BadVersion | ClearKeys | BadOperation | ChangeKeys | UpdatedBeforeCreated
  | BadSource | DefinitionChanged | WrongRevision | CountersNotKept | EditChangedPhase
  | BadTransition goal_operation | NoCurrentGoal | ClearedBeforeUpdate | NotFreshGoal
  | NotAGoalChange | RoundNotNext

text \<open>The literals of the wire vocabulary.\<close>

fun phase_name :: "goal_phase \<Rightarrow> string" where
  "phase_name Active = ''active''"
| "phase_name Paused = ''paused''"
| "phase_name GoalBlocked = ''blocked''"
| "phase_name Complete = ''complete''"

fun operation_name :: "goal_operation \<Rightarrow> string" where
  "operation_name Create = ''create''"
| "operation_name Edit = ''edit''"
| "operation_name Pause = ''pause''"
| "operation_name Resume = ''resume''"
| "operation_name CompleteOp = ''complete''"
| "operation_name Block = ''block''"

definition PHASES :: "goal_phase list" where
  "PHASES = [Active, Paused, GoalBlocked, Complete]"

definition SNAPSHOT_OPERATIONS :: "goal_operation list" where
  "SNAPSHOT_OPERATIONS = [Create, Edit, Pause, Resume, CompleteOp, Block]"

definition GOAL_CHANGE_VERSION :: int where
  "GOAL_CHANGE_VERSION = 1"

section \<open>Strings\<close>

text \<open>The regular expression \<open>/^[a-z][a-z0-9]*(?:-[a-z0-9]+)*$/\<close>.\<close>

fun kebab_rest :: "bool \<Rightarrow> string \<Rightarrow> bool" where
  "kebab_rest dash [] = (\<not> dash)"
| "kebab_rest dash (c # cs) =
     (if c = CHR ''-'' then \<not> dash \<and> kebab_rest True cs
      else (lower c \<or> digit c) \<and> kebab_rest False cs)"

fun lower_kebab :: "string \<Rightarrow> bool" where
  "lower_kebab [] = False"
| "lower_kebab (c # cs) = (lower c \<and> kebab_rest False cs)"

section \<open>The decoder\<close>

text \<open>\<open>Object.keys(value).sort().join(',')\<close>.\<close>

fun join :: "string list \<Rightarrow> string" where
  "join [] = []"
| "join [k] = k"
| "join (k # ks) = k @ '','' @ join ks"

definition key_list :: "json \<Rightarrow> string" where
  "key_list v = join (sort (object_keys v))"

definition positiveInteger :: "json option \<Rightarrow> string \<Rightarrow> goal_error + int" where
  "positiveInteger v name =
     (case v of
        Some (JNum n) \<Rightarrow> if isSafeInteger n \<and> 1 \<le> num_int n then Inr (num_int n) else Inl (NotPositive name)
      | _ \<Rightarrow> Inl (NotPositive name))"

definition nonNegativeInteger :: "json option \<Rightarrow> string \<Rightarrow> goal_error + int" where
  "nonNegativeInteger v name =
     (case v of
        Some (JNum n) \<Rightarrow> if isSafeInteger n \<and> 0 \<le> num_int n then Inr (num_int n) else Inl (NotNonNegative name)
      | _ \<Rightarrow> Inl (NotNonNegative name))"

definition decodeBlockReason :: "json option \<Rightarrow> goal_error + block_reason" where
  "decodeBlockReason v =
     (case v of
        None \<Rightarrow> Inl ReasonKeys
      | Some r \<Rightarrow>
          if \<not> plain_record r \<or> key_list r \<noteq> ''code,message'' then Inl ReasonKeys
          else (case string_of (jget r ''code'') of
            None \<Rightarrow> Inl ReasonCode
          | Some code \<Rightarrow>
              if \<not> lower_kebab code then Inl ReasonCode
              else (case string_of (jget r ''message'') of
                None \<Rightarrow> Inl ReasonMessage
              | Some m \<Rightarrow>
                  if normalString m then Inr \<lparr>br_code = code, br_message = m\<rparr> else Inl ReasonMessage)))"

definition phase_of :: "json option \<Rightarrow> goal_phase option" where
  "phase_of v = (case string_of v of None \<Rightarrow> None | Some s \<Rightarrow> List.find (\<lambda>p. phase_name p = s) PHASES)"

definition snapshot_keys :: "goal_phase \<Rightarrow> string" where
  "snapshot_keys phase =
     (if phase = GoalBlocked then ''blockedReason,id,maxGoalRounds,objective,phase,revision''
      else ''id,maxGoalRounds,objective,phase,revision'')"

definition decodeSnapshot :: "json option \<Rightarrow> goal_error + goal_snapshot" where
  "decodeSnapshot value =
     (case value of
        None \<Rightarrow> Inl GoalNotRecord
      | Some v \<Rightarrow>
          if \<not> plain_record v then Inl GoalNotRecord
          else (case string_of (jget v ''id'') of
            None \<Rightarrow> Inl GoalIdEmpty
          | Some i \<Rightarrow>
              if length i = 0 then Inl GoalIdEmpty
              else (case string_of (jget v ''objective'') of
                None \<Rightarrow> Inl ObjectiveNotNormal
              | Some objective \<Rightarrow>
                  if \<not> normalString objective then Inl ObjectiveNotNormal
                  else (case phase_of (jget v ''phase'') of
                    None \<Rightarrow> Inl PhaseInvalid
                  | Some phase \<Rightarrow>
                      if key_list v \<noteq> snapshot_keys phase then Inl SnapshotKeys
                      else
                        rbind (positiveInteger (jget v ''revision'') ''goal.revision'') (\<lambda>revision.
                        rbind (positiveInteger (jget v ''maxGoalRounds'') ''goal.maxGoalRounds'') (\<lambda>maxRounds.
                        rbind (if phase = GoalBlocked
                               then rbind (decodeBlockReason (jget v ''blockedReason'')) (\<lambda>r. Inr (Some r))
                               else Inr None) (\<lambda>reason.
                        Inr \<lparr>g_id = i, g_revision = revision, g_objective = objective, g_phase = phase,
                             g_blockedReason = reason, g_maxGoalRounds = maxRounds\<rparr>)))))))"

definition decodeRef :: "json option \<Rightarrow> goal_error + goal_ref" where
  "decodeRef value =
     (case value of
        None \<Rightarrow> Inl RefKeys
      | Some v \<Rightarrow>
          if \<not> plain_record v \<or> key_list v \<noteq> ''id,revision'' then Inl RefKeys
          else (case string_of (jget v ''id'') of
            None \<Rightarrow> Inl RefIdEmpty
          | Some i \<Rightarrow>
              if length i = 0 then Inl RefIdEmpty
              else rbind (positiveInteger (jget v ''revision'') ''cleared.revision'') (\<lambda>revision.
                   Inr \<lparr>gr_id = i, gr_revision = revision\<rparr>)))"

definition decode_clear :: "json \<Rightarrow> goal_error + goal_change option" where
  "decode_clear v =
     (if key_list v \<noteq> ''cleared,clearedAt,kind,operation,version'' then Inl ClearKeys
      else
        rbind (decodeRef (jget v ''cleared'')) (\<lambda>cleared.
        rbind (nonNegativeInteger (jget v ''clearedAt'') ''clearedAt'') (\<lambda>clearedAt.
        Inr (Some (ClearChange cleared clearedAt)))))"

definition decode_snapshot_change :: "json \<Rightarrow> goal_operation \<Rightarrow> goal_error + goal_change option" where
  "decode_snapshot_change v operation =
     (if key_list v \<noteq> ''createdAt,goal,kind,operation,roundsStarted,updatedAt,version'' then Inl ChangeKeys
      else
        rbind (nonNegativeInteger (jget v ''createdAt'') ''createdAt'') (\<lambda>createdAt.
        rbind (nonNegativeInteger (jget v ''updatedAt'') ''updatedAt'') (\<lambda>updatedAt.
        if updatedAt < createdAt then Inl UpdatedBeforeCreated
        else
          rbind (decodeSnapshot (jget v ''goal'')) (\<lambda>goal.
          rbind (nonNegativeInteger (jget v ''roundsStarted'') ''roundsStarted'') (\<lambda>rounds.
          Inr (Some (SnapshotChange operation goal rounds createdAt updatedAt)))))))"

definition decodeGoalChange :: "json \<Rightarrow> goal_error + goal_change option" where
  "decodeGoalChange v =
     (if \<not> plain_record v \<or> jget v ''kind'' \<noteq> Some (JStr ''goal/change'') then Inr None
      else if \<not> (case jget v ''version'' of Some (JNum n) \<Rightarrow> num_eq n (NInt GOAL_CHANGE_VERSION) | _ \<Rightarrow> False)
      then Inl BadVersion
      else (case string_of (jget v ''operation'') of
              None \<Rightarrow> Inl BadOperation
            | Some name \<Rightarrow>
                if name = ''clear'' then decode_clear v
                else (case List.find (\<lambda>p. operation_name p = name) SNAPSHOT_OPERATIONS of
                        None \<Rightarrow> Inl BadOperation
                      | Some operation \<Rightarrow> decode_snapshot_change v operation)))"

section \<open>The fold\<close>

record goal_fold =
  gf_goal :: "goal_snapshot option"
  gf_roundsStarted :: int
  gf_createdAt :: "int option"
  gf_updatedAt :: "int option"
  gf_lastRef :: "goal_ref option"
  gf_seenGoalIds :: "string list"

definition emptyGoalFoldState :: goal_fold where
  "emptyGoalFoldState = \<lparr>gf_goal = None, gf_roundsStarted = 0, gf_createdAt = None,
     gf_updatedAt = None, gf_lastRef = None, gf_seenGoalIds = []\<rparr>"

definition goalChangeRef :: "goal_change \<Rightarrow> goal_ref" where
  "goalChangeRef ch =
     (case ch of
        ClearChange cleared _ \<Rightarrow> cleared
      | SnapshotChange _ goal _ _ _ \<Rightarrow> \<lparr>gr_id = g_id goal, gr_revision = g_revision goal\<rparr>)"

text \<open>\<open>goalSource\<close>: identity, revision and round of a goal attribution.\<close>

definition goalSource :: "message_source \<Rightarrow> goal_error + (string \<times> int \<times> int) option" where
  "goalSource src =
     (case src of
        GoalSource gid revision round \<Rightarrow>
          (case gid of
             JStr i \<Rightarrow>
               if length i = 0 \<or> \<not> isSafeInteger revision \<or> num_int revision < 1
                  \<or> \<not> isSafeInteger round \<or> num_int round < 1
               then Inl BadSource
               else Inr (Some (i, num_int revision, num_int round))
           | _ \<Rightarrow> Inl BadSource)
      | _ \<Rightarrow> Inr None)"

definition requireSameDefinition :: "goal_snapshot \<Rightarrow> goal_snapshot \<Rightarrow> goal_error + unit" where
  "requireSameDefinition current nxt =
     (if g_objective nxt \<noteq> g_objective current \<or> g_maxGoalRounds nxt \<noteq> g_maxGoalRounds current
      then Inl DefinitionChanged else Inr ())"

definition requireNextRevision :: "goal_snapshot \<Rightarrow> goal_ref \<Rightarrow> goal_error + unit" where
  "requireNextRevision current nxt =
     (if gr_id nxt \<noteq> g_id current \<or> gr_revision nxt \<noteq> g_revision current + 1 then Inl WrongRevision else Inr ())"

definition validate_operation :: "goal_fold \<Rightarrow> goal_operation \<Rightarrow> goal_snapshot \<Rightarrow> goal_snapshot \<Rightarrow> goal_error + unit" where
  "validate_operation st operation current nxt =
     (case operation of
        Edit \<Rightarrow>
          if g_phase nxt \<noteq> g_phase current \<or> g_blockedReason nxt \<noteq> g_blockedReason current
          then Inl EditChangedPhase else Inr ()
      | Pause \<Rightarrow> rbind (requireSameDefinition current nxt) (\<lambda>_.
          if g_phase current \<noteq> Active \<or> g_phase nxt \<noteq> Paused then Inl (BadTransition Pause) else Inr ())
      | Resume \<Rightarrow> rbind (requireSameDefinition current nxt) (\<lambda>_.
          if g_phase current \<notin> {Active, Paused, GoalBlocked} \<or> g_phase nxt \<noteq> Active
             \<or> g_maxGoalRounds nxt \<le> gf_roundsStarted st
          then Inl (BadTransition Resume) else Inr ())
      | CompleteOp \<Rightarrow> rbind (requireSameDefinition current nxt) (\<lambda>_.
          if g_phase current = Complete \<or> g_phase nxt \<noteq> Complete then Inl (BadTransition CompleteOp) else Inr ())
      | Block \<Rightarrow> rbind (requireSameDefinition current nxt) (\<lambda>_.
          if g_phase current \<noteq> Active \<or> g_phase nxt \<noteq> GoalBlocked then Inl (BadTransition Block) else Inr ())
      | Create \<Rightarrow> Inl (BadTransition Create))"

definition validateSnapshotTransition ::
  "goal_fold \<Rightarrow> goal_operation \<Rightarrow> goal_snapshot \<Rightarrow> int \<Rightarrow> int \<Rightarrow> int \<Rightarrow> goal_snapshot \<Rightarrow> goal_error + unit" where
  "validateSnapshotTransition st operation nxt rounds createdAt updatedAt current =
     rbind (requireNextRevision current \<lparr>gr_id = g_id nxt, gr_revision = g_revision nxt\<rparr>) (\<lambda>_.
     case gf_updatedAt st of
       None \<Rightarrow> Inl CountersNotKept
     | Some before \<Rightarrow>
         if Some createdAt \<noteq> gf_createdAt st \<or> updatedAt < before \<or> rounds \<noteq> gf_roundsStarted st
         then Inl CountersNotKept
         else validate_operation st operation current nxt)"

definition applyGoalChange :: "goal_fold \<Rightarrow> goal_change \<Rightarrow> goal_error + goal_fold" where
  "applyGoalChange st ch =
     (case ch of
        ClearChange cleared clearedAt \<Rightarrow>
          (case gf_goal st of
             None \<Rightarrow> Inl NoCurrentGoal
           | Some current \<Rightarrow>
               rbind (requireNextRevision current cleared) (\<lambda>_.
               case gf_updatedAt st of
                 None \<Rightarrow> Inl CountersNotKept
               | Some before \<Rightarrow>
                   if clearedAt < before then Inl ClearedBeforeUpdate
                   else Inr (st\<lparr>gf_goal := None, gf_roundsStarted := 0, gf_createdAt := None,
                               gf_updatedAt := None, gf_lastRef := Some (goalChangeRef ch)\<rparr>)))
      | SnapshotChange operation goal rounds createdAt updatedAt \<Rightarrow>
          rbind (if operation = Create
                 then (if g_revision goal \<noteq> 1 \<or> g_phase goal \<noteq> Active \<or> rounds \<noteq> 0
                          \<or> (case gf_goal st of None \<Rightarrow> False | Some g \<Rightarrow> g_phase g \<noteq> Complete)
                          \<or> g_id goal \<in> set (gf_seenGoalIds st)
                       then Inl NotFreshGoal
                       else Inr (set_add (g_id goal) (gf_seenGoalIds st)))
                 else (case gf_goal st of
                         None \<Rightarrow> Inl NoCurrentGoal
                       | Some current \<Rightarrow>
                           rbind (validateSnapshotTransition st operation goal rounds createdAt updatedAt current)
                             (\<lambda>_. Inr (gf_seenGoalIds st)))) (\<lambda>seen.
          Inr \<lparr>gf_goal = Some goal, gf_roundsStarted = rounds, gf_createdAt = Some createdAt,
               gf_updatedAt = Some updatedAt, gf_lastRef = Some (goalChangeRef ch), gf_seenGoalIds = seen\<rparr>))"

definition applyGoalEvent :: "goal_fold \<Rightarrow> session_event \<Rightarrow> goal_error + goal_fold" where
  "applyGoalEvent st e =
     (case ev_data e of
        GoalChange v \<Rightarrow>
          rbind (decodeGoalChange v) (\<lambda>ch.
          case ch of None \<Rightarrow> Inl NotAGoalChange | Some c \<Rightarrow> applyGoalChange st c)
      | UserMessage m \<Rightarrow>
          rbind (goalSource (msg_source m)) (\<lambda>src.
          case src of
            None \<Rightarrow> Inr st
          | Some (i, revision, round) \<Rightarrow>
              (case gf_goal st of
                 None \<Rightarrow> Inl RoundNotNext
               | Some current \<Rightarrow>
                   if g_phase current \<noteq> Active \<or> i \<noteq> g_id current \<or> revision \<noteq> g_revision current
                      \<or> round \<noteq> gf_roundsStarted st + 1 \<or> g_maxGoalRounds current < round
                   then Inl RoundNotNext
                   else Inr (st\<lparr>gf_roundsStarted := round\<rparr>)))
      | _ \<Rightarrow> Inr st)"

definition foldGoal :: "session_event list \<Rightarrow> goal_error + goal_fold" where
  "foldGoal events = run applyGoalEvent emptyGoalFoldState events"

section \<open>The projection\<close>

record goal_projection =
  gp_goal :: goal_snapshot
  gp_roundsStarted :: int
  gp_createdAt :: int
  gp_updatedAt :: int

record projection_state =
  ps_current :: "goal_projection option"
  ps_seenGoalIds :: "string list"
  ps_failure :: "(nat \<times> goal_error) option"

definition init_projection :: projection_state where
  "init_projection = \<lparr>ps_current = None, ps_seenGoalIds = [], ps_failure = None\<rparr>"

definition goalFoldState :: "projection_state \<Rightarrow> goal_fold" where
  "goalFoldState ps =
     \<lparr>gf_goal = map_option gp_goal (ps_current ps),
      gf_roundsStarted = (case ps_current ps of None \<Rightarrow> 0 | Some p \<Rightarrow> gp_roundsStarted p),
      gf_createdAt = map_option gp_createdAt (ps_current ps),
      gf_updatedAt = map_option gp_updatedAt (ps_current ps),
      gf_lastRef = None, gf_seenGoalIds = ps_seenGoalIds ps\<rparr>"

definition goalProjectionState :: "goal_fold \<Rightarrow> goal_error + projection_state" where
  "goalProjectionState st =
     (case gf_goal st of
        None \<Rightarrow> Inr \<lparr>ps_current = None, ps_seenGoalIds = gf_seenGoalIds st, ps_failure = None\<rparr>
      | Some goal \<Rightarrow>
          (case (gf_createdAt st, gf_updatedAt st) of
             (Some createdAt, Some updatedAt) \<Rightarrow>
               Inr \<lparr>ps_current = Some \<lparr>gp_goal = goal, gp_roundsStarted = gf_roundsStarted st,
                      gp_createdAt = createdAt, gp_updatedAt = updatedAt\<rparr>,
                    ps_seenGoalIds = gf_seenGoalIds st, ps_failure = None\<rparr>
           | _ \<Rightarrow> Inl CountersNotKept))"

fun goal_event :: "event_data \<Rightarrow> bool" where
  "goal_event (GoalChange _) = True"
| "goal_event (UserMessage m) = (case msg_source m of GoalSource _ _ _ \<Rightarrow> True | _ \<Rightarrow> False)"
| "goal_event _ = False"

definition applyGoalProjection :: "projection_state \<Rightarrow> session_event \<Rightarrow> projection_state" where
  "applyGoalProjection ps e =
     (if ps_failure ps \<noteq> None then ps
      else if \<not> goal_event (ev_data e) then ps
      else (case rbind (applyGoalEvent (goalFoldState ps) e) goalProjectionState of
              Inr ps' \<Rightarrow> ps'
            | Inl err \<Rightarrow> ps\<lparr>ps_failure := Some (ev_seq e, err)\<rparr>))"

definition project_goal :: "session_event list \<Rightarrow> projection_state" where
  "project_goal events = foldl applyGoalProjection init_projection events"


section \<open>Writing and reading a change\<close>

text \<open>The payload objects that the goal service appends.\<close>

definition reason_json :: "block_reason \<Rightarrow> json" where
  "reason_json r = JObj [(''code'', JStr (br_code r)), (''message'', JStr (br_message r))]"

definition snapshot_json :: "goal_snapshot \<Rightarrow> json" where
  "snapshot_json g =
     JObj ([(''id'', JStr (g_id g)), (''revision'', JNum (NInt (g_revision g))),
            (''objective'', JStr (g_objective g)), (''phase'', JStr (phase_name (g_phase g))),
            (''maxGoalRounds'', JNum (NInt (g_maxGoalRounds g)))]
           @ opt_field ''blockedReason'' (map_option reason_json (g_blockedReason g)))"

definition ref_json :: "goal_ref \<Rightarrow> json" where
  "ref_json r = JObj [(''id'', JStr (gr_id r)), (''revision'', JNum (NInt (gr_revision r)))]"

definition change_json :: "goal_change \<Rightarrow> json" where
  "change_json ch =
     (case ch of
        SnapshotChange operation goal rounds createdAt updatedAt \<Rightarrow>
          JObj [(''kind'', JStr ''goal/change''), (''version'', JNum (NInt GOAL_CHANGE_VERSION)),
                (''operation'', JStr (operation_name operation)), (''goal'', snapshot_json goal),
                (''roundsStarted'', JNum (NInt rounds)), (''createdAt'', JNum (NInt createdAt)),
                (''updatedAt'', JNum (NInt updatedAt))]
      | ClearChange cleared clearedAt \<Rightarrow>
          JObj [(''kind'', JStr ''goal/change''), (''version'', JNum (NInt GOAL_CHANGE_VERSION)),
                (''operation'', JStr ''clear''), (''cleared'', ref_json cleared),
                (''clearedAt'', JNum (NInt clearedAt))])"

text \<open>Which changes are well formed.\<close>

definition positive_safe :: "int \<Rightarrow> bool" where
  "positive_safe i \<longleftrightarrow> 1 \<le> i \<and> i \<le> MAX_SAFE_INTEGER"

definition count_safe :: "int \<Rightarrow> bool" where
  "count_safe i \<longleftrightarrow> 0 \<le> i \<and> i \<le> MAX_SAFE_INTEGER"

definition reason_ok :: "block_reason \<Rightarrow> bool" where
  "reason_ok r \<longleftrightarrow> lower_kebab (br_code r) \<and> normalString (br_message r)"

definition snapshot_ok :: "goal_snapshot \<Rightarrow> bool" where
  "snapshot_ok g \<longleftrightarrow>
     g_id g \<noteq> [] \<and> positive_safe (g_revision g) \<and> normalString (g_objective g)
     \<and> positive_safe (g_maxGoalRounds g)
     \<and> (case g_blockedReason g of None \<Rightarrow> g_phase g \<noteq> GoalBlocked
        | Some r \<Rightarrow> g_phase g = GoalBlocked \<and> reason_ok r)"

definition change_ok :: "goal_change \<Rightarrow> bool" where
  "change_ok ch =
     (case ch of
        SnapshotChange _ goal rounds createdAt updatedAt \<Rightarrow>
          snapshot_ok goal \<and> count_safe rounds \<and> count_safe createdAt \<and> count_safe updatedAt
          \<and> createdAt \<le> updatedAt
      | ClearChange cleared clearedAt \<Rightarrow>
          gr_id cleared \<noteq> [] \<and> positive_safe (gr_revision cleared) \<and> count_safe clearedAt)"

lemma positiveInteger_iff:
  "positiveInteger v name = Inr i \<longleftrightarrow> (\<exists>n. v = Some (JNum n) \<and> isSafeInteger n \<and> i = num_int n \<and> 1 \<le> i)"
  by (auto simp: positiveInteger_def split: option.splits json.splits)

lemma nonNegativeInteger_iff:
  "nonNegativeInteger v name = Inr i \<longleftrightarrow> (\<exists>n. v = Some (JNum n) \<and> isSafeInteger n \<and> i = num_int n \<and> 0 \<le> i)"
  by (auto simp: nonNegativeInteger_def split: option.splits json.splits)

lemma integer_of_json [simp]:
  "positive_safe i \<Longrightarrow> positiveInteger (Some (JNum (NInt i))) name = Inr i"
  "count_safe i \<Longrightarrow> nonNegativeInteger (Some (JNum (NInt i))) name = Inr i"
  by (auto simp: positiveInteger_iff nonNegativeInteger_iff positive_safe_def count_safe_def)

lemma safe_num_int: "isSafeInteger n \<Longrightarrow> \<bar>num_int n\<bar> \<le> MAX_SAFE_INTEGER"
  by (cases n) (auto simp: MAX_SAFE_INTEGER_def)

lemma positiveInteger_safe: "positiveInteger v name = Inr i \<Longrightarrow> positive_safe i"
  using safe_num_int by (fastforce simp: positiveInteger_iff positive_safe_def)

lemma nonNegativeInteger_safe: "nonNegativeInteger v name = Inr i \<Longrightarrow> count_safe i"
  using safe_num_int by (fastforce simp: nonNegativeInteger_iff count_safe_def)

text \<open>The sorted key lists of the written objects.\<close>

lemma written_keys:
  "join (sort [''code'', ''message'']) = ''code,message''"
  "join (sort [''id'', ''revision'']) = ''id,revision''"
  "join (sort [''id'', ''revision'', ''objective'', ''phase'', ''maxGoalRounds''])
     = ''id,maxGoalRounds,objective,phase,revision''"
  "join (sort [''id'', ''revision'', ''objective'', ''phase'', ''maxGoalRounds'', ''blockedReason''])
     = ''blockedReason,id,maxGoalRounds,objective,phase,revision''"
  "join (sort [''kind'', ''version'', ''operation'', ''cleared'', ''clearedAt''])
     = ''cleared,clearedAt,kind,operation,version''"
  "join (sort [''kind'', ''version'', ''operation'', ''goal'', ''roundsStarted'', ''createdAt'', ''updatedAt''])
     = ''createdAt,goal,kind,operation,roundsStarted,updatedAt,version''"
  by code_simp+

lemma phase_of_name [simp]: "phase_of (Some (JStr (phase_name p))) = Some p"
  by (cases p) (simp_all add: phase_of_def PHASES_def)

lemmas phase_of_blocked [simp] = phase_of_name [of GoalBlocked, simplified]

lemma find_operation_name [simp]:
  "List.find (\<lambda>p. operation_name p = operation_name op) SNAPSHOT_OPERATIONS = Some op"
  by (cases op) (simp_all add: SNAPSHOT_OPERATIONS_def)

lemma operation_name_clear [simp]: "operation_name op \<noteq> ''clear''"
  by (cases op) simp_all

lemma decode_reason_json [simp]: "reason_ok r \<Longrightarrow> decodeBlockReason (Some (reason_json r)) = Inr r"
  by (simp add: decodeBlockReason_def reason_json_def key_list_def written_keys reason_ok_def)

lemma decode_snapshot_json [simp]: "snapshot_ok g \<Longrightarrow> decodeSnapshot (Some (snapshot_json g)) = Inr g"
  by (cases "g_blockedReason g")
    (simp_all add: decodeSnapshot_def snapshot_json_def key_list_def written_keys opt_field_def
      snapshot_ok_def snapshot_keys_def)

lemma decode_ref_json [simp]:
  "gr_id r \<noteq> [] \<Longrightarrow> positive_safe (gr_revision r) \<Longrightarrow> decodeRef (Some (ref_json r)) = Inr r"
  by (simp add: decodeRef_def ref_json_def key_list_def written_keys)

lemma decode_change_json: "change_ok ch \<Longrightarrow> decodeGoalChange (change_json ch) = Inr (Some ch)"
  by (cases ch)
    (simp_all add: decodeGoalChange_def change_json_def decode_snapshot_change_def decode_clear_def
      key_list_def written_keys change_ok_def)

lemma decodeBlockReason_ok: "decodeBlockReason v = Inr r \<Longrightarrow> reason_ok r"
  by (auto simp: decodeBlockReason_def reason_ok_def split: option.splits if_splits)

lemma decodeSnapshot_ok: "decodeSnapshot v = Inr g \<Longrightarrow> snapshot_ok g"
  by (auto simp: decodeSnapshot_def snapshot_ok_def rbind_Inr_iff
      split: option.splits if_splits dest!: positiveInteger_safe decodeBlockReason_ok)

lemma decodeRef_ok: "decodeRef v = Inr r \<Longrightarrow> gr_id r \<noteq> [] \<and> positive_safe (gr_revision r)"
  by (auto simp: decodeRef_def rbind_Inr_iff split: option.splits if_splits dest!: positiveInteger_safe)

lemma decodeGoalChange_ok:
  assumes "decodeGoalChange v = Inr (Some ch)"
  shows "change_ok ch"
proof -
  from assms consider "decode_clear v = Inr (Some ch)"
    | op where "decode_snapshot_change v op = Inr (Some ch)"
    by (auto simp: decodeGoalChange_def split: if_splits option.splits)
  then show ?thesis
  proof cases
    case 1
    then show ?thesis
      by (auto simp: decode_clear_def rbind_Inr_iff change_ok_def split: if_splits
          dest!: decodeRef_ok nonNegativeInteger_safe)
  next
    case 2
    then show ?thesis
      by (auto simp: decode_snapshot_change_def rbind_Inr_iff change_ok_def split: if_splits
          dest!: decodeSnapshot_ok nonNegativeInteger_safe)
  qed
qed


section \<open>Inversion of one step\<close>

definition snapshot_ref :: "goal_snapshot \<Rightarrow> goal_ref" where
  "snapshot_ref g = \<lparr>gr_id = g_id g, gr_revision = g_revision g\<rparr>"

lemma validate_operation_keeps:
  assumes "validate_operation st op current nxt = Inr ()"
  shows "op \<noteq> Create" "op \<noteq> Edit \<Longrightarrow> g_objective nxt = g_objective current \<and> g_maxGoalRounds nxt = g_maxGoalRounds current"
  using assms by (auto simp: validate_operation_def requireSameDefinition_def split: goal_operation.splits if_splits)

lemma goal_step_elim:
  assumes "applyGoalEvent st e = Inr st'"
  obtains (plain) "\<not> goal_event (ev_data e)" "st' = st"
    | (round) m i r n g where "ev_data e = UserMessage m" "goalSource (msg_source m) = Inr (Some (i, r, n))"
        "goal_event (ev_data e)" "gf_goal st = Some g" "g_phase g = Active" "i = g_id g" "r = g_revision g"
        "n = gf_roundsStarted st + 1" "n \<le> g_maxGoalRounds g" "st' = st\<lparr>gf_roundsStarted := n\<rparr>"
    | (create) v g t u where "ev_data e = GoalChange v" "decodeGoalChange v = Inr (Some (SnapshotChange Create g 0 t u))"
        "g_revision g = 1" "g_phase g = Active" "\<And>h. gf_goal st = Some h \<Longrightarrow> g_phase h = Complete"
        "g_id g \<notin> set (gf_seenGoalIds st)"
        "st' = \<lparr>gf_goal = Some g, gf_roundsStarted = 0, gf_createdAt = Some t, gf_updatedAt = Some u,
                gf_lastRef = Some (snapshot_ref g), gf_seenGoalIds = gf_seenGoalIds st @ [g_id g]\<rparr>"
    | (update) v op g h t u b where "ev_data e = GoalChange v" "op \<noteq> Create"
        "decodeGoalChange v = Inr (Some (SnapshotChange op g (gf_roundsStarted st) t u))"
        "gf_goal st = Some h" "g_id g = g_id h" "g_revision g = g_revision h + 1" "gf_createdAt st = Some t"
        "gf_updatedAt st = Some b" "b \<le> u" "validate_operation st op h g = Inr ()"
        "st' = st\<lparr>gf_goal := Some g, gf_updatedAt := Some u, gf_lastRef := Some (snapshot_ref g)\<rparr>"
    | (clear) v ref t h b where "ev_data e = GoalChange v" "decodeGoalChange v = Inr (Some (ClearChange ref t))"
        "gf_goal st = Some h" "gr_id ref = g_id h" "gr_revision ref = g_revision h + 1"
        "gf_updatedAt st = Some b" "b \<le> t"
        "st' = st\<lparr>gf_goal := None, gf_roundsStarted := 0, gf_createdAt := None, gf_updatedAt := None,
                 gf_lastRef := Some ref\<rparr>"
proof (cases "ev_data e")
  case (UserMessage m)
  note um = UserMessage
  show thesis
  proof (cases "msg_source m")
    case (GoalSource gid rv rd)
    then have ge: "goal_event (ev_data e)" by (simp add: um)
    from assms um GoalSource obtain i r n where src: "goalSource (msg_source m) = Inr (Some (i, r, n))"
      by (auto simp: applyGoalEvent_def rbind_Inr_iff goalSource_def split: json.splits if_splits)
    with assms um obtain g where g: "gf_goal st = Some g"
      by (auto simp: applyGoalEvent_def split: option.splits)
    from assms um src show thesis
      by (intro round [OF um src ge g]) (auto simp: applyGoalEvent_def g split: if_splits)
  qed (use assms um plain in \<open>auto simp: applyGoalEvent_def goalSource_def\<close>)
next
  case (GoalChange v)
  with assms obtain ch where d: "decodeGoalChange v = Inr (Some ch)" and a: "applyGoalChange st ch = Inr st'"
    by (auto simp: applyGoalEvent_def rbind_Inr_iff split: option.splits)
  show thesis
  proof (cases ch)
    case (ClearChange ref t)
    with a obtain h b where h: "gf_goal st = Some h" and b: "gf_updatedAt st = Some b"
      by (auto simp: applyGoalChange_def rbind_Inr_iff split: option.splits)
    from a ClearChange show thesis
      by (intro clear [OF GoalChange d [unfolded ClearChange] h _ _ b])
        (auto simp: applyGoalChange_def requireNextRevision_def goalChangeRef_def h b split: if_splits)
  next
    case (SnapshotChange op g n t u)
    show thesis
    proof (cases "op = Create")
      case True
      with a SnapshotChange have n: "n = 0" by (auto simp: applyGoalChange_def split: if_splits)
      from a True SnapshotChange show thesis
        by (intro create [OF GoalChange d [unfolded SnapshotChange True n]])
          (auto simp: applyGoalChange_def goalChangeRef_def snapshot_ref_def set_add_def split: if_splits)
    next
      case False
      with a SnapshotChange obtain h b where h: "gf_goal st = Some h" "g_id g = g_id h" "g_revision g = g_revision h + 1"
        "gf_createdAt st = Some t" "gf_updatedAt st = Some b" "b \<le> u" "n = gf_roundsStarted st"
        "validate_operation st op h g = Inr ()"
        by (auto simp: applyGoalChange_def validateSnapshotTransition_def requireNextRevision_def rbind_Inr_iff
            split: option.splits if_splits)
      with a SnapshotChange False show thesis
        by (intro update [OF GoalChange False d [unfolded SnapshotChange h(7)] h(1-6,8)])
          (auto simp: applyGoalChange_def goalChangeRef_def snapshot_ref_def rbind_Inr_iff)
    qed
  qed
qed (use assms plain in \<open>auto simp: applyGoalEvent_def\<close>)


section \<open>What the log of an accepted stream says\<close>

definition change_of :: "session_event \<Rightarrow> goal_change option" where
  "change_of e =
     (case ev_data e of
        GoalChange v \<Rightarrow> (case decodeGoalChange v of Inr ch \<Rightarrow> ch | Inl _ \<Rightarrow> None)
      | _ \<Rightarrow> None)"

definition round_of :: "session_event \<Rightarrow> int option" where
  "round_of e =
     (case ev_data e of
        UserMessage m \<Rightarrow> (case goalSource (msg_source m) of Inr (Some (_, _, n)) \<Rightarrow> Some n | _ \<Rightarrow> None)
      | _ \<Rightarrow> None)"

definition created_id :: "session_event \<Rightarrow> string option" where
  "created_id e =
     (case change_of e of
        Some (SnapshotChange op g _ _ _) \<Rightarrow> if op = Create then Some (g_id g) else None
      | _ \<Rightarrow> None)"

definition created_ids :: "session_event list \<Rightarrow> string list" where
  "created_ids log = List.map_filter created_id log"

definition revision_of :: "string \<Rightarrow> session_event \<Rightarrow> int option" where
  "revision_of i e =
     (case change_of e of
        Some ch \<Rightarrow> if gr_id (goalChangeRef ch) = i then Some (gr_revision (goalChangeRef ch)) else None
      | None \<Rightarrow> None)"

definition revisions :: "string \<Rightarrow> session_event list \<Rightarrow> int list" where
  "revisions i log = List.map_filter (revision_of i) log"

text \<open>The rounds admitted after the last creation.\<close>

definition since_create :: "session_event list \<Rightarrow> session_event list" where
  "since_create log = rev (takeWhile (\<lambda>e. created_id e = None) (rev log))"

definition rounds_since_create :: "session_event list \<Rightarrow> int list" where
  "rounds_since_create log = List.map_filter round_of (since_create log)"

definition count_up :: "nat \<Rightarrow> int list" where
  "count_up n = map int [1..<Suc n]"

lemma count_up_simps [simp]: "count_up 0 = []" "count_up (Suc n) = count_up n @ [int n + 1]"
  by (simp_all add: count_up_def)

lemma created_ids_snoc: "created_ids (log @ [e]) = created_ids log @ (case created_id e of None \<Rightarrow> [] | Some i \<Rightarrow> [i])"
  by (simp add: created_ids_def map_filter_snoc)

lemma revisions_snoc: "revisions i (log @ [e]) = revisions i log @ (case revision_of i e of None \<Rightarrow> [] | Some r \<Rightarrow> [r])"
  by (simp add: revisions_def map_filter_snoc)

lemma rounds_snoc:
  "rounds_since_create (log @ [e]) =
     (if created_id e = None
      then rounds_since_create log @ (case round_of e of None \<Rightarrow> [] | Some n \<Rightarrow> [n]) else [])"
  by (simp add: rounds_since_create_def since_create_def map_filter_snoc List.map_filter_simps)

definition stream_inv :: "session_event list \<Rightarrow> goal_fold \<Rightarrow> bool" where
  "stream_inv log st \<longleftrightarrow>
     gf_seenGoalIds st = created_ids log \<and> distinct (created_ids log)
     \<and> (\<forall>i. \<exists>n. revisions i log = count_up n)
     \<and> (\<forall>i. i \<notin> set (created_ids log) \<longrightarrow> revisions i log = [])
     \<and> (case gf_goal st of
          None \<Rightarrow> gf_createdAt st = None \<and> gf_updatedAt st = None \<and> gf_roundsStarted st = 0
        | Some g \<Rightarrow> snapshot_ok g \<and> g_id g \<in> set (created_ids log)
            \<and> revisions (g_id g) log = count_up (nat (g_revision g))
            \<and> rounds_since_create log = count_up (nat (gf_roundsStarted st))
            \<and> count_safe (gf_roundsStarted st)
            \<and> (\<exists>t u. gf_createdAt st = Some t \<and> gf_updatedAt st = Some u
                 \<and> count_safe t \<and> count_safe u \<and> t \<le> u))"

lemma stream_inv_goal:
  assumes "stream_inv log st" "gf_goal st = Some g"
  shows "snapshot_ok g" "g_id g \<in> set (created_ids log)"
    "revisions (g_id g) log = count_up (nat (g_revision g))"
    "rounds_since_create log = count_up (nat (gf_roundsStarted st))" "count_safe (gf_roundsStarted st)"
  using assms by (auto simp: stream_inv_def)

text \<open>Events that name no goal leave every reading of the log as it was.\<close>

lemma plain_readings:
  assumes "\<not> goal_event (ev_data e)"
  shows "change_of e = None" "round_of e = None" "created_id e = None" "revision_of i e = None"
proof -
  show c: "change_of e = None" using assms by (cases "ev_data e") (auto simp: change_of_def)
  show "round_of e = None"
    using assms by (cases "ev_data e") (auto simp: round_of_def goalSource_def split: message_source.splits)
  show "created_id e = None" "revision_of i e = None"
    by (simp_all add: created_id_def revision_of_def c)
qed

lemma change_readings:
  assumes "ev_data e = GoalChange v" "decodeGoalChange v = Inr (Some ch)"
  shows "change_of e = Some ch" "round_of e = None"
  using assms by (simp_all add: change_of_def round_of_def)

lemma stream_inv_step:
  assumes inv: "stream_inv log st" and step: "applyGoalEvent st e = Inr st'"
  shows "stream_inv (log @ [e]) st'"
  using step
proof (cases rule: goal_step_elim)
  case plain
  with inv plain_readings [OF plain(1)] show ?thesis
    by (cases "gf_goal st") (simp_all add: stream_inv_def created_ids_snoc revisions_snoc rounds_snoc)
next
  case (round m i r n g)
  then have "change_of e = None" "round_of e = Some n" by (simp_all add: change_of_def round_of_def)
  then have r: "created_id e = None" "round_of e = Some n" "\<And>j. revision_of j e = None"
    by (simp_all add: created_id_def revision_of_def)
  note g = stream_inv_goal [OF inv round(4)]
  have "positive_safe (g_maxGoalRounds g)" using g(1) by (simp add: snapshot_ok_def)
  with g(5) round(8,9) have "count_safe n" "nat n = Suc (nat (gf_roundsStarted st))"
    by (auto simp: count_safe_def positive_safe_def)
  with inv r round(4,8,10) g(4,5) show ?thesis
    by (auto simp: stream_inv_def created_ids_snoc revisions_snoc rounds_snoc count_safe_def)
next
  case (create v g t u)
  have ok: "snapshot_ok g" "count_safe t" "count_safe u" "t \<le> u"
    using decodeGoalChange_ok [OF create(2)] by (auto simp: change_ok_def)
  note c = change_readings [OF create(1,2)]
  then have r: "created_id e = Some (g_id g)" "round_of e = None"
    "\<And>i. revision_of i e = (if g_id g = i then Some 1 else None)"
    by (simp_all add: created_id_def revision_of_def goalChangeRef_def create(3))
  have new: "g_id g \<notin> set (created_ids log)" using inv create(6) by (simp add: stream_inv_def)
  with inv have "revisions (g_id g) log = []" by (simp add: stream_inv_def)
  then have "revisions (g_id g) (log @ [e]) = count_up 1" by (simp add: revisions_snoc r)
  moreover have "\<exists>n. [1] = count_up n" by (rule exI [of _ 1]) simp
  ultimately show ?thesis using inv new ok r create(3,7)
    by (auto simp: stream_inv_def created_ids_snoc revisions_snoc rounds_snoc count_safe_def)
next
  case (update v op g h t u b)
  have ok: "snapshot_ok g" "count_safe u" "t \<le> u"
    using decodeGoalChange_ok [OF update(3)] by (auto simp: change_ok_def)
  note c = change_readings [OF update(1,3)]
  then have r: "created_id e = None" "round_of e = None"
    "\<And>i. revision_of i e = (if g_id h = i then Some (g_revision h + 1) else None)"
    by (simp_all add: created_id_def revision_of_def goalChangeRef_def update(2,5,6))
  note h = stream_inv_goal [OF inv update(4)]
  have "1 \<le> g_revision h" using h(1) by (simp add: snapshot_ok_def positive_safe_def)
  then have "nat (g_revision g) = Suc (nat (g_revision h))" "int (nat (g_revision h)) = g_revision h"
    using update(6) by auto
  then have "revisions (g_id h) (log @ [e]) = count_up (nat (g_revision g))" by (simp add: revisions_snoc r h(3))
  with inv ok r h update(4-9,11) show ?thesis
    by (auto simp: stream_inv_def created_ids_snoc revisions_snoc rounds_snoc)
next
  case (clear v ref t h b)
  note c = change_readings [OF clear(1,2)]
  then have r: "created_id e = None" "round_of e = None"
    "\<And>i. revision_of i e = (if g_id h = i then Some (g_revision h + 1) else None)"
    by (simp_all add: created_id_def revision_of_def goalChangeRef_def clear(4,5))
  note h = stream_inv_goal [OF inv clear(3)]
  have "1 \<le> g_revision h" using h(1) by (simp add: snapshot_ok_def positive_safe_def)
  then have "\<exists>n. count_up (nat (g_revision h)) @ [g_revision h + 1] = count_up n"
    by (intro exI [of _ "Suc (nat (g_revision h))"]) simp
  with inv r h clear(3,8) show ?thesis
    by (auto simp: stream_inv_def created_ids_snoc revisions_snoc rounds_snoc)
qed

interpretation goal_stream: history_fold "\<lambda>_. applyGoalEvent" emptyGoalFoldState stream_inv
proof
  show "stream_inv [] emptyGoalFoldState"
  proof -
    have "\<exists>n. [] = count_up n" using count_up_simps(1) by metis
    then show ?thesis
      by (simp add: stream_inv_def emptyGoalFoldState_def created_ids_def revisions_def List.map_filter_simps)
  qed
qed (rule stream_inv_step)

lemma foldGoal_inv: "foldGoal log = Inr st \<Longrightarrow> stream_inv log st"
  using goal_stream.hinv_hrun by (simp add: foldGoal_def hrun_const)


text \<open>
  C22: identities and revisions of a goal stream. In every log the strict fold accepts, no goal
  identity is created twice, and the revisions recorded for an identity, by snapshots and by the
  clearing tombstone, are 1, 2, 3, ... without a gap or a repetition; the current goal is the one
  with the last of its revisions, and its snapshot is well formed.
\<close>

theorem goal_revisions_count_up:
  assumes "foldGoal log = Inr st"
  shows "distinct (created_ids log) \<and> (\<exists>n. revisions i log = count_up n)
    \<and> (case gf_goal st of None \<Rightarrow> True
       | Some g \<Rightarrow> snapshot_ok g \<and> revisions (g_id g) log = count_up (nat (g_revision g)))"
  using foldGoal_inv [OF assms] by (auto simp: stream_inv_def split: option.splits)

text \<open>
  The round counter of the fold counts. When the log has a current goal, the rounds admitted
  since its creation are numbered 1, 2, ... up to the counter, each exactly once, whatever edits,
  pauses, blocks and resumptions came between.
\<close>

theorem goal_rounds_are_counted:
  assumes "foldGoal log = Inr st" and "gf_goal st \<noteq> None"
  shows "rounds_since_create log = count_up (nat (gf_roundsStarted st))"
  using foldGoal_inv [OF assms(1)] assms(2) by (auto simp: stream_inv_def)

definition sample_goal :: goal_snapshot where
  "sample_goal = \<lparr>g_id = ''goal-1'', g_revision = 1, g_objective = ''ship it'', g_phase = Active,
     g_blockedReason = None, g_maxGoalRounds = 2\<rparr>"

definition sample_round :: "nat \<Rightarrow> int \<Rightarrow> int \<Rightarrow> session_event" where
  "sample_round s revision round = log_event s 0 (UserMessage \<lparr>msg_id = ''m'', msg_role = User, msg_content = [],
     msg_source = GoalSource (JStr ''goal-1'') (NInt revision) (NInt round)\<rparr>)"

definition goal_change_event :: "nat \<Rightarrow> goal_change \<Rightarrow> session_event" where
  "goal_change_event s ch = log_event s 0 (GoalChange (change_json ch))"

definition sample_stream :: "session_event list" where
  "sample_stream =
     [goal_change_event 0 (SnapshotChange Create sample_goal 0 5 5),
      sample_round 1 1 1, sample_round 2 1 2,
      goal_change_event 3 (SnapshotChange Edit (sample_goal\<lparr>g_revision := 2, g_maxGoalRounds := 1\<rparr>) 2 5 6)]"

lemma sample_stream_fold:
  "foldGoal sample_stream = Inr
     \<lparr>gf_goal = Some (sample_goal\<lparr>g_revision := 2, g_maxGoalRounds := 1\<rparr>), gf_roundsStarted = 2,
      gf_createdAt = Some 5, gf_updatedAt = Some 6, gf_lastRef = Some \<lparr>gr_id = ''goal-1'', gr_revision = 2\<rparr>,
      gf_seenGoalIds = [''goal-1'']\<rparr>"
  by code_simp

theorem goal_revisions_count_up_witness:
  "\<exists>n. revisions ''goal-1'' sample_stream = count_up n"
  using goal_revisions_count_up [OF sample_stream_fold, of "''goal-1''"] by blast

theorem goal_rounds_are_counted_witness:
  "rounds_since_create sample_stream = [1, 2]"
  using goal_rounds_are_counted [OF sample_stream_fold] by (simp add: eval_nat_numeral)

section \<open>The projection is the fold\<close>

definition view_of :: "goal_fold \<Rightarrow> projection_state" where
  "view_of st =
     \<lparr>ps_current =
        (case gf_goal st of
           None \<Rightarrow> None
         | Some g \<Rightarrow> Some \<lparr>gp_goal = g, gp_roundsStarted = gf_roundsStarted st,
             gp_createdAt = the (gf_createdAt st), gp_updatedAt = the (gf_updatedAt st)\<rparr>),
      ps_seenGoalIds = gf_seenGoalIds st, ps_failure = None\<rparr>"

lemma goalFoldState_view:
  "stream_inv log st \<Longrightarrow> goalFoldState (view_of st) = st\<lparr>gf_lastRef := None\<rparr>"
  by (cases "gf_goal st") (auto simp: goalFoldState_def view_of_def stream_inv_def)

lemma goalProjectionState_view:
  "stream_inv log st \<Longrightarrow> goalProjectionState st = Inr (view_of st)"
  by (cases "gf_goal st") (auto simp: goalProjectionState_def view_of_def stream_inv_def)

lemma view_of_lastRef [simp]: "view_of (st\<lparr>gf_lastRef := r\<rparr>) = view_of st"
  by (cases "gf_goal st") (simp_all add: view_of_def)

lemma goalProjectionState_lastRef: "goalProjectionState (st\<lparr>gf_lastRef := r\<rparr>) = goalProjectionState st"
  by (cases "gf_goal st"; cases "gf_createdAt st"; cases "gf_updatedAt st") (simp_all add: goalProjectionState_def)

text \<open>The fold never reads its last reference.\<close>

definition same_but_ref :: "goal_error + goal_fold \<Rightarrow> goal_error + goal_fold \<Rightarrow> bool" where
  "same_but_ref a b \<longleftrightarrow> map_sum id (\<lambda>st. st\<lparr>gf_lastRef := None\<rparr>) a = map_sum id (\<lambda>st. st\<lparr>gf_lastRef := None\<rparr>) b"

lemma transition_ignores_ref:
  "validateSnapshotTransition (st\<lparr>gf_lastRef := r\<rparr>) = validateSnapshotTransition st"
proof -
  have "validate_operation (st\<lparr>gf_lastRef := r\<rparr>) op h g = validate_operation st op h g" for op h g
    by (cases op) (simp_all add: validate_operation_def)
  then show ?thesis
    by (intro ext) (cases "gf_updatedAt st"; simp add: validateSnapshotTransition_def cong: if_cong)
qed

lemma change_ignores_ref: "applyGoalChange (st\<lparr>gf_lastRef := r\<rparr>) ch = applyGoalChange st ch"
proof (cases ch)
  case (SnapshotChange op g n t u)
  then show ?thesis by (simp add: applyGoalChange_def transition_ignores_ref cong: option.case_cong)
next
  case (ClearChange ref t)
  then show ?thesis
    by (cases "gf_goal st"; cases "gf_updatedAt st") (simp_all add: applyGoalChange_def)
qed

lemma event_forgets_ref:
  "same_but_ref (applyGoalEvent (st\<lparr>gf_lastRef := r\<rparr>) e) (applyGoalEvent st e)"
proof (cases "ev_data e")
  case (GoalChange v)
  have "applyGoalEvent (st\<lparr>gf_lastRef := r\<rparr>) e = applyGoalEvent st e"
    by (simp add: applyGoalEvent_def GoalChange ext [OF change_ignores_ref])
  then show ?thesis by (simp add: same_but_ref_def)
next
  case (UserMessage m)
  show ?thesis
  proof (cases "goalSource (msg_source m)")
    case (Inr src)
    then show ?thesis
      by (cases src; cases "gf_goal st") (auto simp: same_but_ref_def applyGoalEvent_def UserMessage)
  qed (simp add: same_but_ref_def applyGoalEvent_def UserMessage)
qed (simp_all add: same_but_ref_def applyGoalEvent_def)

lemma projection_step:
  assumes inv: "stream_inv log st"
  shows "applyGoalProjection (view_of st) e =
    (case applyGoalEvent st e of
       Inr st' \<Rightarrow> view_of st'
     | Inl err \<Rightarrow> (view_of st)\<lparr>ps_failure := Some (ev_seq e, err)\<rparr>)"
proof (cases "goal_event (ev_data e)")
  case False
  then have "applyGoalEvent st e = Inr st"
    by (cases "ev_data e") (auto simp: applyGoalEvent_def goalSource_def split: message_source.splits)
  with False show ?thesis by (simp add: applyGoalProjection_def view_of_def)
next
  case True
  have nf: "ps_failure (view_of st) = None" by (simp add: view_of_def)
  note same = event_forgets_ref [where st = st and r = None and e = e, unfolded same_but_ref_def]
  show ?thesis
  proof (cases "applyGoalEvent st e")
    case (Inl err)
    with same have "applyGoalEvent (st\<lparr>gf_lastRef := None\<rparr>) e = Inl err"
      by (cases "applyGoalEvent (st\<lparr>gf_lastRef := None\<rparr>) e") auto
    with True Inl nf show ?thesis by (simp add: applyGoalProjection_def goalFoldState_view [OF inv])
  next
    case (Inr st')
    with same obtain st'' where st'': "applyGoalEvent (st\<lparr>gf_lastRef := None\<rparr>) e = Inr st''"
      "st''\<lparr>gf_lastRef := None\<rparr> = st'\<lparr>gf_lastRef := None\<rparr>"
      by (cases "applyGoalEvent (st\<lparr>gf_lastRef := None\<rparr>) e") auto
    have v: "view_of st'' = view_of st'" using st''(2) by (metis view_of_lastRef)
    have "stream_inv (log @ [e]) st'" by (rule stream_inv_step [OF inv Inr])
    then have "goalProjectionState st'' = Inr (view_of st')"
      using goalProjectionState_view st''(2) by (metis goalProjectionState_lastRef)
    with True Inr nf st''(1) show ?thesis by (simp add: applyGoalProjection_def goalFoldState_view [OF inv])
  qed
qed

lemma projection_stuck: "ps_failure ps \<noteq> None \<Longrightarrow> foldl applyGoalProjection ps es = ps"
  by (induction es) (simp_all add: applyGoalProjection_def)

lemma project_goal_snoc: "project_goal (log @ [e]) = applyGoalProjection (project_goal log) e"
  by (simp add: project_goal_def)

lemma project_goal_cases:
  "case foldGoal log of Inr st \<Rightarrow> project_goal log = view_of st | Inl _ \<Rightarrow> ps_failure (project_goal log) \<noteq> None"
proof (induction log rule: rev_induct)
  case Nil
  show ?case
    by (simp add: foldGoal_def project_goal_def view_of_def emptyGoalFoldState_def init_projection_def)
next
  case (snoc e log)
  have snoc_fold: "foldGoal (log @ [e]) = rbind (foldGoal log) (\<lambda>st. applyGoalEvent st e)"
    by (simp add: foldGoal_def run_snoc)
  show ?case
  proof (cases "foldGoal log")
    case (Inl err)
    with snoc snoc_fold show ?thesis by (simp add: project_goal_snoc applyGoalProjection_def)
  next
    case (Inr st)
    with snoc have p: "project_goal log = view_of st" by simp
    show ?thesis
      using projection_step [OF foldGoal_inv [OF Inr], of e] p Inr snoc_fold
      by (cases "applyGoalEvent st e") (simp_all add: project_goal_snoc)
  qed
qed

text \<open>
  C23: the projection is the strict fold with its first failure kept. While the fold accepts the
  log the projection shows exactly the folded goal, counters and seen identities; as soon as the
  fold rejects an event the projection stays at the state before it and names the event.
\<close>

theorem goal_projection_is_fold:
  "case run_keep applyGoalEvent emptyGoalFoldState log of
     (st, None) \<Rightarrow> project_goal log = view_of st
   | (st, Some err) \<Rightarrow> \<exists>good bad rest. log = good @ bad # rest \<and> foldGoal good = Inr st
       \<and> applyGoalEvent st bad = Inl err
       \<and> project_goal log = (view_of st)\<lparr>ps_failure := Some (ev_seq bad, err)\<rparr>"
proof -
  have "case run_keep applyGoalEvent st log of
      (st', None) \<Rightarrow> foldl applyGoalProjection (view_of st) log = view_of st'
    | (st', Some err) \<Rightarrow> \<exists>good bad rest. log = good @ bad # rest \<and> run applyGoalEvent st good = Inr st'
        \<and> applyGoalEvent st' bad = Inl err
        \<and> foldl applyGoalProjection (view_of st) log = (view_of st')\<lparr>ps_failure := Some (ev_seq bad, err)\<rparr>"
    if "stream_inv past st" for past st
    using that
  proof (induction log arbitrary: past st)
    case Nil
    then show ?case by simp
  next
    case (Cons e es)
    note p = projection_step [OF Cons.prems, of e]
    show ?case
    proof (cases "applyGoalEvent st e")
      case (Inl err)
      with p projection_stuck show ?thesis by (auto intro: exI [of _ "[]"])
    next
      case (Inr st1)
      note ih = Cons.IH [OF stream_inv_step [OF Cons.prems Inr]]
      obtain st2 r where k: "run_keep applyGoalEvent st1 es = (st2, r)" by (cases "run_keep applyGoalEvent st1 es")
      show ?thesis
      proof (cases r)
        case None
        with ih k Inr p show ?thesis by simp
      next
        case (Some err)
        with ih k obtain good bad rest where g: "es = good @ bad # rest" "run applyGoalEvent st1 good = Inr st2"
          "applyGoalEvent st2 bad = Inl err"
          "foldl applyGoalProjection (view_of st1) es = (view_of st2)\<lparr>ps_failure := Some (ev_seq bad, err)\<rparr>"
          by auto
        have "foldl applyGoalProjection (view_of st) (e # es) = (view_of st2)\<lparr>ps_failure := Some (ev_seq bad, err)\<rparr>"
          using g(4) p Inr by simp
        then have "\<exists>good bad rest. e # es = good @ bad # rest \<and> run applyGoalEvent st good = Inr st2
            \<and> applyGoalEvent st2 bad = Inl err
            \<and> foldl applyGoalProjection (view_of st) (e # es) = (view_of st2)\<lparr>ps_failure := Some (ev_seq bad, err)\<rparr>"
          using g(1-3) Inr by (intro exI [of _ "e # good"] exI [of _ bad] exI [of _ rest]) (simp only: append_Cons run.simps rbind_simps simp_thms)
        then show ?thesis using k Some Inr by (simp only: run_keep.simps sum.case prod.case option.case)
      qed
    qed
  qed
  note main = this [OF goal_stream.hinv_start]
  have start: "view_of emptyGoalFoldState = init_projection"
    by (simp add: view_of_def emptyGoalFoldState_def init_projection_def)
  from main show ?thesis by (simp only: start project_goal_def foldGoal_def)
qed

end
