(* ===== verification/Goal_Service.thy ===== *)
theory Goal_Service
  imports Goal_Fold Session_Log
begin

text \<open>
  The goal service of goal/goal/src/index.ts on one live session: compare-and-set mutations that
  append one full-snapshot change each, and the process-local activation that decides whether a
  goal may continue by itself. The current state is read from the projection of the session log
  (\<open>Goal_Fold\<close>); the append is the session's own (\<open>Session_Log\<close>). Whether the caller's agent is
  the registry's live instance, the clock, the fresh identity, and whether the session's append is
  refused are inputs of a call. The results: a mutation either leaves the log alone or appends
  exactly one change, which the strict fold accepts; a mutation that names a reference succeeds
  only on the current revision and leaves the next one; and a goal that is armed is active. The
  last section shows that an edit may lower the round cap below the rounds already started, which
  the schema of the projection's checkpoints rejects.
\<close>

section \<open>State\<close>

datatype activation = Armed | Disarmed

record goal_runtime =
  rt_activation :: activation
  rt_pendingActivation :: "(nat \<times> activation) option"

record goal_service =
  gs_session :: session
  gs_runtime :: goal_runtime

datatype service_error =
    AgentNotLive | GoalNotFound | GoalAlreadyExists | StaleRevision | InvalidObjective
  | InvalidMaxRounds | InvalidBlockReason | InvalidEdit | InvalidTransition
  | ReplayFailed nat goal_error | GoalAppendFailed session_error

record goal_view =
  gv_projection :: goal_projection
  gv_activation :: activation

text \<open>What a call takes from its surroundings.\<close>

record call_env =
  env_live :: bool
  env_now :: int
  env_appending :: bool
  env_accepts :: "session_event \<Rightarrow> bool"

definition new_runtime :: goal_runtime where
  "new_runtime = \<lparr>rt_activation = Disarmed, rt_pendingActivation = None\<rparr>"

section \<open>Validation of requests\<close>

definition resolveMaxGoalRounds :: "jsnum \<Rightarrow> service_error + int" where
  "resolveMaxGoalRounds n =
     (if \<not> isSafeInteger n \<or> num_int n < 1 then Inl InvalidMaxRounds else Inr (num_int n))"

definition resolveObjective :: "string \<Rightarrow> service_error + string" where
  "resolveObjective s = (if length (js_trim s) = 0 then Inl InvalidObjective else Inr (js_trim s))"

definition resolveCreateGoal :: "string \<Rightarrow> jsnum option \<Rightarrow> jsnum \<Rightarrow> service_error + string \<times> int" where
  "resolveCreateGoal objective maxRounds dflt =
     rbind (resolveObjective objective) (\<lambda>obj.
     rbind (resolveMaxGoalRounds (case maxRounds of None \<Rightarrow> dflt | Some n \<Rightarrow> n)) (\<lambda>cap.
     Inr (obj, cap)))"

definition resolveBlockReason :: "json \<Rightarrow> service_error + block_reason" where
  "resolveBlockReason reason =
     (if \<not> plain_record reason then Inl InvalidBlockReason
      else case (string_of (jget reason ''code''), string_of (jget reason ''message'')) of
        (Some code, Some m) \<Rightarrow>
          if \<not> lower_kebab code \<or> length (js_trim m) = 0 then Inl InvalidBlockReason
          else Inr \<lparr>br_code = code, br_message = js_trim m\<rparr>
      | _ \<Rightarrow> Inl InvalidBlockReason)"

section \<open>Reads\<close>

definition goal_state :: "session \<Rightarrow> service_error + goal_projection option" where
  "goal_state se =
     (let ps = project_goal (se_log se) in
      case ps_failure ps of Some (s, err) \<Rightarrow> Inl (ReplayFailed s err) | None \<Rightarrow> Inr (ps_current ps))"

definition assertLive :: "call_env \<Rightarrow> service_error + unit" where
  "assertLive env = (if env_live env then Inr () else Inl AgentNotLive)"

definition view :: "goal_projection option \<Rightarrow> goal_runtime \<Rightarrow> goal_view option" where
  "view p rt = map_option (\<lambda>q. \<lparr>gv_projection = q, gv_activation = rt_activation rt\<rparr>) p"

definition get_goal :: "call_env \<Rightarrow> goal_service \<Rightarrow> goal_service \<times> (service_error + goal_view option)" where
  "get_goal env gs =
     (gs, rbind (assertLive env) (\<lambda>_. rbind (goal_state (gs_session gs)) (\<lambda>p. Inr (view p (gs_runtime gs)))))"

definition disarm :: "call_env \<Rightarrow> goal_service \<Rightarrow> goal_service \<times> (service_error + goal_view option)" where
  "disarm env gs =
     (case assertLive env of
        Inl err \<Rightarrow> (gs, Inl err)
      | Inr _ \<Rightarrow>
          let gs' = gs\<lparr>gs_runtime := (gs_runtime gs)\<lparr>rt_activation := Disarmed\<rparr>\<rparr> in
          (gs', rbind (goal_state (gs_session gs')) (\<lambda>p. Inr (view p (gs_runtime gs')))))"

definition prepareMutation :: "call_env \<Rightarrow> goal_service \<Rightarrow> service_error + goal_projection option" where
  "prepareMutation env gs = rbind (assertLive env) (\<lambda>_. goal_state (gs_session gs))"

definition expectCurrent :: "goal_projection option \<Rightarrow> goal_ref \<Rightarrow> service_error + goal_projection" where
  "expectCurrent p ref =
     (case p of
        None \<Rightarrow> Inl GoalNotFound
      | Some q \<Rightarrow>
          if gr_id ref \<noteq> g_id (gp_goal q) \<or> gr_revision ref \<noteq> g_revision (gp_goal q)
          then Inl StaleRevision else Inr q)"

section \<open>Committing a change\<close>

text \<open>The listener on \<open>session/event\<close>, which runs inside the append.\<close>

definition on_session_event :: "session_event \<Rightarrow> goal_runtime \<Rightarrow> goal_runtime" where
  "on_session_event e rt =
     (case ev_data e of
        GoalChange _ \<Rightarrow>
          rt\<lparr>rt_activation :=
               (case rt_pendingActivation rt of
                  Some (offset, act) \<Rightarrow> if offset = ev_seq e then act else Disarmed
                | None \<Rightarrow> Disarmed)\<rparr>
      | _ \<Rightarrow> rt)"

definition commit ::
  "call_env \<Rightarrow> goal_service \<Rightarrow> goal_change \<Rightarrow> activation \<Rightarrow> goal_service \<times> (service_error + goal_view option)" where
  "commit env gs ch act =
     (let offset = length (se_log (gs_session gs));
          rt = (gs_runtime gs)\<lparr>rt_pendingActivation := Some (offset, act)\<rparr> in
      case append_event (env_appending env) (env_accepts env) (env_now env)
             (GoalChange (change_json ch)) None None (gs_session gs) of
        (se, Inl err) \<Rightarrow>
          (\<lparr>gs_session = se, gs_runtime = rt\<lparr>rt_pendingActivation := None\<rparr>\<rparr>, Inl (GoalAppendFailed err))
      | (se, Inr e) \<Rightarrow>
          let rt1 = on_session_event e rt;
              rt2 = (if offset = ev_seq e then rt1\<lparr>rt_activation := act\<rparr> else rt1)\<lparr>rt_pendingActivation := None\<rparr>;
              gs' = \<lparr>gs_session = se, gs_runtime = rt2\<rparr>
          in (gs', rbind (goal_state se) (\<lambda>p. Inr (view p rt2))))"

definition commitSnapshot ::
  "call_env \<Rightarrow> goal_service \<Rightarrow> goal_operation \<Rightarrow> goal_snapshot \<Rightarrow> int \<Rightarrow> int \<Rightarrow> int \<Rightarrow> activation \<Rightarrow>
   goal_service \<times> (service_error + goal_view)" where
  "commitSnapshot env gs operation goal rounds createdAt updatedAt act =
     (case commit env gs (SnapshotChange operation goal rounds createdAt updatedAt) act of
        (gs', Inl err) \<Rightarrow> (gs', Inl err)
      | (gs', Inr _) \<Rightarrow>
          (gs', Inr \<lparr>gv_projection = \<lparr>gp_goal = goal, gp_roundsStarted = rounds, gp_createdAt = createdAt,
                                     gp_updatedAt = updatedAt\<rparr>,
                     gv_activation = rt_activation (gs_runtime gs')\<rparr>))"

definition nextMutationTime :: "call_env \<Rightarrow> goal_projection \<Rightarrow> int" where
  "nextMutationTime env p = max (env_now env) (gp_updatedAt p)"

definition commitCurrent ::
  "call_env \<Rightarrow> goal_service \<Rightarrow> goal_projection \<Rightarrow> goal_operation \<Rightarrow> goal_snapshot \<Rightarrow> activation \<Rightarrow>
   goal_service \<times> (service_error + goal_view)" where
  "commitCurrent env gs p operation goal act =
     commitSnapshot env gs operation goal (gp_roundsStarted p) (gp_createdAt p) (nextMutationTime env p) act"

definition withPhase :: "goal_snapshot \<Rightarrow> goal_phase \<Rightarrow> goal_snapshot" where
  "withPhase current phase =
     \<lparr>g_id = g_id current, g_revision = g_revision current + 1, g_objective = g_objective current,
      g_phase = phase, g_blockedReason = None, g_maxGoalRounds = g_maxGoalRounds current\<rparr>"

section \<open>Mutations\<close>

text \<open>
  A mutation of the current goal: live agent, projection, compare-and-set check, then the
  operation's own checks, which give the new snapshot and the activation to commit with.
\<close>

definition create_goal ::
  "call_env \<Rightarrow> jsnum \<Rightarrow> string \<Rightarrow> string \<Rightarrow> jsnum option \<Rightarrow> goal_service \<Rightarrow> goal_service \<times> (service_error + goal_view)" where
  "create_goal env dflt freshId objective maxRounds gs =
     (case resolveCreateGoal objective maxRounds dflt of
        Inl err \<Rightarrow> (gs, Inl err)
      | Inr (obj, cap) \<Rightarrow>
     (case prepareMutation env gs of
        Inl err \<Rightarrow> (gs, Inl err)
      | Inr p \<Rightarrow>
          if (case p of None \<Rightarrow> False | Some q \<Rightarrow> g_phase (gp_goal q) \<noteq> Complete) then (gs, Inl GoalAlreadyExists)
          else commitSnapshot env gs Create
                 \<lparr>g_id = ''goal-'' @ freshId, g_revision = 1, g_objective = obj, g_phase = Active,
                  g_blockedReason = None, g_maxGoalRounds = cap\<rparr>
                 0 (env_now env) (env_now env) Armed))"

definition on_current ::
  "call_env \<Rightarrow> goal_ref \<Rightarrow> goal_service \<Rightarrow>
   (goal_projection \<Rightarrow> service_error + goal_operation \<times> goal_snapshot \<times> activation) \<Rightarrow>
   goal_service \<times> (service_error + goal_view)" where
  "on_current env ref gs plan =
     (case rbind (prepareMutation env gs) (\<lambda>p.
             rbind (expectCurrent p ref) (\<lambda>q. rbind (plan q) (\<lambda>r. Inr (q, r)))) of
        Inl err \<Rightarrow> (gs, Inl err)
      | Inr (q, operation, goal, act) \<Rightarrow> commitCurrent env gs q operation goal act)"

definition edit_goal ::
  "call_env \<Rightarrow> goal_ref \<Rightarrow> string option \<Rightarrow> jsnum option \<Rightarrow> goal_service \<Rightarrow> goal_service \<times> (service_error + goal_view)" where
  "edit_goal env ref objective maxRounds gs =
     on_current env ref gs (\<lambda>q.
       let current = gp_goal q in
       if objective = None \<and> maxRounds = None then Inl InvalidEdit
       else
         rbind (case objective of None \<Rightarrow> Inr (g_objective current) | Some s \<Rightarrow> resolveObjective s) (\<lambda>obj.
         rbind (case maxRounds of None \<Rightarrow> Inr (g_maxGoalRounds current) | Some n \<Rightarrow> resolveMaxGoalRounds n) (\<lambda>cap.
         Inr (Edit, current\<lparr>g_revision := g_revision current + 1, g_objective := obj, g_maxGoalRounds := cap\<rparr>,
              rt_activation (gs_runtime gs)))))"

definition transition ::
  "call_env \<Rightarrow> goal_ref \<Rightarrow> goal_operation \<Rightarrow> goal_phase list \<Rightarrow> goal_phase \<Rightarrow> activation \<Rightarrow> goal_service \<Rightarrow>
   goal_service \<times> (service_error + goal_view)" where
  "transition env ref operation allowed phase act gs =
     on_current env ref gs (\<lambda>q.
       if g_phase (gp_goal q) \<notin> set allowed then Inl InvalidTransition
       else Inr (operation, withPhase (gp_goal q) phase, act))"

definition pause_goal :: "call_env \<Rightarrow> goal_ref \<Rightarrow> goal_service \<Rightarrow> goal_service \<times> (service_error + goal_view)" where
  "pause_goal env ref = transition env ref Pause [Active] Paused Disarmed"

definition resume_goal :: "call_env \<Rightarrow> goal_ref \<Rightarrow> goal_service \<Rightarrow> goal_service \<times> (service_error + goal_view)" where
  "resume_goal env ref gs =
     on_current env ref gs (\<lambda>q.
       let current = gp_goal q in
       if g_phase current \<notin> set [Active, Paused, GoalBlocked] then Inl InvalidTransition
       else if g_phase current = Active \<and> rt_activation (gs_runtime gs) = Armed then Inl InvalidTransition
       else if g_maxGoalRounds current \<le> gp_roundsStarted q then Inl InvalidTransition
       else Inr (Resume, withPhase current Active, Armed))"

definition complete_goal :: "call_env \<Rightarrow> goal_ref \<Rightarrow> goal_service \<Rightarrow> goal_service \<times> (service_error + goal_view)" where
  "complete_goal env ref = transition env ref CompleteOp [Active, Paused, GoalBlocked] Complete Disarmed"

definition block_goal :: "call_env \<Rightarrow> goal_ref \<Rightarrow> json \<Rightarrow> goal_service \<Rightarrow> goal_service \<times> (service_error + goal_view)" where
  "block_goal env ref reason gs =
     on_current env ref gs (\<lambda>q.
       if g_phase (gp_goal q) \<noteq> Active then Inl InvalidTransition
       else rbind (resolveBlockReason reason) (\<lambda>r.
         Inr (Block, (withPhase (gp_goal q) GoalBlocked)\<lparr>g_blockedReason := Some r\<rparr>, Disarmed)))"

definition clear_goal :: "call_env \<Rightarrow> goal_ref \<Rightarrow> goal_service \<Rightarrow> goal_service \<times> (service_error + goal_ref)" where
  "clear_goal env ref gs =
     (case rbind (prepareMutation env gs) (\<lambda>p. expectCurrent p ref) of
        Inl err \<Rightarrow> (gs, Inl err)
      | Inr q \<Rightarrow>
          let tombstone = \<lparr>gr_id = g_id (gp_goal q), gr_revision = g_revision (gp_goal q) + 1\<rparr> in
          (case commit env gs (ClearChange tombstone (nextMutationTime env q)) Disarmed of
             (gs', Inl err) \<Rightarrow> (gs', Inl err)
           | (gs', Inr _) \<Rightarrow> (gs', Inr tombstone)))"

section \<open>Calls\<close>

datatype goal_call =
    GCreate jsnum string string "jsnum option"
  | GEdit goal_ref "string option" "jsnum option"
  | GPause goal_ref
  | GResume goal_ref
  | GComplete goal_ref
  | GBlock goal_ref json
  | GClear goal_ref
  | GDisarm

definition done_call :: "goal_service \<times> ('e + 'a) \<Rightarrow> goal_service \<times> ('e + unit)" where
  "done_call r = (fst r, map_sum id (\<lambda>_. ()) (snd r))"

fun goal_exec :: "call_env \<Rightarrow> goal_call \<Rightarrow> goal_service \<Rightarrow> goal_service \<times> (service_error + unit)" where
  "goal_exec env (GCreate dflt freshId objective cap) gs = done_call (create_goal env dflt freshId objective cap gs)"
| "goal_exec env (GEdit ref objective cap) gs = done_call (edit_goal env ref objective cap gs)"
| "goal_exec env (GPause ref) gs = done_call (pause_goal env ref gs)"
| "goal_exec env (GResume ref) gs = done_call (resume_goal env ref gs)"
| "goal_exec env (GComplete ref) gs = done_call (complete_goal env ref gs)"
| "goal_exec env (GBlock ref reason) gs = done_call (block_goal env ref reason gs)"
| "goal_exec env (GClear ref) gs = done_call (clear_goal env ref gs)"
| "goal_exec env GDisarm gs = done_call (disarm env gs)"

text \<open>
  Everything else that happens to the session: another component appends an event, or the session
  starts a new process lifetime.
\<close>

datatype goal_action =
    Call call_env goal_call
  | Elsewhere bool "session_event \<Rightarrow> bool" int event_data "json option" "json option"
  | SessionStart

definition elsewhere ::
  "bool \<Rightarrow> (session_event \<Rightarrow> bool) \<Rightarrow> int \<Rightarrow> event_data \<Rightarrow> json option \<Rightarrow> json option \<Rightarrow> goal_service \<Rightarrow> goal_service" where
  "elsewhere appending accepts now d srcs op gs =
     (case append_event appending accepts now d srcs op (gs_session gs) of
        (se, Inl _) \<Rightarrow> gs\<lparr>gs_session := se\<rparr>
      | (se, Inr e) \<Rightarrow> \<lparr>gs_session = se, gs_runtime = on_session_event e (gs_runtime gs)\<rparr>)"

fun goal_step :: "goal_service \<Rightarrow> goal_action \<Rightarrow> goal_service" where
  "goal_step gs (Call env c) = fst (goal_exec env c gs)"
| "goal_step gs (Elsewhere appending accepts now d srcs op) = elsewhere appending accepts now d srcs op gs"
| "goal_step gs SessionStart = gs\<lparr>gs_runtime := (gs_runtime gs)\<lparr>rt_activation := Disarmed\<rparr>\<rparr>"


section \<open>Arguments\<close>

lemma resolveObjective_ok: "resolveObjective s = Inr t \<Longrightarrow> normalString t"
  by (auto simp: resolveObjective_def js_trim_normal split: if_splits)

lemma resolveMaxGoalRounds_ok: "resolveMaxGoalRounds n = Inr i \<Longrightarrow> positive_safe i"
  using safe_num_int [of n] by (auto simp: resolveMaxGoalRounds_def positive_safe_def split: if_splits)

lemma resolveBlockReason_ok: "resolveBlockReason v = Inr r \<Longrightarrow> reason_ok r"
  by (auto simp: resolveBlockReason_def reason_ok_def js_trim_normal split: if_splits option.splits)

section \<open>The log under a commit\<close>

lemma foldGoal_snoc: "foldGoal (log @ [e]) = rbind (foldGoal log) (\<lambda>st. applyGoalEvent st e)"
  by (simp add: foldGoal_def run_snoc)

lemma goal_state_fold: "foldGoal (se_log se) = Inr st \<Longrightarrow> goal_state se = Inr (ps_current (view_of st))"
  using project_goal_cases [of "se_log se"] by (simp add: goal_state_def view_of_def)

lemma goal_state_Inr: "goal_state se = Inr p \<Longrightarrow> \<exists>st. foldGoal (se_log se) = Inr st \<and> p = ps_current (view_of st)"
  using project_goal_cases [of "se_log se"]
  by (cases "foldGoal (se_log se)") (auto simp: goal_state_def Let_def split: option.splits)

text \<open>What a commit did: refused with nothing changed, or one change event more.\<close>

lemma commit_elim:
  assumes "commit env gs ch act = (gs', r)"
  obtains (refused) err where "r = Inl (GoalAppendFailed err)" "se_log (gs_session gs') = se_log (gs_session gs)"
      "rt_activation (gs_runtime gs') = rt_activation (gs_runtime gs)"
    | (appended) e where "ev_data e = GoalChange (change_json ch)"
      "se_log (gs_session gs') = se_log (gs_session gs) @ [e]"
      "rt_activation (gs_runtime gs') = act"
      "r = rbind (goal_state (gs_session gs')) (\<lambda>p. Inr (view p (gs_runtime gs')))"
proof -
  obtain se a where a: "append_event (env_appending env) (env_accepts env) (env_now env)
      (GoalChange (change_json ch)) None None (gs_session gs) = (se, a)" by fastforce
  note al = append_log [OF a]
  show thesis
  proof (cases a)
    case (Inl err)
    with assms a al show thesis by (intro refused) (auto simp: commit_def Let_def)
  next
    case (Inr e)
    with al have e: "ev_data e = GoalChange (change_json ch)" "ev_seq e = length (se_log (gs_session gs))"
      "se_log se = se_log (gs_session gs) @ [e]" by (auto simp: candidate_def)
    with assms a Inr show thesis by (intro appended [OF e(1)]) (auto simp: commit_def Let_def)
  qed
qed

lemma commit_pending:
  "rt_pendingActivation (gs_runtime (fst (commit env gs ch act))) = None"
  by (auto simp: commit_def Let_def split: prod.splits sum.splits)

lemma commit_accepted:
  assumes st: "foldGoal (se_log (gs_session gs)) = Inr st"
    and ch: "change_ok ch" "applyGoalChange st ch = Inr st'"
    and c: "commit env gs ch act = (gs', r)"
  shows "(\<exists>err. r = Inl (GoalAppendFailed err)) \<and> se_log (gs_session gs') = se_log (gs_session gs)
    \<or> (\<exists>v e. r = Inr v \<and> se_log (gs_session gs') = se_log (gs_session gs) @ [e]
        \<and> ev_data e = GoalChange (change_json ch) \<and> foldGoal (se_log (gs_session gs')) = Inr st')"
  using c
proof (cases rule: commit_elim)
  case (refused err)
  then show ?thesis by simp
next
  case (appended e)
  have "applyGoalEvent st e = Inr st'"
    using decode_change_json [OF ch(1)] ch(2) by (simp add: applyGoalEvent_def appended(1))
  with st appended(2) have f: "foldGoal (se_log (gs_session gs')) = Inr st'" by (simp add: foldGoal_snoc)
  from appended(4) goal_state_fold [OF f] have "\<exists>v. r = Inr v" by simp
  with appended f show ?thesis by blast
qed


section \<open>Every mutation is acceptable to the fold\<close>

lemma count_up_length [simp]: "length (count_up n) = n"
  by (simp add: count_up_def)

lemma revision_bound:
  assumes "stream_inv log st" "gf_goal st = Some h"
  shows "g_revision h \<le> int (length log)"
proof -
  have "length (revisions (g_id h) log) \<le> length log"
    by (simp add: revisions_def List.map_filter_def)
  with stream_inv_goal(3) [OF assms] show ?thesis by simp
qed

lemma planned_accepted:
  assumes inv: "stream_inv log st" and h: "gf_goal st = Some h" and op: "validate_operation st op h g = Inr ()"
    and g: "snapshot_ok g" "g_id g = g_id h" "g_revision g = g_revision h + 1"
    and u: "count_safe u" "the (gf_updatedAt st) \<le> u"
  shows "change_ok (SnapshotChange op g (gf_roundsStarted st) (the (gf_createdAt st)) u)
    \<and> applyGoalChange st (SnapshotChange op g (gf_roundsStarted st) (the (gf_createdAt st)) u)
      = Inr (st\<lparr>gf_goal := Some g, gf_updatedAt := Some u, gf_lastRef := Some (snapshot_ref g)\<rparr>)"
proof -
  from inv h obtain t b where tb: "gf_createdAt st = Some t" "gf_updatedAt st = Some b" "count_safe t" "t \<le> b"
    "count_safe (gf_roundsStarted st)"
    by (auto simp: stream_inv_def)
  with validate_operation_keeps(1) [OF op] op g u h show ?thesis
    by (auto simp: change_ok_def applyGoalChange_def validateSnapshotTransition_def requireNextRevision_def
        goalChangeRef_def snapshot_ref_def)
qed

definition str_at :: "json \<Rightarrow> string \<Rightarrow> string" where
  "str_at v k = (case string_of (jget v k) of Some s \<Rightarrow> s | None \<Rightarrow> [])"

text \<open>The snapshot a successful call should leave, from the one it found.\<close>

fun expected_goal :: "goal_call \<Rightarrow> goal_snapshot \<Rightarrow> goal_snapshot option" where
  "expected_goal (GEdit _ objective cap) h =
     Some (h\<lparr>g_revision := g_revision h + 1,
             g_objective := (case objective of None \<Rightarrow> g_objective h | Some s \<Rightarrow> js_trim s),
             g_maxGoalRounds := (case cap of None \<Rightarrow> g_maxGoalRounds h | Some n \<Rightarrow> num_int n)\<rparr>)"
| "expected_goal (GPause _) h = Some (withPhase h Paused)"
| "expected_goal (GResume _) h = Some (withPhase h Active)"
| "expected_goal (GComplete _) h = Some (withPhase h Complete)"
| "expected_goal (GBlock _ reason) h =
     Some ((withPhase h GoalBlocked)\<lparr>g_blockedReason :=
       Some \<lparr>br_code = str_at reason ''code'', br_message = js_trim (str_at reason ''message'')\<rparr>\<rparr>)"
| "expected_goal _ h = None"

fun call_ref :: "goal_call \<Rightarrow> goal_ref option" where
  "call_ref (GEdit ref _ _) = Some ref"
| "call_ref (GPause ref) = Some ref"
| "call_ref (GResume ref) = Some ref"
| "call_ref (GComplete ref) = Some ref"
| "call_ref (GBlock ref _) = Some ref"
| "call_ref (GClear ref) = Some ref"
| "call_ref _ = None"


definition next_ref :: "goal_ref \<Rightarrow> goal_ref" where
  "next_ref ref = ref\<lparr>gr_revision := gr_revision ref + 1\<rparr>"

text \<open>What one successful call on a reference does to the stream.\<close>

definition advanced :: "session_event list \<Rightarrow> goal_fold \<Rightarrow> goal_ref \<Rightarrow> (goal_snapshot \<Rightarrow> goal_snapshot option) \<Rightarrow>
    session_event list \<Rightarrow> bool" where
  "advanced log st ref nxt log' \<longleftrightarrow>
     (\<exists>h e st'. gf_goal st = Some h \<and> ref = snapshot_ref h \<and> log' = log @ [e]
        \<and> foldGoal log' = Inr st' \<and> gf_goal st' = nxt h \<and> gf_lastRef st' = Some (next_ref ref))"

lemma expectCurrent_Inr:
  "expectCurrent p ref = Inr q \<longleftrightarrow> p = Some q \<and> ref = snapshot_ref (gp_goal q)"
  by (cases ref) (auto simp: expectCurrent_def snapshot_ref_def split: option.splits if_splits)

lemma prepareMutation_fold:
  assumes "foldGoal (se_log (gs_session gs)) = Inr st" "prepareMutation env gs = Inr p"
  shows "p = ps_current (view_of st)"
  using assms by (simp add: prepareMutation_def rbind_Inr_iff goal_state_fold)

lemma current_view:
  assumes "stream_inv log st" "ps_current (view_of st) = Some q"
  shows "gf_goal st = Some (gp_goal q)" "gp_roundsStarted q = gf_roundsStarted st"
    "gp_createdAt q = the (gf_createdAt st)" "gp_updatedAt q = the (gf_updatedAt st)"
    "count_safe (gp_updatedAt q)"
  using assms by (auto simp: view_of_def stream_inv_def split: option.splits)

lemma nextMutationTime_ok:
  "count_safe (env_now env) \<Longrightarrow> count_safe (gp_updatedAt q) \<Longrightarrow>
   count_safe (nextMutationTime env q) \<and> gp_updatedAt q \<le> nextMutationTime env q"
  by (auto simp: nextMutationTime_def count_safe_def)

definition plan_ok :: "goal_fold \<Rightarrow> (goal_snapshot \<Rightarrow> goal_snapshot option) \<Rightarrow>
    (goal_projection \<Rightarrow> service_error + goal_operation \<times> goal_snapshot \<times> activation) \<Rightarrow> bool" where
  "plan_ok st nxt plan \<longleftrightarrow>
     (\<forall>q op g act. plan q = Inr (op, g, act) \<longrightarrow> gf_goal st = Some (gp_goal q) \<longrightarrow>
        gp_roundsStarted q = gf_roundsStarted st \<longrightarrow> snapshot_ok (gp_goal q) \<longrightarrow>
        positive_safe (g_revision (gp_goal q) + 1) \<longrightarrow>
        validate_operation st op (gp_goal q) g = Inr () \<and> snapshot_ok g \<and> g_id g = g_id (gp_goal q)
        \<and> g_revision g = g_revision (gp_goal q) + 1 \<and> nxt (gp_goal q) = Some g)"

lemma on_current_advances:
  assumes st: "foldGoal (se_log (gs_session gs)) = Inr st" and now: "count_safe (env_now env)"
    and len: "int (length (se_log (gs_session gs))) < MAX_SAFE_INTEGER"
    and plan: "plan_ok st nxt plan"
    and r: "on_current env ref gs plan = (gs', r)"
  shows "case r of Inl _ \<Rightarrow> se_log (gs_session gs') = se_log (gs_session gs)
    | Inr _ \<Rightarrow> advanced (se_log (gs_session gs)) st ref nxt (se_log (gs_session gs'))"
proof (cases "rbind (prepareMutation env gs) (\<lambda>p. rbind (expectCurrent p ref) (\<lambda>q. rbind (plan q) (\<lambda>r. Inr (q, r))))")
  case (Inl err)
  with r show ?thesis by (auto simp: on_current_def)
next
  case (Inr w)
  then obtain q op g act where w: "w = (q, op, g, act)" and p: "prepareMutation env gs = Inr (Some q)"
    and ref: "ref = snapshot_ref (gp_goal q)" and pl: "plan q = Inr (op, g, act)"
    by (auto simp: rbind_Inr_iff expectCurrent_Inr)
  note inv = foldGoal_inv [OF st]
  from prepareMutation_fold [OF st p] have v: "ps_current (view_of st) = Some q" by simp
  note cur = current_view [OF inv v]
  note h = stream_inv_goal [OF inv cur(1)]
  have "positive_safe (g_revision (gp_goal q) + 1)"
    using revision_bound [OF inv cur(1)] h(1) len by (simp add: snapshot_ok_def positive_safe_def)
  with plan pl cur h have g: "validate_operation st op (gp_goal q) g = Inr ()" "snapshot_ok g"
    "g_id g = g_id (gp_goal q)" "g_revision g = g_revision (gp_goal q) + 1" "nxt (gp_goal q) = Some g"
    by (auto simp: plan_ok_def)
  let ?u = "nextMutationTime env q"
  let ?ch = "SnapshotChange op g (gp_roundsStarted q) (gp_createdAt q) ?u"
  let ?st = "st\<lparr>gf_goal := Some g, gf_updatedAt := Some ?u, gf_lastRef := Some (snapshot_ref g)\<rparr>"
  have ch: "change_ok ?ch" "applyGoalChange st ?ch = Inr ?st"
    using planned_accepted [OF inv cur(1) g(1-4), of ?u] nextMutationTime_ok [OF now cur(5)] cur(2-4) by auto
  obtain gs1 r1 where c: "commit env gs ?ch act = (gs1, r1)" by fastforce
  have lr: "snapshot_ref g = next_ref ref"
    using g(3,4) ref by (simp add: snapshot_ref_def next_ref_def)
  from r Inr w c have "gs' = gs1 \<and> (\<forall>v. r = Inr v \<longrightarrow> (\<exists>v'. r1 = Inr v')) \<and> (\<forall>err. r = Inl err \<longrightarrow> r1 = Inl err)"
    by (auto simp: on_current_def commitCurrent_def commitSnapshot_def split: sum.splits)
  with commit_accepted [OF st ch c] lr g(5) cur(1) ref show ?thesis
    by (cases r) (auto simp: advanced_def)
qed

lemma withPhase_ok:
  assumes "snapshot_ok h" "positive_safe (g_revision h + 1)" "phase \<noteq> GoalBlocked"
  shows "snapshot_ok (withPhase h phase)"
  using assms by (simp add: snapshot_ok_def withPhase_def)

lemma withPhase_fields [simp]:
  "g_id (withPhase h p) = g_id h" "g_revision (withPhase h p) = g_revision h + 1"
  "g_objective (withPhase h p) = g_objective h" "g_phase (withPhase h p) = p"
  "g_blockedReason (withPhase h p) = None" "g_maxGoalRounds (withPhase h p) = g_maxGoalRounds h"
  by (simp_all add: withPhase_def)

lemma transition_plan_ok:
  assumes "phase = (case op of Pause \<Rightarrow> Paused | CompleteOp \<Rightarrow> Complete | _ \<Rightarrow> Active)"
    and "op = Pause \<and> allowed = [Active] \<or> op = CompleteOp \<and> allowed = [Active, Paused, GoalBlocked]"
    and "\<And>h. nxt h = Some (withPhase h phase)"
  shows "plan_ok st nxt (\<lambda>q. if g_phase (gp_goal q) \<notin> set allowed then Inl InvalidTransition
      else Inr (op, withPhase (gp_goal q) phase, act))"
  using assms
  by (auto simp: plan_ok_def withPhase_ok validate_operation_def requireSameDefinition_def split: if_splits)


lemma resolve_num: "resolveMaxGoalRounds n = Inr i \<Longrightarrow> i = num_int n"
  by (auto simp: resolveMaxGoalRounds_def split: if_splits)

lemma resolve_trim: "resolveObjective s = Inr t \<Longrightarrow> t = js_trim s"
  by (auto simp: resolveObjective_def split: if_splits)

lemma edit_plan_ok:
  "plan_ok st (expected_goal (GEdit ref objective cap)) (\<lambda>q.
     let current = gp_goal q in
     if objective = None \<and> cap = None then Inl InvalidEdit
     else
       rbind (case objective of None \<Rightarrow> Inr (g_objective current) | Some s \<Rightarrow> resolveObjective s) (\<lambda>obj.
       rbind (case cap of None \<Rightarrow> Inr (g_maxGoalRounds current) | Some n \<Rightarrow> resolveMaxGoalRounds n) (\<lambda>m.
       Inr (Edit, current\<lparr>g_revision := g_revision current + 1, g_objective := obj, g_maxGoalRounds := m\<rparr>, act))))"
proof -
  have obj: "normalString obj \<and> obj = (case objective of None \<Rightarrow> g_objective h | Some s \<Rightarrow> js_trim s)"
    if "(case objective of None \<Rightarrow> Inr (g_objective h) | Some s \<Rightarrow> resolveObjective s) = Inr obj" "snapshot_ok h" for obj h
    using that by (cases objective) (auto simp: snapshot_ok_def dest: resolveObjective_ok resolve_trim)
  have cap: "positive_safe m \<and> m = (case cap of None \<Rightarrow> g_maxGoalRounds h | Some n \<Rightarrow> num_int n)"
    if "(case cap of None \<Rightarrow> Inr (g_maxGoalRounds h) | Some n \<Rightarrow> resolveMaxGoalRounds n) = Inr m" "snapshot_ok h" for m h
    using that by (cases cap) (auto simp: snapshot_ok_def dest: resolveMaxGoalRounds_ok resolve_num)
  show ?thesis
    unfolding plan_ok_def
  proof (intro allI impI)
    fix q op g act'
    assume a: "(let current = gp_goal q in
        if objective = None \<and> cap = None then Inl InvalidEdit
        else rbind (case objective of None \<Rightarrow> Inr (g_objective current) | Some s \<Rightarrow> resolveObjective s) (\<lambda>obj.
          rbind (case cap of None \<Rightarrow> Inr (g_maxGoalRounds current) | Some n \<Rightarrow> resolveMaxGoalRounds n) (\<lambda>m.
          Inr (Edit, current\<lparr>g_revision := g_revision current + 1, g_objective := obj, g_maxGoalRounds := m\<rparr>, act))))
        = Inr (op, g, act')"
      and ok: "snapshot_ok (gp_goal q)" and rev: "positive_safe (g_revision (gp_goal q) + 1)"
    from a obtain obj m where o: "(case objective of None \<Rightarrow> Inr (g_objective (gp_goal q)) | Some s \<Rightarrow> resolveObjective s) = Inr obj"
      and m: "(case cap of None \<Rightarrow> Inr (g_maxGoalRounds (gp_goal q)) | Some n \<Rightarrow> resolveMaxGoalRounds n) = Inr m"
      and g: "op = Edit" "g = (gp_goal q)\<lparr>g_revision := g_revision (gp_goal q) + 1, g_objective := obj, g_maxGoalRounds := m\<rparr>"
      by (auto simp: Let_def rbind_Inr_iff split: if_splits)
    from obj [OF o ok] cap [OF m ok] ok rev g
    show "validate_operation st op (gp_goal q) g = Inr () \<and> snapshot_ok g \<and> g_id g = g_id (gp_goal q)
        \<and> g_revision g = g_revision (gp_goal q) + 1 \<and> expected_goal (GEdit ref objective cap) (gp_goal q) = Some g"
      by (cases objective; cases cap; cases "g_blockedReason (gp_goal q)")
        (simp_all add: validate_operation_def snapshot_ok_def)
  qed
qed

lemma resume_plan_ok:
  "plan_ok st (expected_goal (GResume ref)) (\<lambda>q.
     let current = gp_goal q in
     if g_phase current \<notin> set [Active, Paused, GoalBlocked] then Inl InvalidTransition
     else if g_phase current = Active \<and> armed = Armed then Inl InvalidTransition
     else if g_maxGoalRounds current \<le> gp_roundsStarted q then Inl InvalidTransition
     else Inr (Resume, withPhase current Active, Armed))"
  by (auto simp: plan_ok_def Let_def withPhase_ok validate_operation_def requireSameDefinition_def split: if_splits)

lemma block_plan_ok:
  "plan_ok st (expected_goal (GBlock ref reason)) (\<lambda>q.
     if g_phase (gp_goal q) \<noteq> Active then Inl InvalidTransition
     else rbind (resolveBlockReason reason) (\<lambda>r.
       Inr (Block, (withPhase (gp_goal q) GoalBlocked)\<lparr>g_blockedReason := Some r\<rparr>, Disarmed)))"
proof -
  have r: "r = \<lparr>br_code = str_at reason ''code'', br_message = js_trim (str_at reason ''message'')\<rparr> \<and> reason_ok r"
    if "resolveBlockReason reason = Inr r" for r
    using that resolveBlockReason_ok [OF that]
    by (auto simp: resolveBlockReason_def str_at_def split: if_splits option.splits)
  then show ?thesis
    by (auto simp: plan_ok_def rbind_Inr_iff validate_operation_def requireSameDefinition_def snapshot_ok_def
        split: if_splits)
qed

lemma clear_advances:
  assumes st: "foldGoal (se_log (gs_session gs)) = Inr st" and now: "count_safe (env_now env)"
    and len: "int (length (se_log (gs_session gs))) < MAX_SAFE_INTEGER"
    and r: "clear_goal env ref gs = (gs', r)"
  shows "case r of Inl _ \<Rightarrow> se_log (gs_session gs') = se_log (gs_session gs)
    | Inr _ \<Rightarrow> advanced (se_log (gs_session gs)) st ref (\<lambda>_. None) (se_log (gs_session gs'))"
proof (cases "rbind (prepareMutation env gs) (\<lambda>p. expectCurrent p ref)")
  case (Inl err)
  with r show ?thesis by (auto simp: clear_goal_def)
next
  case (Inr q)
  then have p: "prepareMutation env gs = Inr (Some q)" and ref: "ref = snapshot_ref (gp_goal q)"
    by (auto simp: rbind_Inr_iff expectCurrent_Inr)
  note inv = foldGoal_inv [OF st]
  from prepareMutation_fold [OF st p] have v: "ps_current (view_of st) = Some q" by simp
  note cur = current_view [OF inv v]
  note h = stream_inv_goal [OF inv cur(1)]
  have rev: "positive_safe (g_revision (gp_goal q) + 1)"
    using revision_bound [OF inv cur(1)] h(1) len by (simp add: snapshot_ok_def positive_safe_def)
  obtain b where b: "gf_updatedAt st = Some b" using inv cur(1) by (auto simp: stream_inv_def)
  note t = nextMutationTime_ok [OF now cur(5)]
  let ?tomb = "\<lparr>gr_id = g_id (gp_goal q), gr_revision = g_revision (gp_goal q) + 1\<rparr>"
  let ?ch = "ClearChange ?tomb (nextMutationTime env q)"
  let ?st = "st\<lparr>gf_goal := None, gf_roundsStarted := 0, gf_createdAt := None, gf_updatedAt := None,
      gf_lastRef := Some ?tomb\<rparr>"
  have ch: "change_ok ?ch" "applyGoalChange st ?ch = Inr ?st"
    using rev t h(1) b cur
    by (auto simp: change_ok_def snapshot_ok_def applyGoalChange_def requireNextRevision_def goalChangeRef_def)
  obtain gs1 r1 where c: "commit env gs ?ch Disarmed = (gs1, r1)" by fastforce
  from r Inr c have "gs' = gs1 \<and> (\<forall>v. r = Inr v \<longrightarrow> (\<exists>v'. r1 = Inr v')) \<and> (\<forall>err. r = Inl err \<longrightarrow> r1 = Inl err)"
    by (auto simp: clear_goal_def Let_def split: sum.splits)
  moreover have "?tomb = next_ref ref" using ref by (simp add: next_ref_def snapshot_ref_def)
  ultimately show ?thesis
    using commit_accepted [OF st ch c] cur(1) ref by (cases r) (auto simp: advanced_def)
qed

lemma create_accepted:
  assumes st: "foldGoal (se_log (gs_session gs)) = Inr st" and now: "count_safe (env_now env)"
    and fresh: "''goal-'' @ i \<notin> set (created_ids (se_log (gs_session gs)))"
    and r: "create_goal env dflt i objective cap gs = (gs', r)"
  shows "case r of Inl _ \<Rightarrow> se_log (gs_session gs') = se_log (gs_session gs)
    | Inr _ \<Rightarrow> \<exists>e st' g. se_log (gs_session gs') = se_log (gs_session gs) @ [e]
        \<and> foldGoal (se_log (gs_session gs')) = Inr st' \<and> gf_goal st' = Some g
        \<and> g_revision g = 1 \<and> g_phase g = Active \<and> gf_roundsStarted st' = 0"
proof (cases "\<exists>obj m p. resolveCreateGoal objective cap dflt = Inr (obj, m) \<and> prepareMutation env gs = Inr p
    \<and> \<not> (case p of None \<Rightarrow> False | Some q \<Rightarrow> g_phase (gp_goal q) \<noteq> Complete)")
  case False
  with r show ?thesis by (auto simp: create_goal_def split: sum.splits if_splits)
next
  case True
  then obtain obj m p where res: "resolveCreateGoal objective cap dflt = Inr (obj, m)"
    and p: "prepareMutation env gs = Inr p" "\<not> (case p of None \<Rightarrow> False | Some q \<Rightarrow> g_phase (gp_goal q) \<noteq> Complete)"
    by blast
  from res have "normalString obj" "positive_safe m"
    by (auto simp: resolveCreateGoal_def rbind_Inr_iff dest: resolveObjective_ok resolveMaxGoalRounds_ok)
  note inv = foldGoal_inv [OF st]
  from prepareMutation_fold [OF st p(1)] p(2)
  have old: "\<not> (case gf_goal st of None \<Rightarrow> False | Some g \<Rightarrow> g_phase g \<noteq> Complete)"
    by (auto simp: view_of_def split: option.splits)
  let ?g = "\<lparr>g_id = ''goal-'' @ i, g_revision = 1, g_objective = obj, g_phase = Active,
      g_blockedReason = None, g_maxGoalRounds = m\<rparr>"
  let ?ch = "SnapshotChange Create ?g 0 (env_now env) (env_now env)"
  have seen: "g_id ?g \<notin> set (gf_seenGoalIds st)" using fresh inv by (simp add: stream_inv_def)
  have ch: "change_ok ?ch"
    using \<open>normalString obj\<close> \<open>positive_safe m\<close> now
    by (simp add: change_ok_def snapshot_ok_def positive_safe_def count_safe_def MAX_SAFE_INTEGER_def)
  obtain st' where st': "applyGoalChange st ?ch = Inr st'" "gf_goal st' = Some ?g" "gf_roundsStarted st' = 0"
    using seen old by (auto simp: applyGoalChange_def)
  obtain gs1 r1 where c: "commit env gs ?ch Armed = (gs1, r1)" by fastforce
  from r res p c have "gs' = gs1 \<and> (\<forall>v. r = Inr v \<longrightarrow> (\<exists>v'. r1 = Inr v')) \<and> (\<forall>err. r = Inl err \<longrightarrow> r1 = Inl err)"
    by (auto simp: create_goal_def commitSnapshot_def split: sum.splits)
  with commit_accepted [OF st ch st'(1) c] st'(2,3) show ?thesis
    by (cases r) auto
qed


text \<open>
  C20: what a goal call does to the durable stream. On a log the strict fold accepts, with a clock
  in the safe range and a created identity that is new, every call of the service either throws
  and leaves the log as it was, or appends exactly one event, which the strict fold accepts. A
  call on a reference succeeds only when the reference is the current goal's exact revision; it
  leaves the next revision and the goal the operation is documented to leave (paused, active,
  complete, blocked with its trimmed reason, edited, or none after a clear). A creation leaves an
  active goal at revision one with no rounds. Disarming leaves the log alone.
\<close>

theorem goal_call_commits_one_accepted_change:
  assumes st: "foldGoal (se_log (gs_session gs)) = Inr st" and now: "count_safe (env_now env)"
    and len: "int (length (se_log (gs_session gs))) < MAX_SAFE_INTEGER"
    and fresh: "\<And>dflt i objective cap. c = GCreate dflt i objective cap \<Longrightarrow>
      ''goal-'' @ i \<notin> set (created_ids (se_log (gs_session gs)))"
    and exec: "goal_exec env c gs = (gs', r)"
  shows "case (r, call_ref c) of
      (Inl _, _) \<Rightarrow> se_log (gs_session gs') = se_log (gs_session gs)
    | (Inr _, Some ref) \<Rightarrow> advanced (se_log (gs_session gs)) st ref (expected_goal c) (se_log (gs_session gs'))
    | (Inr _, None) \<Rightarrow> c = GDisarm \<and> se_log (gs_session gs') = se_log (gs_session gs)
        \<or> (\<exists>e st' g. se_log (gs_session gs') = se_log (gs_session gs) @ [e]
            \<and> foldGoal (se_log (gs_session gs')) = Inr st' \<and> gf_goal st' = Some g
            \<and> g_revision g = 1 \<and> g_phase g = Active \<and> gf_roundsStarted st' = 0)"
proof -
  have on: "case r of Inl _ \<Rightarrow> se_log (gs_session gs') = se_log (gs_session gs)
      | Inr _ \<Rightarrow> advanced (se_log (gs_session gs)) st ref nxt (se_log (gs_session gs'))"
    if "done_call (on_current env ref gs plan) = (gs', r)" "plan_ok st nxt plan" for ref plan nxt
    using on_current_advances [OF st now len that(2), of ref] that(1)
    by (cases "on_current env ref gs plan"; cases "snd (on_current env ref gs plan)") (auto simp: done_call_def)
  show ?thesis
  proof (cases c)
    case (GCreate dflt i objective cap)
    from create_accepted [OF st now fresh [OF GCreate]] exec GCreate show ?thesis
      by (cases "create_goal env dflt i objective cap gs"; cases "snd (create_goal env dflt i objective cap gs)")
        (fastforce simp: done_call_def)+
  next
    case (GEdit ref objective cap)
    from on [OF _ edit_plan_ok [where objective = objective and cap = cap and ref = ref
          and act = "rt_activation (gs_runtime gs)"], of ref] exec GEdit show ?thesis by (simp add: edit_goal_def split: sum.splits)
  next
    case (GPause ref)
    have "plan_ok st (expected_goal c) (\<lambda>q. if g_phase (gp_goal q) \<notin> set [Active] then Inl InvalidTransition
        else Inr (Pause, withPhase (gp_goal q) Paused, Disarmed))"
      by (rule transition_plan_ok) (simp_all add: GPause)
    from on [OF _ this, of ref] exec GPause show ?thesis by (simp add: pause_goal_def transition_def split: sum.splits)
  next
    case (GResume ref)
    from on [OF _ resume_plan_ok [where ref = ref and armed = "rt_activation (gs_runtime gs)"], of ref] exec GResume show ?thesis by (simp add: resume_goal_def split: sum.splits)
  next
    case (GComplete ref)
    have "plan_ok st (expected_goal c) (\<lambda>q. if g_phase (gp_goal q) \<notin> set [Active, Paused, GoalBlocked]
        then Inl InvalidTransition else Inr (CompleteOp, withPhase (gp_goal q) Complete, Disarmed))"
      by (rule transition_plan_ok) (simp_all add: GComplete)
    from on [OF _ this, of ref] exec GComplete show ?thesis by (simp add: complete_goal_def transition_def split: sum.splits)
  next
    case (GBlock ref reason)
    from on [OF _ block_plan_ok [where ref = ref and reason = reason], of ref] exec GBlock show ?thesis by (simp add: block_goal_def split: sum.splits)
  next
    case (GClear ref)
    have "expected_goal c = (\<lambda>_. None)" by (rule ext) (simp add: GClear)
    with clear_advances [OF st now len, of ref] exec GClear show ?thesis
      by (cases "clear_goal env ref gs"; cases "snd (clear_goal env ref gs)") (auto simp: done_call_def)
  next
    case GDisarm
    with exec show ?thesis
      by (auto simp: done_call_def disarm_def Let_def split: sum.splits)
  qed
qed

definition sample_env :: "int \<Rightarrow> call_env" where
  "sample_env now = \<lparr>env_live = True, env_now = now, env_appending = False, env_accepts = (\<lambda>_. True)\<rparr>"

definition sample_goals :: goal_service where
  "sample_goals = \<lparr>gs_session = sample_session, gs_runtime = new_runtime\<rparr>"

definition created_goals :: goal_service where
  "created_goals = goal_step sample_goals (Call (sample_env 8) (GCreate (NInt 256) ''1'' '' ship it '' None))"

definition created_fold :: goal_fold where
  "created_fold =
     \<lparr>gf_goal = Some \<lparr>g_id = ''goal-1'', g_revision = 1, g_objective = ''ship it'', g_phase = Active,
        g_blockedReason = None, g_maxGoalRounds = 256\<rparr>,
      gf_roundsStarted = 0, gf_createdAt = Some 8, gf_updatedAt = Some 8,
      gf_lastRef = Some \<lparr>gr_id = ''goal-1'', gr_revision = 1\<rparr>, gf_seenGoalIds = [''goal-1'']\<rparr>"

lemma created_goals_fold: "foldGoal (se_log (gs_session created_goals)) = Inr created_fold"
  by code_simp

lemma created_goals_pause:
  "snd (goal_exec (sample_env 9) (GPause \<lparr>gr_id = ''goal-1'', gr_revision = 1\<rparr>) created_goals) = Inr ()"
  by code_simp

theorem goal_call_commits_one_accepted_change_witness:
  "advanced (se_log (gs_session created_goals)) created_fold \<lparr>gr_id = ''goal-1'', gr_revision = 1\<rparr>
     (\<lambda>h. Some (withPhase h Paused))
     (se_log (gs_session (goal_step created_goals (Call (sample_env 9) (GPause \<lparr>gr_id = ''goal-1'', gr_revision = 1\<rparr>)))))"
proof -
  let ?c = "GPause \<lparr>gr_id = ''goal-1'', gr_revision = 1\<rparr>"
  obtain gs' r where e: "goal_exec (sample_env 9) ?c created_goals = (gs', r)" by fastforce
  have r: "r = Inr ()" using created_goals_pause by (simp only: e snd_conv)
  have len: "int (length (se_log (gs_session created_goals))) < MAX_SAFE_INTEGER" by code_simp
  have "case (r, call_ref ?c) of
      (Inl _, _) \<Rightarrow> se_log (gs_session gs') = se_log (gs_session created_goals)
    | (Inr _, Some ref) \<Rightarrow> advanced (se_log (gs_session created_goals)) created_fold ref (expected_goal ?c) (se_log (gs_session gs'))
    | (Inr _, None) \<Rightarrow> ?c = GDisarm \<and> se_log (gs_session gs') = se_log (gs_session created_goals)
        \<or> (\<exists>e st' g. se_log (gs_session gs') = se_log (gs_session created_goals) @ [e]
            \<and> foldGoal (se_log (gs_session gs')) = Inr st' \<and> gf_goal st' = Some g
            \<and> g_revision g = 1 \<and> g_phase g = Active \<and> gf_roundsStarted st' = 0)"
    by (rule goal_call_commits_one_accepted_change [OF created_goals_fold _ len _ e])
      (simp_all add: sample_env_def count_safe_def MAX_SAFE_INTEGER_def)
  moreover have "expected_goal ?c = (\<lambda>h. Some (withPhase h Paused))" by (rule ext) simp
  ultimately show ?thesis using r e by simp
qed

section \<open>An armed goal is active\<close>

lemma decode_written_phase:
  assumes "decodeGoalChange (change_json (SnapshotChange op g n t u)) = Inr (Some ch)"
  obtains g' n' t' u' where "ch = SnapshotChange op g' n' t' u'" "g_phase g' = g_phase g"
proof -
  have s: "g_phase g' = g_phase g" if "decodeSnapshot (Some (snapshot_json g)) = Inr g'" for g'
    using that by (auto simp: decodeSnapshot_def snapshot_json_def rbind_Inr_iff split: if_splits)
  from assms show thesis
    by (auto simp: decodeGoalChange_def change_json_def decode_snapshot_change_def rbind_Inr_iff
        split: if_splits intro: that dest!: s)
qed

text \<open>The activation agrees with the goal the log holds, and no commit is half done.\<close>

definition armed_ok :: "goal_service \<Rightarrow> bool" where
  "armed_ok gs \<longleftrightarrow>
     rt_pendingActivation (gs_runtime gs) = None
     \<and> (rt_activation (gs_runtime gs) = Armed \<longrightarrow>
         (case goal_state (gs_session gs) of
            Inl _ \<Rightarrow> True
          | Inr p \<Rightarrow> \<exists>q. p = Some q \<and> g_phase (gp_goal q) = Active))"

definition goal_active :: "goal_fold \<Rightarrow> bool" where
  "goal_active st \<longleftrightarrow> (\<exists>g. gf_goal st = Some g \<and> g_phase g = Active)"

lemma armed_ok_fold:
  "armed_ok gs \<longleftrightarrow> rt_pendingActivation (gs_runtime gs) = None
     \<and> (rt_activation (gs_runtime gs) = Armed \<longrightarrow> (\<forall>st. foldGoal (se_log (gs_session gs)) = Inr st \<longrightarrow> goal_active st))"
proof (cases "foldGoal (se_log (gs_session gs))")
  case (Inl err)
  then have "\<exists>e. goal_state (gs_session gs) = Inl e"
    using goal_state_Inr [of "gs_session gs"] by (cases "goal_state (gs_session gs)") auto
  with Inl show ?thesis by (auto simp: armed_ok_def)
next
  case (Inr st)
  then show ?thesis
    by (cases "gf_goal st") (auto simp: armed_ok_def goal_active_def goal_state_fold view_of_def)
qed

lemma commit_armed:
  assumes ok: "armed_ok gs" and c: "commit env gs ch act = (gs', r)"
    and ch: "act = Armed \<Longrightarrow> \<exists>op g n t u. ch = SnapshotChange op g n t u \<and> g_phase g = Active"
  shows "armed_ok gs'"
proof -
  have p: "rt_pendingActivation (gs_runtime gs') = None" using commit_pending [of env gs ch act] c by simp
  from c show ?thesis
  proof (cases rule: commit_elim)
    case (refused err)
    with ok p show ?thesis by (simp add: armed_ok_fold)
  next
    case (appended e)
    have "goal_active st'" if act: "act = Armed" and f: "foldGoal (se_log (gs_session gs')) = Inr st'" for st'
    proof -
      from ch [OF act] obtain op g n t u where ch': "ch = SnapshotChange op g n t u" and g: "g_phase g = Active" by blast
      from f appended(2) obtain st where "applyGoalEvent st e = Inr st'"
        by (auto simp: foldGoal_snoc rbind_Inr_iff)
      then show ?thesis
        by (cases rule: goal_step_elim)
          (use appended(1) ch' g in \<open>auto simp: goal_active_def elim!: decode_written_phase\<close>)
    qed
    with p appended(3) show ?thesis by (simp add: armed_ok_fold)
  qed
qed

lemma on_current_armed:
  assumes ok: "armed_ok gs" and r: "on_current env ref gs plan = (gs', r)"
    and plan: "\<And>q op g. goal_state (gs_session gs) = Inr (Some q) \<Longrightarrow> plan q = Inr (op, g, Armed) \<Longrightarrow> g_phase g = Active"
  shows "armed_ok gs'"
proof (cases "rbind (prepareMutation env gs) (\<lambda>p. rbind (expectCurrent p ref) (\<lambda>q. rbind (plan q) (\<lambda>r. Inr (q, r))))")
  case (Inl err)
  with r ok show ?thesis by (auto simp: on_current_def)
next
  case (Inr w)
  then obtain q op g act where w: "w = (q, op, g, act)" "prepareMutation env gs = Inr (Some q)" "plan q = Inr (op, g, act)"
    by (auto simp: rbind_Inr_iff expectCurrent_Inr)
  then have "goal_state (gs_session gs) = Inr (Some q)" by (simp add: prepareMutation_def rbind_Inr_iff)
  with plan w have g: "act = Armed \<Longrightarrow> g_phase g = Active" by blast
  let ?ch = "SnapshotChange op g (gp_roundsStarted q) (gp_createdAt q) (nextMutationTime env q)"
  obtain gs1 r1 where c: "commit env gs ?ch act = (gs1, r1)" by fastforce
  with r Inr w have "gs' = gs1" by (auto simp: on_current_def commitCurrent_def commitSnapshot_def split: sum.splits)
  with commit_armed [OF ok c] g show ?thesis by blast
qed

lemma goal_exec_armed:
  assumes ok: "armed_ok gs"
  shows "armed_ok (fst (goal_exec env c gs))"
proof -
  have on: "armed_ok (fst (on_current env ref gs plan))"
    if "\<And>q op g. goal_state (gs_session gs) = Inr (Some q) \<Longrightarrow> plan q = Inr (op, g, Armed) \<Longrightarrow> g_phase g = Active" for ref plan
    using on_current_armed [OF ok _ that] by (cases "on_current env ref gs plan") auto
  show ?thesis
  proof (cases c)
    case (GCreate dflt i objective cap)
    have "armed_ok (fst (create_goal env dflt i objective cap gs))"
      using ok
      by (auto simp: create_goal_def commitSnapshot_def split: sum.splits prod.splits dest!: commit_armed [OF ok])
    then show ?thesis by (simp add: GCreate done_call_def)
  next
    case (GEdit ref objective cap)
    have "armed_ok (fst (edit_goal env ref objective cap gs))"
      unfolding edit_goal_def
    proof (rule on)
      fix q op g
      assume "goal_state (gs_session gs) = Inr (Some q)"
        and "(let current = gp_goal q in
          if objective = None \<and> cap = None then Inl InvalidEdit
          else
            rbind (case objective of None \<Rightarrow> Inr (g_objective current) | Some s \<Rightarrow> resolveObjective s) (\<lambda>obj.
            rbind (case cap of None \<Rightarrow> Inr (g_maxGoalRounds current) | Some n \<Rightarrow> resolveMaxGoalRounds n) (\<lambda>cap.
            Inr (Edit, current\<lparr>g_revision := g_revision current + 1, g_objective := obj, g_maxGoalRounds := cap\<rparr>,
              rt_activation (gs_runtime gs))))) = Inr (op, g, Armed)"
      with ok show "g_phase g = Active"
        by (auto simp: armed_ok_def Let_def rbind_Inr_iff split: if_splits)
    qed
    then show ?thesis by (simp add: GEdit done_call_def)
  next
    case (GPause ref)
    then show ?thesis by (auto simp: done_call_def pause_goal_def transition_def split: if_splits intro!: on)
  next
    case (GResume ref)
    then show ?thesis by (auto simp: done_call_def resume_goal_def Let_def split: if_splits intro!: on)
  next
    case (GComplete ref)
    then show ?thesis by (auto simp: done_call_def complete_goal_def transition_def split: if_splits intro!: on)
  next
    case (GBlock ref reason)
    then show ?thesis by (auto simp: done_call_def block_goal_def rbind_Inr_iff split: if_splits intro!: on)
  next
    case (GClear ref)
    have "armed_ok (fst (clear_goal env ref gs))"
      using ok
      by (auto simp: clear_goal_def Let_def split: sum.splits prod.splits dest!: commit_armed [OF ok])
    then show ?thesis by (simp add: GClear done_call_def)
  next
    case GDisarm
    with ok show ?thesis by (auto simp: done_call_def disarm_def armed_ok_def Let_def split: sum.splits)
  qed
qed

lemma elsewhere_armed:
  assumes ok: "armed_ok gs"
  shows "armed_ok (elsewhere appending accepts now d srcs op gs)"
proof -
  obtain se a where a: "append_event appending accepts now d srcs op (gs_session gs) = (se, a)" by fastforce
  note al = append_log [OF a]
  show ?thesis
  proof (cases a)
    case (Inl err)
    with a al ok show ?thesis by (simp add: elsewhere_def armed_ok_fold)
  next
    case (Inr e)
    with al have log: "se_log se = se_log (gs_session gs) @ [e]" by simp
    have "goal_active st'" if act: "rt_activation (on_session_event e (gs_runtime gs)) = Armed"
      and f: "foldGoal (se_log se) = Inr st'" for st'
    proof -
      from f log obtain st where st: "foldGoal (se_log (gs_session gs)) = Inr st" "applyGoalEvent st e = Inr st'"
        by (auto simp: foldGoal_snoc rbind_Inr_iff)
      have ng: "ev_data e \<noteq> GoalChange v" for v
        using act ok by (auto simp: on_session_event_def armed_ok_def)
      then have "rt_activation (gs_runtime gs) = Armed"
        using act by (auto simp: on_session_event_def split: event_data.splits)
      with ok st(1) have "goal_active st" by (simp add: armed_ok_fold)
      with st(2) ng show ?thesis
        by (cases rule: goal_step_elim) (auto simp: goal_active_def)
    qed
    moreover have "rt_pendingActivation (on_session_event e (gs_runtime gs)) = None"
      using ok by (auto simp: on_session_event_def armed_ok_def split: event_data.splits)
    ultimately show ?thesis using a Inr by (simp add: elsewhere_def armed_ok_fold)
  qed
qed

lemma goal_step_armed: "armed_ok gs \<Longrightarrow> armed_ok (goal_step gs a)"
  by (cases a) (auto simp: goal_exec_armed elsewhere_armed, simp add: armed_ok_def)

text \<open>
  C21: automatic continuation never runs on a goal that is not active. Start the service on any
  session with any log and let calls of the service, appends of other components (goal changes and
  goal rounds among them) and session restarts happen in any order, each accepted or refused: the
  activation is armed only while the goal the log holds is active, and between calls no commit is
  pending.
\<close>

theorem armed_goal_is_active:
  "armed_ok (foldl goal_step \<lparr>gs_session = se, gs_runtime = new_runtime\<rparr> actions)"
proof -
  have "armed_ok \<lparr>gs_session = se, gs_runtime = new_runtime\<rparr>" by (simp add: armed_ok_def new_runtime_def)
  then show ?thesis by (induction actions rule: rev_induct) (simp_all add: goal_step_armed)
qed

section \<open>The schema of the projection's checkpoints\<close>

text \<open>\<open>goalProjectionStateSchema\<close>, on states of the projection's own shape.\<close>

definition projection_schema_ok :: "goal_projection \<Rightarrow> bool" where
  "projection_schema_ok q \<longleftrightarrow>
     g_id (gp_goal q) \<noteq> [] \<and> positive_safe (g_revision (gp_goal q)) \<and> g_objective (gp_goal q) \<noteq> []
     \<and> positive_safe (g_maxGoalRounds (gp_goal q)) \<and> count_safe (gp_roundsStarted q)"

definition state_schema_ok :: "projection_state \<Rightarrow> bool" where
  "state_schema_ok ps \<longleftrightarrow>
     (\<forall>i \<in> set (ps_seenGoalIds ps). i \<noteq> []) \<and> distinct (ps_seenGoalIds ps)
     \<and> (case ps_current ps of
          None \<Rightarrow> True
        | Some q \<Rightarrow>
            projection_schema_ok q
            \<and> g_id (gp_goal q) \<in> set (ps_seenGoalIds ps)
            \<and> gp_createdAt q \<le> gp_updatedAt q
            \<and> gp_roundsStarted q \<le> g_maxGoalRounds (gp_goal q))"

lemma created_id_nonempty: "created_id e = Some i \<Longrightarrow> i \<noteq> []"
  using decodeGoalChange_ok
  by (fastforce simp: created_id_def change_of_def change_ok_def snapshot_ok_def
      split: option.splits goal_change.splits event_data.splits sum.splits if_splits)

lemma created_ids_nonempty: "i \<in> set (created_ids log) \<Longrightarrow> i \<noteq> []"
  using created_id_nonempty by (auto simp: created_ids_def List.map_filter_def)

lemma normalString_nonempty: "normalString s \<Longrightarrow> s \<noteq> []"
  by (auto simp: normalString_def js_trim_def)

lemma state_schema_ok_iff:
  assumes "foldGoal log = Inr st"
  shows "state_schema_ok (project_goal log) \<longleftrightarrow>
    (case gf_goal st of None \<Rightarrow> True | Some g \<Rightarrow> gf_roundsStarted st \<le> g_maxGoalRounds g)"
proof -
  note inv = foldGoal_inv [OF assms]
  have p: "project_goal log = view_of st" using project_goal_cases [of log] assms by simp
  have ids: "distinct (gf_seenGoalIds st)" "\<forall>i \<in> set (gf_seenGoalIds st). i \<noteq> []"
    using inv created_ids_nonempty [of _ log] by (auto simp: stream_inv_def)
  show ?thesis
  proof (cases "gf_goal st")
    case None
    with ids show ?thesis by (simp add: p view_of_def state_schema_ok_def)
  next
    case (Some g)
    note g = stream_inv_goal [OF inv Some]
    from inv Some obtain t u where "gf_createdAt st = Some t" "gf_updatedAt st = Some u" "t \<le> u"
      by (auto simp: stream_inv_def)
    with inv g ids Some show ?thesis
      by (auto simp: p view_of_def state_schema_ok_def projection_schema_ok_def stream_inv_def snapshot_ok_def
          dest: normalString_nonempty)
  qed
qed

text \<open>
  C25: which states of an accepted log the checkpoint schema takes back. On every log the strict
  fold accepts, the schema that guards persisted states accepts the projected state if and only if
  the goal's round cap is not below the rounds it has started. The fold and the edit operation do
  not ask for that: an edit may lower the cap under the counter, and the state that results is
  refused when it is read back.
\<close>

theorem checkpoint_schema_needs_round_capacity:
  assumes "foldGoal log = Inr st"
  shows "state_schema_ok (project_goal log) \<longleftrightarrow>
    (case gf_goal st of None \<Rightarrow> True | Some g \<Rightarrow> gf_roundsStarted st \<le> g_maxGoalRounds g)"
  by (rule state_schema_ok_iff [OF assms])

theorem checkpoint_schema_needs_round_capacity_witness:
  "\<not> state_schema_ok (project_goal sample_stream)"
  by (simp add: checkpoint_schema_needs_round_capacity [OF sample_stream_fold])

end
