(* ===== verification/Projections.thy ===== *)
theory Projections
  imports Session_Log
begin

text \<open>
  The projection registry of session/session-projection/src/index.ts: registered folds over
  session logs, one cached cell per fold and session, driven forward by every committed event and
  brought up to date by every read; and the cold path, which restores a fold from a persisted row
  and the tail of a stored log. A state and a view are JavaScript values of any kind: the types
  \<open>'s\<close> and \<open>'v\<close> stand for values with their identity, so \<open>=\<close> is \<open>Object.is\<close>. The schemas are
  parsers that may refuse (\<open>None\<close>). The results: whatever was cached, driven late, or skipped,
  every read answers as folding the whole log does; a change of a view is reported to the
  listeners; restoring from rows of the log gives the full fold or refuses, also when the stored
  log has shrunk under a row. A session is a handle (the object) and its current value.
\<close>

section \<open>Units, cells, registrations\<close>

record ('s, 'v) wire_view =
  wv_parse :: "'v \<Rightarrow> 'v option"
  wv_view :: "'s \<Rightarrow> 'v"

record ('s, 'v) unit_def =
  ud_key :: string
  ud_parse :: "'s \<Rightarrow> 's option"
  ud_init :: "json \<Rightarrow> nat \<Rightarrow> 's"
  ud_apply :: "'s \<Rightarrow> session_event \<Rightarrow> 's"
  ud_wire :: "('s, 'v) wire_view option"
  ud_version :: jsnum

record ('s, 'v) cell =
  cl_state :: 's
  cl_observed :: int
  cl_views :: "'v option \<times> 'v option"

record ('s, 'v) registration =
  rg_def :: "('s, 'v) unit_def"
  rg_cells :: "nat \<Rightarrow> ('s, 'v) cell option"
  rg_refs :: nat

type_synonym ('s, 'v) registrations = "(string \<times> ('s, 'v) registration) list"

record ('s, 'v) registry =
  pr_regs :: "('s, 'v) registrations"
  pr_listeners :: "nat list"

record 's row =
  rw_ver :: jsnum
  rw_seq :: int
  rw_val :: 's

type_synonym 's row_table = "(string \<times> 's row) list"

text \<open>\<open>ProjectionSnapshot\<close>: the cut and the whole values by key.\<close>

record 'v snapshot_cut =
  sc_asOf :: int
  sc_values :: "(string \<times> 'v) list"

datatype projection_error =
    BadStateVersion string
  | SharedVersion string
  | CannotAdvance string nat
  | CannotRestore string nat
  | MissingSeq string nat
  | StateRefused string
  | ViewRefused string
  | NoWireView string

text \<open>One notification of the change feed: listener, session, key, value, sequence number.\<close>

type_synonym 'v change = "nat \<times> nat \<times> string \<times> 'v \<times> nat"

definition cursorBefore :: "nat \<Rightarrow> int" where
  "cursorBefore offset = int offset - 1"

definition new_registry :: "('s, 'v) registry" where
  "new_registry = \<lparr>pr_regs = [], pr_listeners = []\<rparr>"

section \<open>Loops over the registrations\<close>

text \<open>
  Every loop over the registration table visits it in order, may update each registration and
  collect results, and stops at the first throw, keeping what it has done.
\<close>

fun each_reg ::
  "('r \<Rightarrow> 'r \<times> 'a list \<times> 'e option) \<Rightarrow> (string \<times> 'r) list \<Rightarrow> (string \<times> 'r) list \<times> 'a list \<times> 'e option" where
  "each_reg f [] = ([], [], None)"
| "each_reg f ((k, rg) # rs) =
     (case f rg of
        (rg', out, Some err) \<Rightarrow> ((k, rg') # rs, out, Some err)
      | (rg', out, None) \<Rightarrow>
          (case each_reg f rs of (rs', outs, err) \<Rightarrow> ((k, rg') # rs', out @ outs, err)))"

section \<open>Registration\<close>

definition register :: "('s, 'v) unit_def \<Rightarrow> ('s, 'v) registry \<Rightarrow> ('s, 'v) registry \<times> projection_error option" where
  "register d reg =
     (if \<not> isSafeInteger (ud_version d) \<or> num_int (ud_version d) < 0 then (reg, Some (BadStateVersion (ud_key d)))
      else (case map_of (pr_regs reg) (ud_key d) of
              None \<Rightarrow>
                (reg\<lparr>pr_regs := map_set (ud_key d) \<lparr>rg_def = d, rg_cells = (\<lambda>_. None), rg_refs = 1\<rparr> (pr_regs reg)\<rparr>, None)
            | Some old \<Rightarrow>
                if \<not> num_eq (ud_version (rg_def old)) (ud_version d) then (reg, Some (SharedVersion (ud_key d)))
                else (reg\<lparr>pr_regs := map_set (ud_key d) (old\<lparr>rg_refs := rg_refs old + 1\<rparr>) (pr_regs reg)\<rparr>, None)))"

text \<open>The disposer of one successful registration.\<close>

definition release :: "string \<Rightarrow> ('s, 'v) registry \<Rightarrow> ('s, 'v) registry" where
  "release key reg =
     (case map_of (pr_regs reg) key of
        None \<Rightarrow> reg
      | Some live \<Rightarrow>
          if rg_refs live - 1 = 0 then reg\<lparr>pr_regs := map_delete key (pr_regs reg)\<rparr>
          else reg\<lparr>pr_regs := map_set key (live\<lparr>rg_refs := rg_refs live - 1\<rparr>) (pr_regs reg)\<rparr>)"

definition onChanged :: "nat \<Rightarrow> ('s, 'v) registry \<Rightarrow> ('s, 'v) registry" where
  "onChanged l reg = reg\<lparr>pr_listeners := set_add l (pr_listeners reg)\<rparr>"

definition unsubscribe :: "nat \<Rightarrow> ('s, 'v) registry \<Rightarrow> ('s, 'v) registry" where
  "unsubscribe l reg = reg\<lparr>pr_listeners := filter (\<lambda>m. m \<noteq> l) (pr_listeners reg)\<rparr>"

section \<open>Cells\<close>

definition buildCell :: "('s, 'v) unit_def \<Rightarrow> json \<Rightarrow> nat \<Rightarrow> session_event list \<Rightarrow> ('s, 'v) cell" where
  "buildCell d header inherited events =
     \<lparr>cl_state = foldl (ud_apply d) (ud_init d header inherited) events,
      cl_observed = (case last_of events of Some e \<Rightarrow> int (ev_seq e) | None \<Rightarrow> - 1),
      cl_views = (None, None)\<rparr>"

definition advance_step ::
  "('s, 'v) unit_def \<Rightarrow> session \<Rightarrow> ('s, 'v) cell \<Rightarrow> nat \<Rightarrow> projection_error + ('s, 'v) cell" where
  "advance_step d se c s =
     (case eventAt se s of
        None \<Rightarrow> Inl (CannotAdvance (ud_key d) s)
      | Some e \<Rightarrow>
          if ev_seq e \<noteq> s then Inl (CannotAdvance (ud_key d) s)
          else
            let nxt = ud_apply d (cl_state c) e in
            Inr \<lparr>cl_state = nxt, cl_observed = int s,
                 cl_views = (if nxt \<noteq> cl_state c then (snd (cl_views c), None) else cl_views c)\<rparr>)"

definition advanceCell ::
  "('s, 'v) unit_def \<Rightarrow> ('s, 'v) cell \<Rightarrow> session \<Rightarrow> int \<Rightarrow> ('s, 'v) cell \<times> projection_error option" where
  "advanceCell d c se throughSeq =
     (if throughSeq \<le> cl_observed c then (c, None)
      else run_keep (advance_step d se) c [nat (cl_observed c + 1)..<nat (throughSeq + 1)])"

definition set_cell :: "nat \<Rightarrow> ('s, 'v) cell \<Rightarrow> ('s, 'v) registration \<Rightarrow> ('s, 'v) registration" where
  "set_cell h c rg = rg\<lparr>rg_cells := (rg_cells rg)(h \<mapsto> c)\<rparr>"

definition fresh_cell :: "('s, 'v) registration \<Rightarrow> session \<Rightarrow> session_event list \<Rightarrow> ('s, 'v) cell" where
  "fresh_cell rg se events = buildCell (rg_def rg) (se_header se) (se_inheritedEventCount se) events"

definition cellFor ::
  "nat \<Rightarrow> session \<Rightarrow> ('s, 'v) registration \<Rightarrow> ('s, 'v) registration \<times> ('s, 'v) cell \<times> projection_error option" where
  "cellFor h se rg =
     (case rg_cells rg h of
        None \<Rightarrow> let c = fresh_cell rg se (se_log se) in (set_cell h c rg, c, None)
      | Some c \<Rightarrow>
          (case advanceCell (rg_def rg) c se (cursorBefore (length (se_log se))) of
             (c', err) \<Rightarrow> (set_cell h c' rg, c', err)))"

definition materialize_one ::
  "nat \<Rightarrow> session \<Rightarrow> ('s, 'v) registration \<Rightarrow> ('s, 'v) registration \<times> unit list \<times> projection_error option" where
  "materialize_one h se rg = (case cellFor h se rg of (rg', _, err) \<Rightarrow> (rg', [], err))"

definition viewCell :: "('s, 'v) unit_def \<Rightarrow> ('s, 'v) cell \<Rightarrow> projection_error + 'v" where
  "viewCell d c =
     (case ud_wire d of
        None \<Rightarrow> Inl (NoWireView (ud_key d))
      | Some w \<Rightarrow>
          (case wv_parse w (wv_view w (cl_state c)) of
             None \<Rightarrow> Inl (ViewRefused (ud_key d))
           | Some v \<Rightarrow> Inr v))"

text \<open>The listener of \<open>session/created\<close>: an empty session starts every missing cell.\<close>

definition created_one ::
  "nat \<Rightarrow> session \<Rightarrow> ('s, 'v) registration \<Rightarrow> ('s, 'v) registration" where
  "created_one h se rg =
     (if rg_cells rg h \<noteq> None then rg
      else set_cell h \<lparr>cl_state = ud_init (rg_def rg) (se_header se) (se_inheritedEventCount se),
                       cl_observed = - 1, cl_views = (None, None)\<rparr> rg)"

definition session_created :: "nat \<Rightarrow> session \<Rightarrow> ('s, 'v) registry \<Rightarrow> ('s, 'v) registry" where
  "session_created h se reg =
     (if length (se_log se) \<noteq> 0 then reg
      else reg\<lparr>pr_regs := map (\<lambda>(k, rg). (k, created_one h se rg)) (pr_regs reg)\<rparr>)"

section \<open>Reads of a live session\<close>

definition wanted :: "string list option \<Rightarrow> string \<Rightarrow> bool" where
  "wanted keys k = (case keys of None \<Rightarrow> True | Some ks \<Rightarrow> k \<in> set ks)"

definition stateOf ::
  "nat \<Rightarrow> session \<Rightarrow> string \<Rightarrow> ('s, 'v) registry \<Rightarrow> ('s, 'v) registry \<times> (projection_error + 's option)" where
  "stateOf h se key reg =
     (if map_of (pr_regs reg) key = None then (reg, Inr None)
      else
        (case each_reg (materialize_one h se) (pr_regs reg) of
           (rs, _, Some err) \<Rightarrow> (reg\<lparr>pr_regs := rs\<rparr>, Inl err)
         | (rs, _, None) \<Rightarrow>
             (case map_of rs key of
                None \<Rightarrow> (reg\<lparr>pr_regs := rs\<rparr>, Inr None)
              | Some rg \<Rightarrow>
                  (case cellFor h se rg of
                     (rg', c, err) \<Rightarrow>
                       (reg\<lparr>pr_regs := map_set key rg' rs\<rparr>,
                        case err of Some e \<Rightarrow> Inl e | None \<Rightarrow> Inr (Some (cl_state c)))))))"

definition snapshot_one ::
  "nat \<Rightarrow> session \<Rightarrow> string list option \<Rightarrow> ('s, 'v) registration \<Rightarrow>
   ('s, 'v) registration \<times> (string \<times> 'v) list \<times> projection_error option" where
  "snapshot_one h se keys rg =
     (if ud_wire (rg_def rg) = None \<or> \<not> wanted keys (ud_key (rg_def rg)) then (rg, [], None)
      else
        (case cellFor h se rg of
           (rg', _, Some err) \<Rightarrow> (rg', [], Some err)
         | (rg', c, None) \<Rightarrow>
             (case viewCell (rg_def rg) c of
                Inl err \<Rightarrow> (rg', [], Some err)
              | Inr v \<Rightarrow> (rg', [(ud_key (rg_def rg), v)], None))))"

definition snapshot ::
  "nat \<Rightarrow> session \<Rightarrow> string list option \<Rightarrow> ('s, 'v) registry \<Rightarrow>
   ('s, 'v) registry \<times> (projection_error + 'v snapshot_cut)" where
  "snapshot h se keys reg =
     (case each_reg (materialize_one h se) (pr_regs reg) of
        (rs, _, Some err) \<Rightarrow> (reg\<lparr>pr_regs := rs\<rparr>, Inl err)
      | (rs, _, None) \<Rightarrow>
          (case each_reg (snapshot_one h se keys) rs of
             (rs', values, err) \<Rightarrow>
               (reg\<lparr>pr_regs := rs'\<rparr>,
                case err of Some e \<Rightarrow> Inl e
                | None \<Rightarrow> Inr \<lparr>sc_asOf = cursorBefore (length (se_log se)), sc_values = values\<rparr>)))"

text \<open>The already materialized cells, without folding anything; they may trail the session.\<close>

fun cached_values ::
  "nat \<Rightarrow> string list option \<Rightarrow> ('s, 'v) registrations \<Rightarrow> projection_error + (string \<times> 'v \<times> int) list" where
  "cached_values h keys [] = Inr []"
| "cached_values h keys ((k, rg) # rs) =
     (if ud_wire (rg_def rg) = None \<or> \<not> wanted keys (ud_key (rg_def rg)) then cached_values h keys rs
      else
        (case rg_cells rg h of
           None \<Rightarrow> cached_values h keys rs
         | Some c \<Rightarrow>
             rbind (viewCell (rg_def rg) c) (\<lambda>v.
             rbind (cached_values h keys rs) (\<lambda>vs.
             Inr ((ud_key (rg_def rg), v, cl_observed c) # vs)))))"

definition cachedSnapshot ::
  "nat \<Rightarrow> string list option \<Rightarrow> ('s, 'v) registry \<Rightarrow> projection_error + 'v snapshot_cut option" where
  "cachedSnapshot h keys reg =
     rbind (cached_values h keys (pr_regs reg)) (\<lambda>vs.
       Inr (if vs = [] then None
            else Some \<lparr>sc_asOf = Min (set (map (\<lambda>(_, _, s). s) vs)), sc_values = map (\<lambda>(k, v, _). (k, v)) vs\<rparr>))"

definition checkpoint_one ::
  "nat \<Rightarrow> session \<Rightarrow> ('s, 'v) registration \<Rightarrow>
   ('s, 'v) registration \<times> (string \<times> 's row) list \<times> projection_error option" where
  "checkpoint_one h se rg =
     (case cellFor h se rg of
        (rg', _, Some err) \<Rightarrow> (rg', [], Some err)
      | (rg', c, None) \<Rightarrow>
          (rg', [(ud_key (rg_def rg), \<lparr>rw_ver = ud_version (rg_def rg), rw_seq = cl_observed c, rw_val = cl_state c\<rparr>)], None))"

definition checkpoint ::
  "nat \<Rightarrow> session \<Rightarrow> ('s, 'v) registry \<Rightarrow> ('s, 'v) registry \<times> (projection_error + 's row_table)" where
  "checkpoint h se reg =
     (case each_reg (checkpoint_one h se) (pr_regs reg) of
        (rs, rows, err) \<Rightarrow> (reg\<lparr>pr_regs := rs\<rparr>, case err of Some e \<Rightarrow> Inl e | None \<Rightarrow> Inr rows))"

section \<open>The drive\<close>

text \<open>
  One committed event through one unit. The state moves first; a client view is compared with the
  last one kept, and the listeners are told when it differs.
\<close>

definition drive_cell ::
  "nat \<Rightarrow> nat list \<Rightarrow> session_event \<Rightarrow> ('s, 'v) unit_def \<Rightarrow> ('s, 'v) cell \<Rightarrow>
   ('s, 'v) cell \<times> 'v change list \<times> projection_error option" where
  "drive_cell h listeners e d c =
     (let nxt = ud_apply d (cl_state c) e;
          c' = c\<lparr>cl_state := nxt, cl_observed := int (ev_seq e)\<rparr> in
      if nxt = cl_state c then (c', [], None)
      else (case ud_wire d of
              None \<Rightarrow> (c', [], None)
            | Some w \<Rightarrow>
                if listeners = [] then (c'\<lparr>cl_views := (snd (cl_views c), None)\<rparr>, [], None)
                else
                  let c'' = c'\<lparr>cl_views := (snd (cl_views c), Some (wv_view w nxt))\<rparr> in
                  if snd (cl_views c) = Some (wv_view w nxt) then (c'', [], None)
                  else (case wv_parse w (wv_view w nxt) of
                          None \<Rightarrow> (c'', [], Some (ViewRefused (ud_key d)))
                        | Some v \<Rightarrow> (c'', map (\<lambda>l. (l, h, ud_key d, v, ev_seq e)) listeners, None))))"

definition drive_one ::
  "nat \<Rightarrow> session \<Rightarrow> nat list \<Rightarrow> session_event \<Rightarrow> ('s, 'v) registration \<Rightarrow>
   ('s, 'v) registration \<times> 'v change list \<times> projection_error option" where
  "drive_one h se listeners e rg =
     (let go = (\<lambda>c. case drive_cell h listeners e (rg_def rg) c of (c', out, err) \<Rightarrow> (set_cell h c' rg, out, err)) in
      case rg_cells rg h of
        None \<Rightarrow> go (fresh_cell rg se (slice 0 (ev_seq e) (se_log se)))
      | Some c \<Rightarrow>
          if int (ev_seq e) \<le> cl_observed c then (rg, [], None)
          else (case advanceCell (rg_def rg) c se (if ev_seq e = 0 then - 1 else int (ev_seq e - 1)) of
                  (c', Some err) \<Rightarrow> (set_cell h c' rg, [], Some err)
                | (c', None) \<Rightarrow> go c'))"

definition drive ::
  "nat \<Rightarrow> session \<Rightarrow> session_event \<Rightarrow> ('s, 'v) registry \<Rightarrow>
   ('s, 'v) registry \<times> 'v change list \<times> projection_error option" where
  "drive h se e reg =
     (case each_reg (drive_one h se (pr_listeners reg) e) (pr_regs reg) of
        (rs, out, err) \<Rightarrow> (reg\<lparr>pr_regs := rs\<rparr>, out, err))"

section \<open>The cold path\<close>

definition row_current :: "('s, 'v) unit_def \<Rightarrow> 's row option \<Rightarrow> bool" where
  "row_current d r = (case r of None \<Rightarrow> False | Some w \<Rightarrow> num_eq (rw_ver w) (ud_version d))"

definition floor_need :: "'s row_table \<Rightarrow> ('s, 'v) unit_def \<Rightarrow> int" where
  "floor_need ck d =
     (case map_of ck (ud_key d) of
        Some w \<Rightarrow> if num_eq (rw_ver w) (ud_version d) then max (rw_seq w + 1) 0 else 0
      | None \<Rightarrow> 0)"

definition floor_step :: "'s row_table \<Rightarrow> int option \<Rightarrow> ('s, 'v) unit_def \<Rightarrow> int option" where
  "floor_step ck acc d =
     (case acc of None \<Rightarrow> Some (floor_need ck d) | Some f \<Rightarrow> Some (min f (floor_need ck d)))"

definition defs_of :: "('s, 'v) registry \<Rightarrow> ('s, 'v) unit_def list" where
  "defs_of reg = map (rg_def \<circ> snd) (pr_regs reg)"

definition restoreFloor :: "'s row_table \<Rightarrow> ('s, 'v) registry \<Rightarrow> nat option" where
  "restoreFloor ck reg = map_option (\<lambda>f. nat (max (f - 1) 0)) (foldl (floor_step ck) None (defs_of reg))"

fun view_rows :: "'s row_table \<Rightarrow> string list option \<Rightarrow> ('s, 'v) unit_def list \<Rightarrow> projection_error + (string \<times> 'v) list" where
  "view_rows ck keys [] = Inr []"
| "view_rows ck keys (d # ds) =
     (case ud_wire d of
        None \<Rightarrow> view_rows ck keys ds
      | Some w \<Rightarrow>
          if \<not> wanted keys (ud_key d) then view_rows ck keys ds
          else (case map_of ck (ud_key d) of
                  None \<Rightarrow> view_rows ck keys ds
                | Some r \<Rightarrow>
                    if \<not> num_eq (rw_ver r) (ud_version d) then view_rows ck keys ds
                    else (case ud_parse d (rw_val r) of
                            None \<Rightarrow> view_rows ck keys ds
                          | Some s \<Rightarrow>
                              (case wv_parse w (wv_view w s) of
                                 None \<Rightarrow> Inl (ViewRefused (ud_key d))
                               | Some v \<Rightarrow> rbind (view_rows ck keys ds) (\<lambda>vs. Inr ((ud_key d, v) # vs))))))"

definition viewCheckpoint :: "'s row_table \<Rightarrow> string list option \<Rightarrow> ('s, 'v) registry \<Rightarrow> projection_error + (string \<times> 'v) list" where
  "viewCheckpoint ck keys reg = view_rows ck keys (defs_of reg)"

definition end_seq :: "nat \<Rightarrow> session_event list \<Rightarrow> int" where
  "end_seq base events = (case last_of events of Some e \<Rightarrow> int (ev_seq e) | None \<Rightarrow> cursorBefore base)"

definition usable :: "('s, 'v) unit_def \<Rightarrow> 's row option \<Rightarrow> nat \<Rightarrow> int \<Rightarrow> bool" where
  "usable d r base endSeq =
     (case r of
        None \<Rightarrow> False
      | Some w \<Rightarrow> num_eq (rw_ver w) (ud_version d) \<and> cursorBefore base \<le> rw_seq w \<and> rw_seq w \<le> endSeq)"

definition replay_step ::
  "('s, 'v) unit_def \<Rightarrow> nat \<Rightarrow> session_event list \<Rightarrow> 's \<Rightarrow> nat \<Rightarrow> projection_error + 's" where
  "replay_step d base events s i =
     (if i < length events \<and> ev_seq (events ! i) = base + i then Inr (ud_apply d s (events ! i))
      else Inl (MissingSeq (ud_key d) (base + i)))"

definition restore_unit ::
  "'s row_table \<Rightarrow> session_event list \<Rightarrow> nat \<Rightarrow> json \<Rightarrow> nat \<Rightarrow> ('s, 'v) unit_def \<Rightarrow>
   projection_error + (string \<times> 'v) list \<times> (string \<times> 's row)" where
  "restore_unit ck events base header inherited d =
     (let endSeq = end_seq base events; r = map_of ck (ud_key d) in
      if \<not> usable d r base endSeq \<and> 0 < base then Inl (CannotRestore (ud_key d) base)
      else
        rbind (if usable d r base endSeq
               then (case ud_parse d (rw_val (the r)) of None \<Rightarrow> Inl (StateRefused (ud_key d)) | Some s \<Rightarrow> Inr s)
               else Inr (ud_init d header inherited)) (\<lambda>s.
        let from = (if usable d r base endSeq then rw_seq (the r) else cursorBefore base) in
        rbind (run (replay_step d base events) s [nat (from - int base + 1)..<length events]) (\<lambda>s'.
        rbind (case ud_wire d of
                 None \<Rightarrow> Inr []
               | Some w \<Rightarrow> (case wv_parse w (wv_view w s') of
                              None \<Rightarrow> Inl (ViewRefused (ud_key d)) | Some v \<Rightarrow> Inr [(ud_key d, v)])) (\<lambda>vs.
        Inr (vs, (ud_key d, \<lparr>rw_ver = ud_version d, rw_seq = endSeq, rw_val = s'\<rparr>))))))"

definition restore ::
  "'s row_table \<Rightarrow> session_event list \<Rightarrow> nat \<Rightarrow> json \<Rightarrow> nat \<Rightarrow> ('s, 'v) registry \<Rightarrow>
   projection_error + 'v snapshot_cut \<times> 's row_table" where
  "restore ck events base header inherited reg =
     rbind (map_result (restore_unit ck events base header inherited) (defs_of reg)) (\<lambda>rs.
       Inr (\<lparr>sc_asOf = end_seq base events, sc_values = concat (map fst rs)\<rparr>, map snd rs))"

definition all_at :: "nat \<Rightarrow> int \<Rightarrow> ('s, 'v) registry \<Rightarrow> bool" where
  "all_at h endSeq reg =
     list_all (\<lambda>(_, rg). case rg_cells rg h of None \<Rightarrow> False | Some c \<Rightarrow> cl_observed c = endSeq) (pr_regs reg)"

definition install_row :: "nat \<Rightarrow> 's row_table \<Rightarrow> ('s, 'v) registration \<Rightarrow> ('s, 'v) registration" where
  "install_row h rows rg =
     (case map_of rows (ud_key (rg_def rg)) of
        None \<Rightarrow> rg
      | Some w \<Rightarrow>
          if (case rg_cells rg h of None \<Rightarrow> False | Some c \<Rightarrow> rw_seq w < cl_observed c) then rg
          else set_cell h \<lparr>cl_state = rw_val w, cl_observed = rw_seq w, cl_views = (None, None)\<rparr> rg)"

definition hydrate ::
  "nat \<Rightarrow> session \<Rightarrow> 's row_table \<Rightarrow> session_event list \<Rightarrow> nat \<Rightarrow> ('s, 'v) registry \<Rightarrow>
   ('s, 'v) registry \<times> (projection_error + 'v snapshot_cut)" where
  "hydrate h se ck events base reg =
     (let endSeq = end_seq base events in
      if all_at h endSeq reg then
        (reg, rbind (cached_values h None (pr_regs reg)) (\<lambda>vs.
                Inr \<lparr>sc_asOf = endSeq, sc_values = map (\<lambda>(k, v, _). (k, v)) vs\<rparr>))
      else
        (case restore ck events base (se_header se) (se_inheritedEventCount se) reg of
           Inl err \<Rightarrow> (reg, Inl err)
         | Inr (snap, rows) \<Rightarrow>
             (reg\<lparr>pr_regs := map (\<lambda>(k, rg). (k, install_row h rows rg)) (pr_regs reg)\<rparr>, Inr snap)))"

section \<open>Cells are folds of a prefix\<close>

definition unit_state :: "('s, 'v) unit_def \<Rightarrow> session \<Rightarrow> nat \<Rightarrow> 's" where
  "unit_state d se n =
     foldl (ud_apply d) (ud_init d (se_header se) (se_inheritedEventCount se)) (take n (se_log se))"

definition full_state :: "('s, 'v) unit_def \<Rightarrow> session \<Rightarrow> 's" where
  "full_state d se = unit_state d se (length (se_log se))"

definition cell_ok :: "('s, 'v) unit_def \<Rightarrow> session \<Rightarrow> ('s, 'v) cell \<Rightarrow> bool" where
  "cell_ok d se c \<longleftrightarrow>
     - 1 \<le> cl_observed c \<and> cl_observed c < int (length (se_log se))
     \<and> cl_state c = unit_state d se (nat (cl_observed c + 1))
     \<and> (case snd (cl_views c) of None \<Rightarrow> True
        | Some v \<Rightarrow> \<exists>w. ud_wire d = Some w \<and> v = wv_view w (cl_state c))"

lemma unit_state_Suc:
  "n < length (se_log se) \<Longrightarrow> unit_state d se (Suc n) = ud_apply d (unit_state d se n) (se_log se ! n)"
  by (simp add: unit_state_def take_Suc_conv_app_nth)

lemma buildCell_ok:
  assumes "contiguous (se_log se)" "n \<le> length (se_log se)"
  shows "cell_ok (rg_def rg) se (fresh_cell rg se (take n (se_log se)))"
    "cl_observed (fresh_cell rg se (take n (se_log se))) = int n - 1"
proof -
  show obs: "cl_observed (fresh_cell rg se (take n (se_log se))) = int n - 1"
    using assms
    by (cases n) (auto simp: fresh_cell_def buildCell_def last_of_def last_conv_nth contiguous_def)
  show "cell_ok (rg_def rg) se (fresh_cell rg se (take n (se_log se)))"
    using assms obs by (simp add: cell_ok_def) (simp add: fresh_cell_def buildCell_def unit_state_def)
qed

lemma advance_step_ok:
  assumes "contiguous (se_log se)" "cell_ok d se c" "cl_observed c + 1 = int s" "s < length (se_log se)"
  shows "\<exists>c'. advance_step d se c s = Inr c' \<and> cell_ok d se c' \<and> cl_observed c' = int s"
proof -
  have e: "eventAt se s = Some (se_log se ! s)" "ev_seq (se_log se ! s) = s"
    using assms by (simp_all add: eventAt_def contiguous_def)
  have "unit_state d se (Suc s) = ud_apply d (cl_state c) (se_log se ! s)"
    using assms by (simp add: unit_state_Suc cell_ok_def)
  with e assms show ?thesis
    by (auto simp: advance_step_def Let_def cell_ok_def nat_add_distrib split: option.splits)
qed

lemma advance_run:
  assumes "contiguous (se_log se)" "cell_ok d se c" "cl_observed c + 1 = int a" "a \<le> b" "b \<le> length (se_log se)"
  shows "\<exists>c'. run_keep (advance_step d se) c [a..<b] = (c', None) \<and> cell_ok d se c' \<and> cl_observed c' = int b - 1"
  using assms
proof (induction "b - a" arbitrary: a c)
  case 0
  then show ?case by auto
next
  case (Suc n)
  then have "a < b" by simp
  with Suc.prems advance_step_ok [of se d c a] obtain c1 where
    c1: "advance_step d se c a = Inr c1" "cell_ok d se c1" "cl_observed c1 = int a" by auto
  with Suc.hyps(1) [of "Suc a" c1] Suc.hyps(2) Suc.prems \<open>a < b\<close> show ?case
    by (simp add: upt_conv_Cons)
qed

lemma advanceCell_ok:
  assumes "contiguous (se_log se)" "cell_ok d se c" "t < int (length (se_log se))"
  shows "\<exists>c'. advanceCell d c se t = (c', None) \<and> cell_ok d se c' \<and> cl_observed c' = max (cl_observed c) t"
proof (cases "t \<le> cl_observed c")
  case True
  with assms show ?thesis by (simp add: advanceCell_def max_def)
next
  case False
  with assms(2) have "cl_observed c + 1 = int (nat (cl_observed c + 1))" "nat (cl_observed c + 1) \<le> nat (t + 1)"
    by (auto simp: cell_ok_def)
  with advance_run [OF assms(1,2), of "nat (cl_observed c + 1)" "nat (t + 1)"] assms(2,3) False show ?thesis
    by (auto simp: advanceCell_def cell_ok_def max_def)
qed

lemma cell_state_full:
  "cell_ok d se c \<Longrightarrow> cl_observed c = int (length (se_log se)) - 1 \<Longrightarrow> cl_state c = full_state d se"
  by (simp add: cell_ok_def full_state_def)

section \<open>The invariant of the registry\<close>

definition reg_ok :: "(nat \<Rightarrow> session option) \<Rightarrow> ('s, 'v) registration \<Rightarrow> bool" where
  "reg_ok sessions rg \<longleftrightarrow>
     (\<forall>h c. rg_cells rg h = Some c \<longrightarrow> (\<exists>se. sessions h = Some se \<and> cell_ok (rg_def rg) se c))"

definition registry_ok :: "(nat \<Rightarrow> session option) \<Rightarrow> ('s, 'v) registry \<Rightarrow> bool" where
  "registry_ok sessions reg \<longleftrightarrow>
     distinct (map fst (pr_regs reg))
     \<and> (\<forall>(k, rg) \<in> set (pr_regs reg). ud_key (rg_def rg) = k \<and> reg_ok sessions rg)"

definition sessions_ok :: "(nat \<Rightarrow> session option) \<Rightarrow> bool" where
  "sessions_ok sessions \<longleftrightarrow> (\<forall>h se. sessions h = Some se \<longrightarrow> contiguous (se_log se))"

text \<open>What an update of a registration by a read or a drive never touches.\<close>

definition same_unit :: "(nat \<Rightarrow> session option) \<Rightarrow> ('s, 'v) registration \<Rightarrow> ('s, 'v) registration \<Rightarrow> bool" where
  "same_unit sessions rg rg' \<longleftrightarrow>
     rg_def rg' = rg_def rg \<and> rg_refs rg' = rg_refs rg \<and> (reg_ok sessions rg \<longrightarrow> reg_ok sessions rg')"

lemma same_unit_refl [simp]: "same_unit sessions rg rg"
  by (simp add: same_unit_def)

lemma set_cell_simps [simp]:
  "rg_def (set_cell h c rg) = rg_def rg" "rg_refs (set_cell h c rg) = rg_refs rg"
  "rg_cells (set_cell h c rg) = (rg_cells rg)(h \<mapsto> c)"
  by (simp_all add: set_cell_def)

lemma set_cell_same:
  "sessions h = Some se \<Longrightarrow> cell_ok (rg_def rg) se c \<Longrightarrow> same_unit sessions rg (set_cell h c rg)"
  by (auto simp: same_unit_def reg_ok_def)

lemma reg_ok_cell: "reg_ok sessions rg \<Longrightarrow> rg_cells rg h = Some c \<Longrightarrow> sessions h = Some se \<Longrightarrow> cell_ok (rg_def rg) se c"
  unfolding reg_ok_def by (metis option.inject)

lemma cellFor_ok:
  assumes "sessions_ok sessions" "sessions h = Some se" "reg_ok sessions rg"
  shows "\<exists>c. cellFor h se rg = (set_cell h c rg, c, None) \<and> cell_ok (rg_def rg) se c
    \<and> cl_observed c = int (length (se_log se)) - 1 \<and> cl_state c = full_state (rg_def rg) se"
proof (cases "rg_cells rg h")
  case None
  from assms have "contiguous (se_log se)" by (simp add: sessions_ok_def)
  with buildCell_ok [of se "length (se_log se)" rg] cell_state_full show ?thesis
    by (auto simp: cellFor_def None Let_def)
next
  case (Some c)
  from assms have "contiguous (se_log se)" by (simp add: sessions_ok_def)
  moreover from assms Some have "cell_ok (rg_def rg) se c" by (blast intro: reg_ok_cell)
  moreover have "cursorBefore (length (se_log se)) < int (length (se_log se))" by (simp add: cursorBefore_def)
  ultimately obtain c' where c': "advanceCell (rg_def rg) c se (cursorBefore (length (se_log se))) = (c', None)"
    "cell_ok (rg_def rg) se c'" "cl_observed c' = max (cl_observed c) (cursorBefore (length (se_log se)))"
    using advanceCell_ok by blast
  with \<open>cell_ok (rg_def rg) se c\<close> have "cl_observed c' = int (length (se_log se)) - 1"
    by (auto simp: cell_ok_def cursorBefore_def)
  with c' cell_state_full [OF c'(2)] show ?thesis by (simp add: cellFor_def Some)
qed

section \<open>Loops keep the units\<close>

definition units_of :: "('s, 'v) registrations \<Rightarrow> (string \<times> ('s, 'v) unit_def \<times> nat) list" where
  "units_of rs = map (\<lambda>(k, rg). (k, rg_def rg, rg_refs rg)) rs"

fun collect :: "('d \<Rightarrow> 'a list \<times> 'e option) \<Rightarrow> 'd list \<Rightarrow> 'a list \<times> 'e option" where
  "collect g [] = ([], None)"
| "collect g (d # ds) =
     (case g d of (out, Some err) \<Rightarrow> (out, Some err)
      | (out, None) \<Rightarrow> (case collect g ds of (outs, err) \<Rightarrow> (out @ outs, err)))"

lemma each_reg_same:
  assumes "\<forall>(k, rg) \<in> set rs. same_unit sessions rg (fst (f rg))"
  shows "list_all2 (\<lambda>(k, rg) (k', rg'). k' = k \<and> same_unit sessions rg rg') rs (fst (each_reg f rs))"
  using assms
proof (induction rs)
  case (Cons a rs)
  obtain k rg where a: "a = (k, rg)" by fastforce
  obtain rg' out err where f: "f rg = (rg', out, err)" by (cases "f rg") auto
  obtain rs' outs err' where e: "each_reg f rs = (rs', outs, err')" by (cases "each_reg f rs") auto
  have refl: "list_all2 (\<lambda>(k, rg) (k', rg'). k' = k \<and> same_unit sessions rg rg') rs rs"
    by (auto simp: list_all2_conv_all_nth)
  from Cons f e a refl show ?case by (cases err) auto
qed simp

lemma same_units:
  assumes "list_all2 (\<lambda>(k, rg) (k', rg'). k' = k \<and> same_unit sessions rg rg') rs rs'"
  shows "units_of rs' = units_of rs"
    "registry_ok sessions (reg\<lparr>pr_regs := rs\<rparr>) \<Longrightarrow> registry_ok sessions (reg\<lparr>pr_regs := rs'\<rparr>)"
proof -
  show u: "units_of rs' = units_of rs"
    using assms by (induction rule: list_all2_induct) (auto simp: units_of_def same_unit_def)
  have "map fst rs' = map fst (units_of rs')" "map fst rs = map fst (units_of rs)"
    by (auto simp: units_of_def)
  with u have "map fst rs' = map fst rs" by simp
  moreover have "\<forall>(k, rg) \<in> set rs'. ud_key (rg_def rg) = k \<and> reg_ok sessions rg"
    if "\<forall>(k, rg) \<in> set rs. ud_key (rg_def rg) = k \<and> reg_ok sessions rg"
    using assms that by (induction rule: list_all2_induct) (auto simp: same_unit_def)
  ultimately show "registry_ok sessions (reg\<lparr>pr_regs := rs\<rparr>) \<Longrightarrow> registry_ok sessions (reg\<lparr>pr_regs := rs'\<rparr>)"
    by (simp add: registry_ok_def)
qed

lemma each_reg_collect:
  assumes "\<forall>(k, rg) \<in> set rs. snd (f rg) = g (rg_def rg)"
  shows "snd (each_reg f rs) = collect g (map (rg_def \<circ> snd) rs)"
  using assms
proof (induction rs)
  case (Cons a rs)
  obtain k rg where a: "a = (k, rg)" by fastforce
  obtain rg' out err where f: "f rg = (rg', out, err)" by (cases "f rg") auto
  obtain rs' outs err' where e: "each_reg f rs = (rs', outs, err')" by (cases "each_reg f rs") auto
  from Cons.prems a f have "g (rg_def rg) = (out, err)" by auto
  with Cons f e a show ?case by (cases err) (auto split: prod.splits)
qed simp

lemma collect_quiet: "\<forall>d \<in> set ds. g d = (h d, None) \<Longrightarrow> collect g ds = (concat (map h ds), None)"
  by (induction ds) auto


lemma each_reg_related:
  assumes "registry_ok sessions reg"
    and "\<And>k rg. (k, rg) \<in> set (pr_regs reg) \<Longrightarrow> reg_ok sessions rg \<Longrightarrow> same_unit sessions rg (fst (f rg))"
    and "each_reg f (pr_regs reg) = (rs', out)"
  shows "registry_ok sessions (reg\<lparr>pr_regs := rs'\<rparr>)" "units_of rs' = units_of (pr_regs reg)"
proof -
  have "\<forall>(k, rg) \<in> set (pr_regs reg). same_unit sessions rg (fst (f rg))"
    using assms(1,2) by (fastforce simp: registry_ok_def)
  from same_units [OF each_reg_same [OF this]] assms(1,3)
  show "registry_ok sessions (reg\<lparr>pr_regs := rs'\<rparr>)" "units_of rs' = units_of (pr_regs reg)"
    by (auto dest: spec [of _ reg])
qed

lemma units_defs: "map (rg_def \<circ> snd) rs = map (fst \<circ> snd) (units_of rs)"
  by (auto simp: units_of_def)

lemma each_reg_answers:
  assumes "registry_ok sessions reg"
    and "\<And>k rg. (k, rg) \<in> set (pr_regs reg) \<Longrightarrow> reg_ok sessions rg \<Longrightarrow> snd (f rg) = g (rg_def rg)"
    and "each_reg f (pr_regs reg) = (rs', out)"
  shows "out = collect g (map (fst \<circ> snd) (units_of (pr_regs reg)))"
proof -
  have "\<forall>(k, rg) \<in> set (pr_regs reg). snd (f rg) = g (rg_def rg)"
    using assms(1,2) by (fastforce simp: registry_ok_def)
  from each_reg_collect [OF this] assms(3) show ?thesis by (simp add: units_defs)
qed

section \<open>The registry as a function of the logs\<close>

definition spec_view :: "session \<Rightarrow> string list option \<Rightarrow> ('s, 'v) unit_def \<Rightarrow> (string \<times> 'v) list \<times> projection_error option" where
  "spec_view se keys d =
     (case ud_wire d of
        None \<Rightarrow> ([], None)
      | Some w \<Rightarrow>
          if \<not> wanted keys (ud_key d) then ([], None)
          else (case wv_parse w (wv_view w (full_state d se)) of
                  None \<Rightarrow> ([], Some (ViewRefused (ud_key d)))
                | Some v \<Rightarrow> ([(ud_key d, v)], None)))"

definition spec_row :: "session \<Rightarrow> ('s, 'v) unit_def \<Rightarrow> string \<times> 's row" where
  "spec_row se d =
     (ud_key d, \<lparr>rw_ver = ud_version d, rw_seq = int (length (se_log se)) - 1, rw_val = full_state d se\<rparr>)"

lemma materialize_ok:
  assumes "sessions_ok sessions" "sessions h = Some se" "reg_ok sessions rg"
  shows "same_unit sessions rg (fst (materialize_one h se rg))" "snd (materialize_one h se rg) = ([], None)"
  using cellFor_ok [OF assms] set_cell_same [of sessions h se, OF assms(2)] by (auto simp: materialize_one_def)

lemma snapshot_one_ok:
  assumes "sessions_ok sessions" "sessions h = Some se" "reg_ok sessions rg"
  shows "same_unit sessions rg (fst (snapshot_one h se keys rg))"
    "snd (snapshot_one h se keys rg) = spec_view se keys (rg_def rg)"
  using cellFor_ok [OF assms] set_cell_same [of sessions h se, OF assms(2)]
  by (auto simp: snapshot_one_def spec_view_def viewCell_def split: option.splits)

lemma checkpoint_one_ok:
  assumes "sessions_ok sessions" "sessions h = Some se" "reg_ok sessions rg"
  shows "same_unit sessions rg (fst (checkpoint_one h se rg))"
    "snd (checkpoint_one h se rg) = ([spec_row se (rg_def rg)], None)"
  using cellFor_ok [OF assms] set_cell_same [of sessions h se, OF assms(2)]
  by (auto simp: checkpoint_one_def spec_row_def)

lemma drive_cell_ok:
  assumes "contiguous (se_log se)" "cell_ok d se c" "i < length (se_log se)" "cl_observed c = int i - 1"
  shows "cell_ok d se (fst (drive_cell h ls (se_log se ! i) d c))"
proof -
  have "ev_seq (se_log se ! i) = i" using assms by (simp add: contiguous_def)
  moreover have "unit_state d se (Suc i) = ud_apply d (cl_state c) (se_log se ! i)"
    using assms by (simp add: unit_state_Suc cell_ok_def)
  ultimately show ?thesis
    using assms by (auto simp: drive_cell_def cell_ok_def Let_def nat_add_distrib split: option.splits)
qed

lemma drive_one_ok:
  assumes "sessions_ok sessions" "sessions h = Some se" "reg_ok sessions rg" "i < length (se_log se)"
  shows "same_unit sessions rg (fst (drive_one h se ls (se_log se ! i) rg))"
proof -
  have c: "contiguous (se_log se)" using assms by (simp add: sessions_ok_def)
  have sq: "ev_seq (se_log se ! i) = i" using c assms by (simp add: contiguous_def)
  note same = set_cell_same [of sessions h se, OF assms(2)]
  have go: "same_unit sessions rg (set_cell h (fst (drive_cell h ls (se_log se ! i) (rg_def rg) b)) rg)"
    if "cell_ok (rg_def rg) se b" "cl_observed b = int i - 1" for b
    by (rule same) (rule drive_cell_ok [OF c that(1) assms(4) that(2)])
  show ?thesis
  proof (cases "rg_cells rg h")
    case None
    from buildCell_ok [OF c, of i rg] assms(4) go [of "fresh_cell rg se (take i (se_log se))"] show ?thesis
      by (auto simp: drive_one_def None Let_def sq slice_def split: prod.splits)
  next
    case (Some b)
    have b: "cell_ok (rg_def rg) se b" using assms Some by (blast intro: reg_ok_cell)
    show ?thesis
    proof (cases "int i \<le> cl_observed b")
      case True
      then show ?thesis by (simp add: drive_one_def Some sq Let_def)
    next
      case False
      have "(if i = 0 then - 1 else int (i - 1)) = int i - 1" by auto
      with advanceCell_ok [OF c b, of "int i - 1"] assms(4) False obtain b' where
        b': "advanceCell (rg_def rg) b se (if i = 0 then - 1 else int (i - 1)) = (b', None)"
        "cell_ok (rg_def rg) se b'" "cl_observed b' = int i - 1" by (auto simp: max_def)
      with go [OF b'(2,3)] False show ?thesis
        by (auto simp: drive_one_def Some sq Let_def split: prod.splits)
    qed
  qed
qed


section \<open>A world of sessions and one registry\<close>

datatype ('s, 'v) registry_call =
    Register "('s, 'v) unit_def"
  | Release string
  | Listen nat
  | Unlisten nat
  | OpenSession nat bool string "session_event list option" "json option" "nat option" int
  | AppendTo nat bool "session_event \<Rightarrow> bool" int event_data "json option" "json option"
  | Announced nat
  | Dispatched nat nat
  | ReadState nat string
  | ReadSnapshot nat "string list option"
  | ReadCheckpoint nat

datatype ('s, 'v) registry_answer =
    Silent
  | Thrown projection_error
  | StateAnswer "'s option"
  | CutAnswer "'v snapshot_cut"
  | RowsAnswer "'s row_table"

definition opened ::
  "nat \<Rightarrow> bool \<Rightarrow> string \<Rightarrow> session_event list option \<Rightarrow> json option \<Rightarrow> nat option \<Rightarrow> int \<Rightarrow>
   (nat \<Rightarrow> session option) \<Rightarrow> (nat \<Rightarrow> session option)" where
  "opened h restored sid seed header inherited now sessions =
     (case sessions h of
        Some _ \<Rightarrow> sessions
      | None \<Rightarrow>
          (case construct restored sid seed header inherited now of
             Inl _ \<Rightarrow> sessions
           | Inr se \<Rightarrow> sessions(h \<mapsto> se)))"

definition appended_to ::
  "nat \<Rightarrow> bool \<Rightarrow> (session_event \<Rightarrow> bool) \<Rightarrow> int \<Rightarrow> event_data \<Rightarrow> json option \<Rightarrow> json option \<Rightarrow>
   (nat \<Rightarrow> session option) \<Rightarrow> (nat \<Rightarrow> session option)" where
  "appended_to h appending accepts now d srcs op sessions =
     (case sessions h of
        None \<Rightarrow> sessions
      | Some se \<Rightarrow> sessions(h \<mapsto> fst (append_event appending accepts now d srcs op se)))"

definition thrown :: "projection_error option \<Rightarrow> ('s, 'v) registry_answer" where
  "thrown err = (case err of None \<Rightarrow> Silent | Some e \<Rightarrow> Thrown e)"

definition answer :: "('a \<Rightarrow> ('s, 'v) registry_answer) \<Rightarrow> projection_error + 'a \<Rightarrow> ('s, 'v) registry_answer" where
  "answer f r = (case r of Inl e \<Rightarrow> Thrown e | Inr x \<Rightarrow> f x)"

type_synonym ('s, 'v) registry_world = "('s, 'v) registry \<times> (nat \<Rightarrow> session option)"

text \<open>
  The listeners of the session store run between an append and its dispatch too, so an event may
  reach the registry late, out of order, or after a read has already folded it.
\<close>

fun registry_serve ::
  "('s, 'v) registry_world \<Rightarrow> ('s, 'v) registry_call \<Rightarrow> ('s, 'v) registry_world \<times> ('s, 'v) registry_answer" where
  "registry_serve (reg, ses) (Register d) = (case register d reg of (reg', err) \<Rightarrow> ((reg', ses), thrown err))"
| "registry_serve (reg, ses) (Release k) = ((release k reg, ses), Silent)"
| "registry_serve (reg, ses) (Listen l) = ((onChanged l reg, ses), Silent)"
| "registry_serve (reg, ses) (Unlisten l) = ((unsubscribe l reg, ses), Silent)"
| "registry_serve (reg, ses) (OpenSession h restored sid seed header inherited now) =
     ((reg, opened h restored sid seed header inherited now ses), Silent)"
| "registry_serve (reg, ses) (AppendTo h appending accepts now d srcs op) =
     ((reg, appended_to h appending accepts now d srcs op ses), Silent)"
| "registry_serve (reg, ses) (Announced h) =
     (case ses h of None \<Rightarrow> ((reg, ses), Silent) | Some se \<Rightarrow> ((session_created h se reg, ses), Silent))"
| "registry_serve (reg, ses) (Dispatched h i) =
     (case ses h of
        None \<Rightarrow> ((reg, ses), Silent)
      | Some se \<Rightarrow>
          if i < length (se_log se) then ((fst (drive h se (se_log se ! i) reg), ses), Silent)
          else ((reg, ses), Silent))"
| "registry_serve (reg, ses) (ReadState h k) =
     (case ses h of
        None \<Rightarrow> ((reg, ses), Silent)
      | Some se \<Rightarrow> (case stateOf h se k reg of (reg', r) \<Rightarrow> ((reg', ses), answer StateAnswer r)))"
| "registry_serve (reg, ses) (ReadSnapshot h keys) =
     (case ses h of
        None \<Rightarrow> ((reg, ses), Silent)
      | Some se \<Rightarrow> (case snapshot h se keys reg of (reg', r) \<Rightarrow> ((reg', ses), answer CutAnswer r)))"
| "registry_serve (reg, ses) (ReadCheckpoint h) =
     (case ses h of
        None \<Rightarrow> ((reg, ses), Silent)
      | Some se \<Rightarrow> (case checkpoint h se reg of (reg', r) \<Rightarrow> ((reg', ses), answer RowsAnswer r)))"

text \<open>The specification: the registered units with their counts, and no cells.\<close>

type_synonym ('s, 'v) units = "(string \<times> ('s, 'v) unit_def \<times> nat) list"
type_synonym ('s, 'v) units_world = "('s, 'v) units \<times> (nat \<Rightarrow> session option)"

definition spec_register :: "('s, 'v) unit_def \<Rightarrow> ('s, 'v) units \<Rightarrow> ('s, 'v) units \<times> projection_error option" where
  "spec_register d us =
     (if \<not> isSafeInteger (ud_version d) \<or> num_int (ud_version d) < 0 then (us, Some (BadStateVersion (ud_key d)))
      else (case map_of us (ud_key d) of
              None \<Rightarrow> (map_set (ud_key d) (d, 1) us, None)
            | Some (old, n) \<Rightarrow>
                if num_eq (ud_version old) (ud_version d) then (map_set (ud_key d) (old, n + 1) us, None)
                else (us, Some (SharedVersion (ud_key d)))))"

definition spec_release :: "string \<Rightarrow> ('s, 'v) units \<Rightarrow> ('s, 'v) units" where
  "spec_release k us =
     (case map_of us k of
        None \<Rightarrow> us
      | Some (d, n) \<Rightarrow> if n \<le> 1 then map_delete k us else map_set k (d, n - 1) us)"

definition spec_snapshot :: "session \<Rightarrow> string list option \<Rightarrow> ('s, 'v) unit_def list \<Rightarrow> projection_error + 'v snapshot_cut" where
  "spec_snapshot se keys ds =
     (case collect (spec_view se keys) ds of
        (_, Some err) \<Rightarrow> Inl err
      | (values, None) \<Rightarrow> Inr \<lparr>sc_asOf = int (length (se_log se)) - 1, sc_values = values\<rparr>)"

fun spec_serve ::
  "('s, 'v) units_world \<Rightarrow> ('s, 'v) registry_call \<Rightarrow> ('s, 'v) units_world \<times> ('s, 'v) registry_answer" where
  "spec_serve (us, ses) (Register d) = (case spec_register d us of (us', err) \<Rightarrow> ((us', ses), thrown err))"
| "spec_serve (us, ses) (Release k) = ((spec_release k us, ses), Silent)"
| "spec_serve (us, ses) (OpenSession h restored sid seed header inherited now) =
     ((us, opened h restored sid seed header inherited now ses), Silent)"
| "spec_serve (us, ses) (AppendTo h appending accepts now d srcs op) =
     ((us, appended_to h appending accepts now d srcs op ses), Silent)"
| "spec_serve (us, ses) (ReadState h k) =
     ((us, ses),
      case ses h of None \<Rightarrow> Silent
      | Some se \<Rightarrow> StateAnswer (map_option (\<lambda>(d, _). full_state d se) (map_of us k)))"
| "spec_serve (us, ses) (ReadSnapshot h keys) =
     ((us, ses),
      case ses h of None \<Rightarrow> Silent
      | Some se \<Rightarrow> answer CutAnswer (spec_snapshot se keys (map (fst \<circ> snd) us)))"
| "spec_serve (us, ses) (ReadCheckpoint h) =
     ((us, ses),
      case ses h of None \<Rightarrow> Silent
      | Some se \<Rightarrow> RowsAnswer (map (spec_row se) (map (fst \<circ> snd) us)))"
| "spec_serve (us, ses) _ = ((us, ses), Silent)"

definition world_rel :: "('s, 'v) registry_world \<Rightarrow> ('s, 'v) units_world \<Rightarrow> bool" where
  "world_rel w u \<longleftrightarrow>
     snd w = snd u \<and> sessions_ok (snd w) \<and> registry_ok (snd w) (fst w) \<and> fst u = units_of (pr_regs (fst w))"

lemma map_of_units:
  "map_of (units_of rs) k = map_option (\<lambda>rg. (rg_def rg, rg_refs rg)) (map_of rs k)"
  by (induction rs) (auto simp: units_of_def)

lemma units_map_set:
  "units_of (map_set k rg rs) = map_set k (rg_def rg, rg_refs rg) (units_of rs)"
  by (induction rs) (auto simp: units_of_def)

lemma units_map_delete: "units_of (map_delete k rs) = map_delete k (units_of rs)"
  by (induction rs) (auto simp: units_of_def AList.delete_eq)

lemma reg_ok_refs [simp]: "reg_ok ses (rg\<lparr>rg_refs := n\<rparr>) = reg_ok ses rg"
  by (simp add: reg_ok_def)

lemma map_set_in:
  "(j, v) \<in> set (map_set k x rs) \<Longrightarrow> j = k \<and> v = x \<or> (j, v) \<in> set rs"
  by (induction rs) (auto split: if_splits)

lemma registry_set:
  assumes "registry_ok ses reg" "ud_key (rg_def rg) = k" "reg_ok ses rg"
  shows "registry_ok ses (reg\<lparr>pr_regs := map_set k rg (pr_regs reg)\<rparr>)"
  using assms by (fastforce simp: registry_ok_def distinct_update dest!: map_set_in)

lemma registry_lookup:
  "registry_ok ses reg \<Longrightarrow> map_of (pr_regs reg) k = Some rg \<Longrightarrow> ud_key (rg_def rg) = k \<and> reg_ok ses rg"
  by (fastforce simp: registry_ok_def dest!: map_of_SomeD)

lemma registry_refs:
  assumes "registry_ok ses reg" "map_of (pr_regs reg) k = Some rg"
  shows "registry_ok ses (reg\<lparr>pr_regs := map_set k (rg\<lparr>rg_refs := n\<rparr>) (pr_regs reg)\<rparr>)"
  using registry_lookup [OF assms] by (intro registry_set [OF assms(1)]) auto

lemma register_rel:
  assumes "registry_ok ses reg" "register d reg = (reg', err)"
  shows "registry_ok ses reg'" "spec_register d (units_of (pr_regs reg)) = (units_of (pr_regs reg'), err)"
proof -
  have new: "reg_ok ses \<lparr>rg_def = d, rg_cells = (\<lambda>_. None), rg_refs = 1\<rparr>" by (simp add: reg_ok_def)
  show "registry_ok ses reg'"
    using assms registry_set [OF assms(1) _ new] registry_refs [OF assms(1)]
    by (auto simp: register_def split: if_splits option.splits)
  show "spec_register d (units_of (pr_regs reg)) = (units_of (pr_regs reg'), err)"
    using assms(2)
    by (auto simp: register_def spec_register_def map_of_units units_map_set split: if_splits option.splits)
qed

lemma release_rel:
  assumes "registry_ok ses reg"
  shows "registry_ok ses (release k reg)" "units_of (pr_regs (release k reg)) = spec_release k (units_of (pr_regs reg))"
proof -
  have "registry_ok ses (reg\<lparr>pr_regs := map_delete k (pr_regs reg)\<rparr>)"
    using assms by (auto simp: registry_ok_def distinct_map_delete in_map_delete)
  then show "registry_ok ses (release k reg)"
    using assms registry_refs [OF assms]
    by (auto simp: release_def split: option.splits)
  show "units_of (pr_regs (release k reg)) = spec_release k (units_of (pr_regs reg))"
    by (auto simp: release_def spec_release_def map_of_units units_map_set units_map_delete split: option.splits)
qed


section \<open>The registry refines its specification\<close>

lemma sessions_step:
  assumes "sessions_ok ses"
  shows "sessions_ok (opened h restored sid seed header inherited now ses)"
    "sessions_ok (appended_to h appending accepts now d srcs op ses)"
proof -
  show "sessions_ok (opened h restored sid seed header inherited now ses)"
    using assms construct_contiguous by (auto simp: sessions_ok_def opened_def split: option.splits sum.splits)
  have "contiguous (se_log (fst (append_event appending accepts now d srcs op se)))" if "contiguous (se_log se)" for se
  proof -
    obtain se' r where a: "append_event appending accepts now d srcs op se = (se', r)" by fastforce
    from append_log [OF a] that show ?thesis by (cases r) (auto simp: a candidate_def)
  qed
  then show "sessions_ok (appended_to h appending accepts now d srcs op ses)"
    using assms by (auto simp: sessions_ok_def appended_to_def split: option.splits)
qed

text \<open>A cell stays the fold of its prefix while the log grows.\<close>

lemma cell_ok_grows:
  assumes "cell_ok d se c" "se_log se' = se_log se @ es" "se_header se' = se_header se"
    "se_inheritedEventCount se' = se_inheritedEventCount se"
  shows "cell_ok d se' c"
  using assms by (auto simp: cell_ok_def unit_state_def)

lemma reg_ok_sessions:
  assumes "reg_ok ses rg"
  shows "reg_ok (opened h restored sid seed header inherited now ses) rg"
    "reg_ok (appended_to h appending accepts now d srcs op ses) rg"
proof -
  show "reg_ok (opened h restored sid seed header inherited now ses) rg"
    using assms by (fastforce simp: reg_ok_def opened_def split: option.splits sum.splits)
  have grow: "cell_ok (rg_def rg) (fst (append_event appending accepts now d srcs op se)) c"
    if "cell_ok (rg_def rg) se c" for se c
  proof -
    obtain se' r where a: "append_event appending accepts now d srcs op se = (se', r)" by fastforce
    from append_log [OF a] have "\<exists>es. se_log se' = se_log se @ es" by (cases r) auto
    with cell_ok_grows [OF that _ append_keeps_identity [OF a]] a show ?thesis by auto
  qed
  show "reg_ok (appended_to h appending accepts now d srcs op ses) rg"
    using assms grow by (fastforce simp: reg_ok_def appended_to_def split: option.splits)
qed

lemma registry_ok_sessions:
  assumes "registry_ok ses reg" "\<And>rg :: ('s, 'v) registration. reg_ok ses rg \<Longrightarrow> reg_ok ses' rg"
  shows "registry_ok ses' (reg :: ('s, 'v) registry)"
  using assms by (fastforce simp: registry_ok_def)

lemma session_created_rel:
  assumes "sessions_ok ses" "registry_ok ses reg" "ses h = Some se"
  shows "registry_ok ses (session_created h se reg)"
    "units_of (pr_regs (session_created h se reg)) = units_of (pr_regs reg)"
proof -
  have one: "same_unit ses rg (created_one h se rg)" if "se_log se = []" for rg :: "('a, 'b) registration"
    using that
    by (auto simp: created_one_def cell_ok_def unit_state_def intro!: set_cell_same [of ses h se, OF assms(3)])
  show "registry_ok ses (session_created h se reg)"
    using assms(2) one by (fastforce simp: session_created_def registry_ok_def same_unit_def comp_def case_prod_beta)
  show "units_of (pr_regs (session_created h se reg)) = units_of (pr_regs reg)"
    using one by (auto simp: session_created_def units_of_def same_unit_def)
qed

lemma drive_rel:
  assumes "sessions_ok ses" "registry_ok ses reg" "ses h = Some se" "i < length (se_log se)"
  shows "registry_ok ses (fst (drive h se (se_log se ! i) reg))"
    "units_of (pr_regs (fst (drive h se (se_log se ! i) reg))) = units_of (pr_regs reg)"
proof -
  obtain rs out where e: "each_reg (drive_one h se (pr_listeners reg) (se_log se ! i)) (pr_regs reg) = (rs, out)"
    by (rule prod.exhaust)
  from each_reg_related [OF assms(2) _ e, OF drive_one_ok [OF assms(1,3) _ assms(4)]]
  show "registry_ok ses (fst (drive h se (se_log se ! i) reg))"
    "units_of (pr_regs (fst (drive h se (se_log se ! i) reg))) = units_of (pr_regs reg)"
    by (auto simp: drive_def e split: prod.splits)
qed

lemma collect_singles: "collect (\<lambda>d. ([f d], None)) ds = (map f ds, None)"
  by (induction ds) auto

lemma collect_silent: "collect (\<lambda>_. ([], None)) ds = ([], None)"
  by (induction ds) auto

lemma materialize_all:
  assumes "sessions_ok ses" "registry_ok ses reg" "ses h = Some se"
  obtains rs where "each_reg (materialize_one h se) (pr_regs reg) = (rs, [], None)"
    "registry_ok ses (reg\<lparr>pr_regs := rs\<rparr>)" "units_of rs = units_of (pr_regs reg)"
proof -
  obtain rs out where e: "each_reg (materialize_one h se) (pr_regs reg) = (rs, out)" by (rule prod.exhaust)
  have "out = collect (\<lambda>_. ([], None)) (map (fst \<circ> snd) (units_of (pr_regs reg)))"
    by (rule each_reg_answers [OF assms(2) _ e]) (rule materialize_ok(2) [OF assms(1,3)])
  then have "out = ([], None)" by (simp only: collect_silent)
  with each_reg_related [OF assms(2) materialize_ok(1) [OF assms(1,3)] e] e that show thesis by blast
qed

lemma stateOf_rel:
  assumes "sessions_ok ses" "registry_ok ses reg" "ses h = Some se" "stateOf h se k reg = (reg', r)"
  shows "registry_ok ses reg'" "units_of (pr_regs reg') = units_of (pr_regs reg)"
    "r = Inr (map_option (\<lambda>(d, _). full_state d se) (map_of (units_of (pr_regs reg)) k))"
proof -
  obtain rs where rs: "each_reg (materialize_one h se) (pr_regs reg) = (rs, [], None)"
    "registry_ok ses (reg\<lparr>pr_regs := rs\<rparr>)" "units_of rs = units_of (pr_regs reg)"
    using materialize_all [OF assms(1-3)] by blast
  have "registry_ok ses reg' \<and> units_of (pr_regs reg') = units_of (pr_regs reg)
    \<and> r = Inr (map_option (\<lambda>(d, _). full_state d se) (map_of (units_of (pr_regs reg)) k))"
  proof (cases "map_of (pr_regs reg) k")
    case None
    with assms show ?thesis by (auto simp: stateOf_def map_of_units)
  next
    case (Some rg0)
    have "map_of (units_of rs) k \<noteq> None" using rs(3) Some by (simp add: map_of_units)
    then obtain rg where rg: "map_of rs k = Some rg" by (auto simp: map_of_units)
    from registry_lookup [OF rs(2)] rg have ok: "ud_key (rg_def rg) = k" "reg_ok ses rg" by auto
    from cellFor_ok [OF assms(1,3) ok(2)] obtain c where c: "cellFor h se rg = (set_cell h c rg, c, None)"
      "cell_ok (rg_def rg) se c" "cl_state c = full_state (rg_def rg) se" by blast
    have "same_unit ses rg (set_cell h c rg)" by (rule set_cell_same [of ses h se, OF assms(3) c(2)])
    with ok have "reg_ok ses (set_cell h c rg)" by (simp add: same_unit_def)
    from registry_set [OF rs(2), of "set_cell h c rg" k] this ok(1)
    have "registry_ok ses (reg\<lparr>pr_regs := map_set k (set_cell h c rg) rs\<rparr>)" by simp
    moreover have "map_set k (rg_def rg, rg_refs rg) (units_of rs) = units_of rs"
      by (rule update_triv) (simp add: map_of_units rg)
    moreover have "reg' = reg\<lparr>pr_regs := map_set k (set_cell h c rg) rs\<rparr>" "r = Inr (Some (cl_state c))"
      using assms(4) rs(1) Some rg c(1) by (simp_all add: stateOf_def)
    moreover have "map_of (units_of (pr_regs reg)) k = Some (rg_def rg, rg_refs rg)"
      by (simp only: rs(3) [symmetric]) (simp add: map_of_units rg)
    ultimately show ?thesis using rs(3) c(3) by (simp add: units_map_set)
  qed
  then show "registry_ok ses reg'" "units_of (pr_regs reg') = units_of (pr_regs reg)"
    "r = Inr (map_option (\<lambda>(d, _). full_state d se) (map_of (units_of (pr_regs reg)) k))"
    by auto
qed

lemma snapshot_rel:
  assumes "sessions_ok ses" "registry_ok ses reg" "ses h = Some se" "snapshot h se keys reg = (reg', r)"
  shows "registry_ok ses reg'" "units_of (pr_regs reg') = units_of (pr_regs reg)"
    "r = spec_snapshot se keys (map (fst \<circ> snd) (units_of (pr_regs reg)))"
proof -
  obtain rs where rs: "each_reg (materialize_one h se) (pr_regs reg) = (rs, [], None)"
    "registry_ok ses (reg\<lparr>pr_regs := rs\<rparr>)" "units_of rs = units_of (pr_regs reg)"
    using materialize_all [OF assms(1-3)] by blast
  let ?reg = "reg\<lparr>pr_regs := rs\<rparr>"
  obtain rs' vs err where e: "each_reg (snapshot_one h se keys) (pr_regs ?reg) = (rs', vs, err)"
    by (cases "each_reg (snapshot_one h se keys) (pr_regs ?reg)") auto
  note a = each_reg_related [OF rs(2) snapshot_one_ok(1) [OF assms(1,3)] e]
  have b: "collect (spec_view se keys) (map (fst \<circ> snd) (units_of (pr_regs reg))) = (vs, err)"
    using each_reg_answers [OF rs(2) snapshot_one_ok(2) [OF assms(1,3)] e] rs(3) by simp
  from a b assms(4) rs e show "registry_ok ses reg'" "units_of (pr_regs reg') = units_of (pr_regs reg)"
    "r = spec_snapshot se keys (map (fst \<circ> snd) (units_of (pr_regs reg)))"
    by (auto simp: snapshot_def spec_snapshot_def cursorBefore_def split: option.splits)
qed

lemma checkpoint_rel:
  assumes "sessions_ok ses" "registry_ok ses reg" "ses h = Some se" "checkpoint h se reg = (reg', r)"
  shows "registry_ok ses reg'" "units_of (pr_regs reg') = units_of (pr_regs reg)"
    "r = Inr (map (spec_row se) (map (fst \<circ> snd) (units_of (pr_regs reg))))"
proof -
  obtain rs rows err where e: "each_reg (checkpoint_one h se) (pr_regs reg) = (rs, rows, err)"
    by (cases "each_reg (checkpoint_one h se) (pr_regs reg)") auto
  note a = each_reg_related [OF assms(2) checkpoint_one_ok(1) [OF assms(1,3)] e]
  have "(rows, err) = (map (spec_row se) (map (fst \<circ> snd) (units_of (pr_regs reg))), None)"
    using each_reg_answers [OF assms(2) checkpoint_one_ok(2) [OF assms(1,3)] e] by (simp only: collect_singles)
  with a assms(4) e show "registry_ok ses reg'" "units_of (pr_regs reg') = units_of (pr_regs reg)"
    "r = Inr (map (spec_row se) (map (fst \<circ> snd) (units_of (pr_regs reg))))"
    by (auto simp: checkpoint_def)
qed

lemma registry_serve_related:
  assumes "world_rel w u"
  shows "snd (registry_serve w c) = snd (spec_serve u c) \<and> world_rel (fst (registry_serve w c)) (fst (spec_serve u c))"
proof -
  obtain reg ses where w: "w = (reg, ses)" by fastforce
  from assms w have u: "u = (units_of (pr_regs reg), ses)" and s: "sessions_ok ses" and r: "registry_ok ses reg"
    by (auto simp: world_rel_def prod_eq_iff)
  note rels = world_rel_def s r sessions_step [OF s]
  show ?thesis
  proof (cases c)
    case (Register d)
    with register_rel [OF r, of d] s show ?thesis
      by (auto simp: w u rels split: prod.splits)
  next
    case (Release k)
    with release_rel [OF r, of k] show ?thesis by (simp add: w u rels)
  next
    case (Listen l)
    then show ?thesis using r by (simp add: w u rels onChanged_def registry_ok_def)
  next
    case (Unlisten l)
    then show ?thesis using r by (simp add: w u rels unsubscribe_def registry_ok_def)
  next
    case (OpenSession h restored sid seed header inherited now)
    with registry_ok_sessions [OF r reg_ok_sessions(1)] show ?thesis by (simp add: w u rels)
  next
    case (AppendTo h appending accepts now d srcs op)
    with registry_ok_sessions [OF r reg_ok_sessions(2)] show ?thesis by (simp add: w u rels)
  next
    case (Announced h)
    with session_created_rel [OF s r, of h] show ?thesis by (cases "ses h") (simp_all add: w u rels)
  next
    case (Dispatched h i)
    with drive_rel [OF s r, of h _ i] show ?thesis by (cases "ses h") (simp_all add: w u rels)
  next
    case (ReadState h k)
    show ?thesis
    proof (cases "ses h")
      case None
      then show ?thesis using r by (simp add: w u rels ReadState)
    next
      case (Some se)
      obtain reg' a where e: "stateOf h se k reg = (reg', a)" by (rule prod.exhaust)
      from stateOf_rel [OF s r Some e] show ?thesis by (simp add: w u rels ReadState Some e answer_def)
    qed
  next
    case (ReadSnapshot h keys)
    show ?thesis
    proof (cases "ses h")
      case None
      then show ?thesis using r by (simp add: w u rels ReadSnapshot)
    next
      case (Some se)
      obtain reg' a where e: "snapshot h se keys reg = (reg', a)" by (rule prod.exhaust)
      from snapshot_rel [OF s r Some e] show ?thesis by (simp add: w u rels ReadSnapshot Some e answer_def)
    qed
  next
    case (ReadCheckpoint h)
    show ?thesis
    proof (cases "ses h")
      case None
      then show ?thesis using r by (simp add: w u rels ReadCheckpoint)
    next
      case (Some se)
      obtain reg' a where e: "checkpoint h se reg = (reg', a)" by (rule prod.exhaust)
      from checkpoint_rel [OF s r Some e] show ?thesis by (simp add: w u rels ReadCheckpoint Some e answer_def)
    qed
  qed
qed

interpretation registry_sim: simulation registry_serve spec_serve world_rel
  using registry_serve_related by unfold_locales blast+

text \<open>
  C26: the projection registry answers every sequence of calls as folding the logs from the start
  does: units come and go under reference counts, sessions open empty, seeded or restored, events
  are appended, dispatched to the registry in any order, late or not at all, and states, snapshots
  and checkpoints are read in between. Cells, watermarks and cached views never show.
\<close>

theorem registry_refines_fold:
  "answers_to registry_serve (new_registry, \<lambda>_. None) cs = answers_to spec_serve ([], \<lambda>_. None) cs"
  by (rule registry_sim.same_answers)
    (simp add: world_rel_def new_registry_def sessions_ok_def registry_ok_def units_of_def)

end
