(* ===== verification/Projection_Restore.thy ===== *)
theory Projection_Restore
  imports Projections
begin

text \<open>
  What the projection registry tells its change listeners, and what its cold path restores. The
  locale \<open>projection_unit\<close> is the contract of a unit's schema; on it a unit restored from a row
  and a log tail is the fold of the whole log. The lemmas then follow the loops of
  \<open>restoreFloor\<close>, \<open>restore\<close> and \<open>hydrate\<close> over all units.
\<close>

section \<open>The change feed\<close>

lemma each_reg_quiet:
  assumes "each_reg f rs = (rs', outs, None)"
  shows "outs = concat (map (\<lambda>(k, rg). fst (snd (f rg))) rs)" "\<forall>(k, rg) \<in> set rs. snd (snd (f rg)) = None"
proof -
  have "outs = concat (map (\<lambda>(k, rg). fst (snd (f rg))) rs) \<and> (\<forall>(k, rg) \<in> set rs. snd (snd (f rg)) = None)"
    using assms
    by (induction rs arbitrary: rs' outs) (fastforce split: prod.splits option.splits)+
  then show "outs = concat (map (\<lambda>(k, rg). fst (snd (f rg))) rs)" "\<forall>(k, rg) \<in> set rs. snd (snd (f rg)) = None"
    by blast+
qed

text \<open>What one unit reports for event \<open>i\<close>, between the states before and after it.\<close>

definition reports ::
  "nat \<Rightarrow> nat list \<Rightarrow> nat \<Rightarrow> ('s, 'v) unit_def \<Rightarrow> 's \<Rightarrow> 's \<Rightarrow> 'v change list \<Rightarrow> bool" where
  "reports h ls i d before after out \<longleftrightarrow>
     (\<forall>(l, h', k, v, s) \<in> set out. before \<noteq> after \<and> l \<in> set ls \<and> h' = h \<and> k = ud_key d \<and> s = i
        \<and> (\<exists>w. ud_wire d = Some w \<and> wv_parse w (wv_view w after) = Some v))
     \<and> (\<forall>w. ud_wire d = Some w \<longrightarrow> wv_view w before \<noteq> wv_view w after \<longrightarrow>
          (\<forall>l \<in> set ls. \<exists>v. wv_parse w (wv_view w after) = Some v \<and> (l, h, ud_key d, v, i) \<in> set out))"

lemma drive_cell_reports:
  assumes "contiguous (se_log se)" "cell_ok d se c" "i < length (se_log se)" "cl_observed c = int i - 1"
    and "drive_cell h ls (se_log se ! i) d c = (c', out, None)"
  shows "reports h ls i d (unit_state d se i) (unit_state d se (Suc i)) out"
proof -
  have sq: "ev_seq (se_log se ! i) = i" using assms by (simp add: contiguous_def)
  have st: "cl_state c = unit_state d se i" using assms(2,4) by (simp add: cell_ok_def)
  have ap: "ud_apply d (unit_state d se i) (se_log se ! i) = unit_state d se (Suc i)"
    using assms(3) by (simp add: unit_state_Suc)
  show ?thesis
  proof (cases "ud_wire d")
    case None
    with assms(5) show ?thesis
      by (auto simp: reports_def drive_cell_def Let_def split: if_splits)
  next
    case (Some w)
    from assms(2) Some have "snd (cl_views c) = None \<or> snd (cl_views c) = Some (wv_view w (unit_state d se i))"
      by (auto simp: cell_ok_def st split: option.splits)
    with assms(5) Some show ?thesis
      by (auto simp: reports_def drive_cell_def Let_def sq st ap split: if_splits option.splits)
  qed
qed

lemma drive_one_reports:
  assumes "sessions_ok sessions" "sessions h = Some se" "reg_ok sessions rg" "i < length (se_log se)"
    and "\<forall>c. rg_cells rg h = Some c \<longrightarrow> cl_observed c < int i"
    and "snd (drive_one h se ls (se_log se ! i) rg) = (out, None)"
  shows "reports h ls i (rg_def rg) (unit_state (rg_def rg) se i) (unit_state (rg_def rg) se (Suc i)) out"
proof -
  have c: "contiguous (se_log se)" using assms by (simp add: sessions_ok_def)
  have sq: "ev_seq (se_log se ! i) = i" using c assms by (simp add: contiguous_def)
  show ?thesis
  proof (cases "rg_cells rg h")
    case None
    with buildCell_ok [OF c, of i rg] assms(4,6) drive_cell_reports [OF c, of "rg_def rg" "fresh_cell rg se (take i (se_log se))" i h ls]
    show ?thesis
      by (auto simp: drive_one_def Let_def sq slice_def split: prod.splits)
  next
    case (Some b)
    have b: "cell_ok (rg_def rg) se b" using assms Some by (blast intro: reg_ok_cell)
    have "(if i = 0 then - 1 else int (i - 1)) = int i - 1" by auto
    with advanceCell_ok [OF c b, of "int i - 1"] assms(4,5) Some obtain b' where
      b': "advanceCell (rg_def rg) b se (if i = 0 then - 1 else int (i - 1)) = (b', None)"
      "cell_ok (rg_def rg) se b'" "cl_observed b' = int i - 1" by (auto simp: max_def)
    have "drive_one h se ls (se_log se ! i) rg =
      (case drive_cell h ls (se_log se ! i) (rg_def rg) b' of (c', out, err) \<Rightarrow> (set_cell h c' rg, out, err))"
      using Some b'(1) assms(5) sq by (cases i) (auto simp: drive_one_def Let_def)
    with assms(6) drive_cell_reports [OF c b'(2) assms(4) b'(3), of h ls] show ?thesis
      by (auto split: prod.splits)
  qed
qed

lemma drive_one_skips:
  assumes "contiguous (se_log se)" "i < length (se_log se)" "rg_cells rg h = Some c" "int i \<le> cl_observed c"
  shows "snd (drive_one h se ls (se_log se ! i) rg) = ([], None)"
  using assms by (simp add: drive_one_def Let_def contiguous_def)

section \<open>Restoring from rows\<close>

definition state_at :: "('s, 'v) unit_def \<Rightarrow> json \<Rightarrow> nat \<Rightarrow> session_event list \<Rightarrow> 's" where
  "state_at d header inherited log = foldl (ud_apply d) (ud_init d header inherited) log"

definition view_at :: "('s, 'v) unit_def \<Rightarrow> 's \<Rightarrow> (string \<times> 'v) list \<times> projection_error option" where
  "view_at d s =
     (case ud_wire d of
        None \<Rightarrow> ([], None)
      | Some w \<Rightarrow>
          (case wv_parse w (wv_view w s) of
             None \<Rightarrow> ([], Some (ViewRefused (ud_key d)))
           | Some v \<Rightarrow> ([(ud_key d, v)], None)))"

text \<open>The cut a client should see at the end of a log, and the rows a checkpoint should hold there.\<close>

definition cut_of :: "('s, 'v) unit_def list \<Rightarrow> json \<Rightarrow> nat \<Rightarrow> session_event list \<Rightarrow> projection_error + 'v snapshot_cut" where
  "cut_of ds header inherited log =
     (case collect (\<lambda>d. view_at d (state_at d header inherited log)) ds of
        (_, Some err) \<Rightarrow> Inl err
      | (values, None) \<Rightarrow> Inr \<lparr>sc_asOf = cursorBefore (length log), sc_values = values\<rparr>)"

definition row_of :: "json \<Rightarrow> nat \<Rightarrow> session_event list \<Rightarrow> ('s, 'v) unit_def \<Rightarrow> string \<times> 's row" where
  "row_of header inherited log d =
     (ud_key d, \<lparr>rw_ver = ud_version d, rw_seq = cursorBefore (length log), rw_val = state_at d header inherited log\<rparr>)"

text \<open>A row of a log: the state folded over a prefix, with the cursor of its last event.\<close>

definition row_in :: "('s, 'v) unit_def \<Rightarrow> json \<Rightarrow> nat \<Rightarrow> session_event list \<Rightarrow> 's row \<Rightarrow> bool" where
  "row_in d header inherited log r \<longleftrightarrow>
     - 1 \<le> rw_seq r \<and> rw_seq r < int (length log)
     \<and> rw_val r = state_at d header inherited (take (nat (rw_seq r + 1)) log)"

text \<open>
  The contract of a unit's schema: what it accepts it returns as it is. (The schema may copy and
  may drop unknown fields; the states of a unit have none.)
\<close>

locale projection_unit =
  fixes d :: "('s, 'v) unit_def"
  assumes parse_same: "ud_parse d s = Some s' \<Longrightarrow> s' = s"
begin

lemma replay:
  assumes "contiguous log" "base + a \<le> length log"
  shows "run (replay_step d base (drop base log)) (state_at d header inherited (take (base + a) log)) [a..<length log - base]
    = Inr (state_at d header inherited log)"
  using assms(2)
proof (induction "length log - base - a" arbitrary: a)
  case 0
  then have "length log - base = a" by simp
  with 0 show ?case by simp
next
  case (Suc n)
  then have lt: "base + a < length log" by simp
  with assms(1) have sq: "ev_seq (log ! (base + a)) = base + a" by (simp add: contiguous_def)
  have "ud_apply d (state_at d header inherited (take (base + a) log)) (log ! (base + a))
    = state_at d header inherited (take (base + Suc a) log)"
    using lt by (simp add: state_at_def take_Suc_conv_app_nth)
  with Suc.hyps(1) [of "Suc a"] Suc.hyps(2) lt sq show ?case
    by (simp add: upt_conv_Cons replay_step_def less_diff_conv add.commute)
qed

text \<open>One unit over the tail of a log: a refusal, or the fold of the whole log.\<close>

lemma restore_unit_cases:
  assumes "contiguous log" "base \<le> length log"
    and "\<And>r. map_of ck (ud_key d) = Some r \<Longrightarrow> num_eq (rw_ver r) (ud_version d) \<Longrightarrow>
      rw_seq r < int (length log) \<Longrightarrow> row_in d header inherited log r"
  shows "restore_unit ck (drop base log) base header inherited d =
    (if \<not> usable d (map_of ck (ud_key d)) base (cursorBefore (length log)) \<and> 0 < base then Inl (CannotRestore (ud_key d) base)
     else if usable d (map_of ck (ud_key d)) base (cursorBefore (length log))
       \<and> ud_parse d (rw_val (the (map_of ck (ud_key d)))) = None then Inl (StateRefused (ud_key d))
     else case view_at d (state_at d header inherited log) of
       (_, Some err) \<Rightarrow> Inl err
     | (vs, None) \<Rightarrow> Inr (vs, row_of header inherited log d))"
proof -
  have e: "end_seq base (drop base log) = cursorBefore (length log)"
    using assms(1,2)
    by (auto simp: end_seq_def last_of_def cursorBefore_def last_conv_nth contiguous_def)
  show ?thesis
  proof (cases "usable d (map_of ck (ud_key d)) base (cursorBefore (length log))")
    case False
    then show ?thesis
      using replay [OF assms(1), of 0 0 header inherited]
      by (auto simp: restore_unit_def e Let_def cursorBefore_def view_at_def row_of_def state_at_def split: option.splits)
  next
    case True
    then obtain r where r: "map_of ck (ud_key d) = Some r" "num_eq (rw_ver r) (ud_version d)"
      "int base \<le> rw_seq r + 1" "rw_seq r < int (length log)"
      by (auto simp: usable_def cursorBefore_def split: option.splits)
    with assms(3) have "row_in d header inherited log r" by blast
    then have v: "rw_val r = state_at d header inherited (take (nat (rw_seq r + 1)) log)" by (simp add: row_in_def)
    define a where "a = nat (rw_seq r - int base + 1)"
    have a: "base + a = nat (rw_seq r + 1)" "base + a \<le> length log" using r by (auto simp: a_def)
    have run: "run (replay_step d base (drop base log)) (rw_val r) [a..<length log - base] = Inr (state_at d header inherited log)"
      using replay [OF assms(1) a(2), of header inherited] by (simp add: v a(1))
    show ?thesis
    proof (cases "ud_parse d (rw_val r)")
      case None
      with True r(1) show ?thesis by (auto simp: restore_unit_def e Let_def)
    next
      case (Some s)
      with parse_same have "s = rw_val r" by blast
      with True r(1) Some run show ?thesis
        by (auto simp: restore_unit_def e Let_def a_def view_at_def row_of_def split: option.splits)
    qed
  qed
qed

end


section \<open>Restoring every unit\<close>

definition lawful :: "('s, 'v) unit_def list \<Rightarrow> bool" where
  "lawful ds \<longleftrightarrow> (\<forall>d \<in> set ds. projection_unit d)"

text \<open>The rows of a checkpoint that are current and lie in the log are rows of the log.\<close>

definition rows_of_log :: "('s, 'v) unit_def list \<Rightarrow> json \<Rightarrow> nat \<Rightarrow> session_event list \<Rightarrow> 's row_table \<Rightarrow> bool" where
  "rows_of_log ds header inherited log ck \<longleftrightarrow>
     (\<forall>d \<in> set ds. \<forall>r. map_of ck (ud_key d) = Some r \<longrightarrow> num_eq (rw_ver r) (ud_version d) \<longrightarrow>
        rw_seq r < int (length log) \<longrightarrow> row_in d header inherited log r)"

definition row_beyond :: "'s row_table \<Rightarrow> session_event list \<Rightarrow> ('s, 'v) unit_def \<Rightarrow> bool" where
  "row_beyond ck log d \<longleftrightarrow> (\<exists>r. map_of ck (ud_key d) = Some r \<and> int (length log) \<le> rw_seq r)"

definition row_refused :: "'s row_table \<Rightarrow> ('s, 'v) unit_def \<Rightarrow> bool" where
  "row_refused ck d \<longleftrightarrow>
     (\<exists>r. map_of ck (ud_key d) = Some r \<and> num_eq (rw_ver r) (ud_version d) \<and> ud_parse d (rw_val r) = None)"

lemma floor_fold:
  "foldl (floor_step ck) acc ds = Some f \<Longrightarrow>
   (\<forall>d \<in> set ds. f \<le> floor_need ck d) \<and> (\<forall>a. acc = Some a \<longrightarrow> f \<le> a)"
proof (induction ds arbitrary: acc)
  case (Cons d ds)
  from Cons.IH [of "floor_step ck acc d"] Cons.prems show ?case
    by (cases acc) (auto simp: floor_step_def)
qed simp

lemma restoreFloor_below:
  assumes "restoreFloor ck reg = Some base" "d \<in> set (defs_of reg)" "0 < base"
  shows "\<exists>r. map_of ck (ud_key d) = Some r \<and> num_eq (rw_ver r) (ud_version d) \<and> int base \<le> rw_seq r"
proof -
  from assms(1) obtain f where f: "foldl (floor_step ck) None (defs_of reg) = Some f" "base = nat (max (f - 1) 0)"
    by (auto simp: restoreFloor_def)
  from floor_fold [OF f(1)] assms(2) have "f \<le> floor_need ck d" by blast
  with f(2) assms(3) have "int base + 1 \<le> floor_need ck d" by auto
  then show ?thesis by (auto simp: floor_need_def split: option.splits if_splits)
qed

lemma restoreFloor_Some: "restoreFloor ck reg = Some base \<Longrightarrow> defs_of reg \<noteq> []"
  by (auto simp: restoreFloor_def)

lemma map_result_collect:
  assumes "\<forall>d \<in> set ds. f d = (case g d of (_, Some err) \<Rightarrow> Inl err | (vs, None) \<Rightarrow> Inr (vs, w d))"
  shows "map_result f ds =
    (case collect g ds of (_, Some err) \<Rightarrow> Inl err | (_, None) \<Rightarrow> Inr (map (\<lambda>d. (fst (g d), w d)) ds))"
    "collect g ds = (vs, None) \<Longrightarrow> vs = concat (map (\<lambda>d. fst (g d)) ds)"
proof -
  show "map_result f ds =
    (case collect g ds of (_, Some err) \<Rightarrow> Inl err | (_, None) \<Rightarrow> Inr (map (\<lambda>d. (fst (g d), w d)) ds))"
    using assms by (induction ds) (auto split: prod.splits option.splits)
  show "collect g ds = (vs, None) \<Longrightarrow> vs = concat (map (\<lambda>d. fst (g d)) ds)"
    by (induction ds arbitrary: vs) (auto split: prod.splits option.splits)
qed

lemma restore_from_units:
  assumes "\<forall>d \<in> set (defs_of reg). restore_unit ck events base header inherited d =
      (case view_at d (state_at d header inherited log) of
         (_, Some err) \<Rightarrow> Inl err | (vs, None) \<Rightarrow> Inr (vs, row_of header inherited log d))"
    and "end_seq base events = cursorBefore (length log)"
  shows "restore ck events base header inherited reg =
    (case cut_of (defs_of reg) header inherited log of
       Inl err \<Rightarrow> Inl err | Inr snap \<Rightarrow> Inr (snap, map (row_of header inherited log) (defs_of reg)))"
  using map_result_collect [OF assms(1)] assms(2)
  by (auto simp: restore_def cut_of_def comp_def split: prod.splits option.splits)

lemma map_result_each: "map_result f xs = Inr ys \<Longrightarrow> x \<in> set xs \<Longrightarrow> \<exists>y. f x = Inr y"
  by (induction xs arbitrary: ys) (auto simp: rbind_Inr_iff)

lemma restore_some_unit:
  assumes "restore ck events base header inherited reg = Inr (snap, rows)" "d \<in> set (defs_of reg)"
  shows "\<exists>x. restore_unit ck events base header inherited d = Inr x"
proof -
  from assms(1) obtain rs where "map_result (restore_unit ck events base header inherited) (defs_of reg) = Inr rs"
    by (auto simp: restore_def rbind_Inr_iff)
  then show ?thesis using assms(2) by (rule map_result_each)
qed

lemma end_seq_drop:
  assumes "contiguous log" "base \<le> length log"
  shows "end_seq base (drop base log) = cursorBefore (length log)"
  using assms by (auto simp: end_seq_def last_of_def cursorBefore_def last_conv_nth contiguous_def)

text \<open>When no unit refuses its row, the restore is the cut of the whole log.\<close>

lemma restore_accepts:
  assumes "contiguous log" "base \<le> length log" "lawful (defs_of reg)" "rows_of_log (defs_of reg) header inherited log ck"
    and "\<And>d. d \<in> set (defs_of reg) \<Longrightarrow> 0 < base \<Longrightarrow> usable d (map_of ck (ud_key d)) base (cursorBefore (length log))"
    and "\<And>d. d \<in> set (defs_of reg) \<Longrightarrow> \<not> row_refused ck d"
  shows "restore ck (drop base log) base header inherited reg =
    (case cut_of (defs_of reg) header inherited log of
       Inl err \<Rightarrow> Inl err | Inr snap \<Rightarrow> Inr (snap, map (row_of header inherited log) (defs_of reg)))"
proof (rule restore_from_units [OF _ end_seq_drop [OF assms(1,2)]], intro ballI)
  fix d assume d: "d \<in> set (defs_of reg)"
  then have law: "projection_unit d" using assms(3) by (simp add: lawful_def)
  have rows: "row_in d header inherited log r"
    if "map_of ck (ud_key d) = Some r" "num_eq (rw_ver r) (ud_version d)" "rw_seq r < int (length log)" for r
    using assms(4) d that by (simp add: rows_of_log_def)
  have "usable d (map_of ck (ud_key d)) base (cursorBefore (length log)) \<Longrightarrow> ud_parse d (rw_val (the (map_of ck (ud_key d)))) \<noteq> None"
    using assms(6) [OF d] by (auto simp: usable_def row_refused_def split: option.splits)
  with projection_unit.restore_unit_cases [OF law assms(1,2) rows] assms(5) [OF d]
  show "restore_unit ck (drop base log) base header inherited d =
      (case view_at d (state_at d header inherited log) of
         (_, Some err) \<Rightarrow> Inl err | (vs, None) \<Rightarrow> Inr (vs, row_of header inherited log d))"
    by auto
qed

text \<open>Whatever it is given, a restore that succeeds is the cut of the whole log.\<close>

lemma restore_sound:
  assumes "contiguous log" "base \<le> length log" "lawful (defs_of reg)" "rows_of_log (defs_of reg) header inherited log ck"
    and ok: "restore ck (drop base log) base header inherited reg = Inr (snap, rows)"
  shows "restore ck (drop base log) base header inherited reg =
    (case cut_of (defs_of reg) header inherited log of
       Inl err \<Rightarrow> Inl err | Inr snap \<Rightarrow> Inr (snap, map (row_of header inherited log) (defs_of reg)))"
proof (rule restore_from_units [OF _ end_seq_drop [OF assms(1,2)]], intro ballI)
  fix d assume d: "d \<in> set (defs_of reg)"
  then have law: "projection_unit d" using assms(3) by (simp add: lawful_def)
  have rows: "row_in d header inherited log r"
    if "map_of ck (ud_key d) = Some r" "num_eq (rw_ver r) (ud_version d)" "rw_seq r < int (length log)" for r
    using assms(4) d that by (simp add: rows_of_log_def)
  from restore_some_unit [OF ok d] obtain y where "restore_unit ck (drop base log) base header inherited d = Inr y"
    by blast
  with projection_unit.restore_unit_cases [OF law assms(1,2) rows]
  show "restore_unit ck (drop base log) base header inherited d =
      (case view_at d (state_at d header inherited log) of
         (_, Some err) \<Rightarrow> Inl err | (vs, None) \<Rightarrow> Inr (vs, row_of header inherited log d))"
    by (simp split: if_splits)
qed

text \<open>From the start of the log only a schema can refuse.\<close>

lemma restore_from_start:
  assumes "contiguous log" "lawful (defs_of reg)" "rows_of_log (defs_of reg) header inherited log ck"
  shows "restore ck log 0 header inherited reg =
      (case cut_of (defs_of reg) header inherited log of
         Inl err \<Rightarrow> Inl err | Inr snap \<Rightarrow> Inr (snap, map (row_of header inherited log) (defs_of reg)))
    \<or> (\<exists>err. restore ck log 0 header inherited reg = Inl err) \<and> (\<exists>d \<in> set (defs_of reg). row_refused ck d)"
proof (cases "restore ck log 0 header inherited reg")
  case (Inl err)
  with restore_accepts [OF assms(1) _ assms(2,3), of 0] show ?thesis by fastforce
next
  case (Inr x)
  obtain snap rows where "x = (snap, rows)" by fastforce
  with restore_sound [OF assms(1) _ assms(2,3), of 0 snap rows] Inr show ?thesis by simp
qed

lemma restore_short:
  assumes "length log < base" "restoreFloor ck reg = Some base"
  shows "\<exists>err. restore ck (drop base log) base header inherited reg = Inl err"
proof -
  from restoreFloor_Some [OF assms(2)] obtain d ds where ds: "defs_of reg = d # ds" by (cases "defs_of reg") auto
  with restoreFloor_below [OF assms(2), of d] assms(1)
  have "\<not> usable d (map_of ck (ud_key d)) base (end_seq base (drop base log))"
    by (auto simp: usable_def end_seq_def cursorBefore_def)
  with ds assms(1) show ?thesis by (simp add: restore_def restore_unit_def Let_def)
qed

lemma restore_from_floor:
  assumes "contiguous log" "lawful (defs_of reg)" "rows_of_log (defs_of reg) header inherited log ck"
    and floor: "restoreFloor ck reg = Some base"
  shows "case restore ck (drop base log) base header inherited reg of
      Inr (snap, rows) \<Rightarrow> cut_of (defs_of reg) header inherited log = Inr snap
        \<and> rows = map (row_of header inherited log) (defs_of reg)
    | Inl err \<Rightarrow> cut_of (defs_of reg) header inherited log = Inl err
        \<or> (\<exists>d \<in> set (defs_of reg). 0 < base \<and> row_beyond ck log d) \<or> (\<exists>d \<in> set (defs_of reg). row_refused ck d)"
proof (cases "(\<exists>d \<in> set (defs_of reg). 0 < base \<and> row_beyond ck log d) \<or> (\<exists>d \<in> set (defs_of reg). row_refused ck d)")
  case False
  have base: "base \<le> length log"
  proof (rule ccontr)
    assume "\<not> base \<le> length log"
    then have pos: "0 < base" and len: "length log < base" by auto
    from restoreFloor_Some [OF floor] obtain d where d: "d \<in> set (defs_of reg)" by (cases "defs_of reg") auto
    with restoreFloor_below [OF floor d pos] len False pos show False by (auto simp: row_beyond_def)
  qed
  have use: "usable d (map_of ck (ud_key d)) base (cursorBefore (length log))" if d: "d \<in> set (defs_of reg)" "0 < base" for d
    using restoreFloor_below [OF floor d] False d by (fastforce simp: usable_def cursorBefore_def row_beyond_def)
  have "restore ck (drop base log) base header inherited reg =
    (case cut_of (defs_of reg) header inherited log of
       Inl err \<Rightarrow> Inl err | Inr snap \<Rightarrow> Inr (snap, map (row_of header inherited log) (defs_of reg)))"
    by (rule restore_accepts [OF assms(1) base assms(2,3) use]) (use False in auto)
  then show ?thesis by (auto split: sum.splits)
next
  case True
  show ?thesis
  proof (cases "restore ck (drop base log) base header inherited reg")
    case (Inl err)
    with True show ?thesis by auto
  next
    case (Inr x)
    obtain snap rows where x: "x = (snap, rows)" by fastforce
    from restore_short [OF _ floor, of log header inherited] Inr have base: "base \<le> length log"
      by (metis linorder_not_less sum.distinct(1))
    from restore_sound [OF assms(1) base assms(2,3) Inr [unfolded x]] Inr x show ?thesis
      by (auto split: sum.splits)
  qed
qed

section \<open>Hydrating a prepared session\<close>

lemma unit_state_at:
  "unit_state d se n = state_at d (se_header se) (se_inheritedEventCount se) (take n (se_log se))"
  by (simp add: unit_state_def state_at_def)

lemma cached_collect:
  assumes "\<forall>(k, rg) \<in> set rs. \<exists>c. rg_cells rg h = Some c \<and> cl_state c = st (rg_def rg)"
  shows "(case cached_values h None rs of Inl err \<Rightarrow> Inl err | Inr vs \<Rightarrow> Inr (map (\<lambda>(k, v, _). (k, v)) vs)) =
    (case collect (\<lambda>d. view_at d (st d)) (map (rg_def \<circ> snd) rs) of
       (_, Some err) \<Rightarrow> Inl err | (vs, None) \<Rightarrow> Inr vs)"
  using assms
proof (induction rs)
  case (Cons a rs)
  obtain k rg where a: "a = (k, rg)" by fastforce
  from Cons.prems a obtain c where c: "rg_cells rg h = Some c" "cl_state c = st (rg_def rg)" by auto
  from Cons have ih: "(case cached_values h None rs of Inl err \<Rightarrow> Inl err | Inr vs \<Rightarrow> Inr (map (\<lambda>(k, v, _). (k, v)) vs)) =
    (case collect (\<lambda>d. view_at d (st d)) (map (rg_def \<circ> snd) rs) of
       (_, Some err) \<Rightarrow> Inl err | (vs, None) \<Rightarrow> Inr vs)" by (simp add: comp_def)
  show ?case
  proof (cases "ud_wire (rg_def rg)")
    case None
    with ih a show ?thesis by (simp add: view_at_def comp_def split: prod.splits option.splits)
  next
    case (Some w)
    with ih a c show ?thesis
      by (cases "wv_parse w (wv_view w (st (rg_def rg)))"; cases "cached_values h None rs";
          cases "collect (\<lambda>d. view_at d (st d)) (map (rg_def \<circ> snd) rs)")
        (auto simp: view_at_def viewCell_def wanted_def comp_def split: option.splits)
  qed
qed (simp add: cut_of_def)


text \<open>
  Hydrating from rows and a prefix of the session's log installs folds of that prefix and shows
  its cut, or leaves the registry alone.
\<close>

lemma install_same:
  assumes "contiguous (se_log se)" "ses h = Some se" "m \<le> length (se_log se)"
    and "map_of rows (ud_key (rg_def rg)) = Some r"
    and "r = snd (row_of (se_header se) (se_inheritedEventCount se) (take m (se_log se)) (rg_def rg))"
  shows "same_unit ses rg (install_row h rows rg)"
proof -
  have "cell_ok (rg_def rg) se \<lparr>cl_state = rw_val r, cl_observed = rw_seq r, cl_views = (None, None)\<rparr>"
    using assms(3) by (simp add: cell_ok_def assms(5) row_of_def cursorBefore_def unit_state_at)
  from set_cell_same [of ses h se, OF assms(2) this] assms(4) show ?thesis
    by (auto simp: install_row_def)
qed

lemma hydrate_ok:
  assumes ses: "sessions_ok ses" "ses h = Some se" and reg: "registry_ok ses reg" and m: "m \<le> length (se_log se)"
    and law: "lawful (defs_of reg)"
    and rows: "rows_of_log (defs_of reg) (se_header se) (se_inheritedEventCount se) (take m (se_log se)) ck"
    and hy: "hydrate h se ck (take m (se_log se)) 0 reg = (reg', r)"
  shows "registry_ok ses reg' \<and> units_of (pr_regs reg') = units_of (pr_regs reg)
    \<and> (r = cut_of (defs_of reg) (se_header se) (se_inheritedEventCount se) (take m (se_log se))
       \<or> (\<exists>err. r = Inl err) \<and> (\<exists>d \<in> set (defs_of reg). row_refused ck d))"
proof -
  let ?hd = "se_header se" let ?in = "se_inheritedEventCount se" let ?log = "take m (se_log se)"
  have c: "contiguous (se_log se)" "contiguous ?log" using ses by (auto simp: sessions_ok_def intro: contiguous_take)
  have e: "end_seq 0 ?log = int m - 1" using end_seq_drop [OF c(2), of 0] m by (simp add: cursorBefore_def)
  have cut_defs: "cut_of (defs_of reg) ?hd ?in ?log =
      (case collect (\<lambda>d. view_at d (unit_state d se m)) (map (rg_def \<circ> snd) (pr_regs reg)) of
         (_, Some err) \<Rightarrow> Inl err | (vs, None) \<Rightarrow> Inr \<lparr>sc_asOf = int m - 1, sc_values = vs\<rparr>)"
    using m by (simp add: cut_of_def defs_of_def unit_state_at cursorBefore_def min_absorb2 cong: option.case_cong prod.case_cong)
  show ?thesis
  proof (cases "all_at h (end_seq 0 ?log) reg")
    case True
    have "\<forall>(k, rg) \<in> set (pr_regs reg). \<exists>b. rg_cells rg h = Some b \<and> cl_state b = unit_state (rg_def rg) se m"
    proof clarify
      fix k rg assume kr: "(k, rg) \<in> set (pr_regs reg)"
      with True e obtain b where b: "rg_cells rg h = Some b" "cl_observed b = int m - 1"
        by (fastforce simp: all_at_def list_all_iff split: option.splits)
      from kr reg have "reg_ok ses rg" by (auto simp: registry_ok_def)
      from reg_ok_cell [OF this b(1) ses(2)] b show "\<exists>b. rg_cells rg h = Some b \<and> cl_state b = unit_state (rg_def rg) se m"
        by (auto simp: cell_ok_def)
    qed
    from cached_collect [OF this] have "rbind (cached_values h None (pr_regs reg)) (\<lambda>vs.
        Inr \<lparr>sc_asOf = int m - 1, sc_values = map (\<lambda>(k, v, _). (k, v)) vs\<rparr>) = cut_of (defs_of reg) ?hd ?in ?log"
      unfolding cut_defs by (cases "cached_values h None (pr_regs reg)") (auto split: prod.splits option.splits)
    with hy True reg e show ?thesis by (auto simp: hydrate_def Let_def)
  next
    case False
    note start = restore_from_start [OF c(2) law rows]
    show ?thesis
    proof (cases "restore ck ?log 0 ?hd ?in reg")
      case (Inl err)
      with hy False reg start show ?thesis by (auto simp: hydrate_def Let_def split: sum.splits)
    next
      case (Inr x)
      with start obtain snap where snap: "cut_of (defs_of reg) ?hd ?in ?log = Inr snap"
        "x = (snap, map (row_of ?hd ?in ?log) (defs_of reg))" by (auto split: sum.splits)
      let ?rows = "map (row_of ?hd ?in ?log) (defs_of reg)"
      have keys: "map fst ?rows = map fst (pr_regs reg)"
        using reg by (auto simp: row_of_def defs_of_def registry_ok_def)
      have one: "same_unit ses rg (install_row h ?rows rg)" if "(k, rg) \<in> set (pr_regs reg)" for k rg
      proof (rule install_same [of se ses h, OF c(1) ses(2) m _ refl])
        have "rg_def rg \<in> set (defs_of reg)" using that by (force simp: defs_of_def)
        then have "(ud_key (rg_def rg), snd (row_of ?hd ?in ?log (rg_def rg))) \<in> set ?rows"
          by (force simp: row_of_def)
        moreover have "distinct (map fst ?rows)" unfolding keys using reg by (simp add: registry_ok_def)
        ultimately show "map_of ?rows (ud_key (rg_def rg)) = Some (snd (row_of ?hd ?in ?log (rg_def rg)))"
          by (simp only: map_of_eq_Some_iff)
      qed
      have "list_all2 (\<lambda>(k, rg) (k', rg'). k' = k \<and> same_unit ses rg rg') (pr_regs reg)
          (map (\<lambda>(k, rg). (k, install_row h ?rows rg)) (pr_regs reg))"
        using one by (auto simp: list_all2_map2 intro!: list.rel_refl_strong)
      from same_units(1) [OF this] same_units(2) [OF this, of reg] reg hy False Inr snap show ?thesis
        by (auto simp: hydrate_def Let_def)
    qed
  qed
qed

end
