(* ===== verification/Projection_Cache.thy ===== *)
theory Projection_Cache
  imports Projection_Restore Goal_Service Session_Store
begin

text \<open>
  The persisted projection cache of session/session-projection-cache/src/index.ts: one record per
  session identity, holding the checkpoint rows of every unit and the identity of the log they were
  folded from. The storage table is its in-memory state; a write either lands or is lost, and the
  timers that trigger writes are not modelled. The goal projection is registered here as a unit,
  so the contract of \<open>projection_unit\<close> is met by the model's own definitions, and the properties of
  the registry and the cache are stated and exercised on it.
\<close>

section \<open>The goal unit\<close>

definition parse_goal_view :: "goal_projection option \<Rightarrow> goal_projection option option" where
  "parse_goal_view v =
     (case v of None \<Rightarrow> Some None | Some q \<Rightarrow> if projection_schema_ok q then Some (Some q) else None)"

definition goal_unit :: "(projection_state, goal_projection option) unit_def" where
  "goal_unit =
     \<lparr>ud_key = ''goal'',
      ud_parse = (\<lambda>ps. if state_schema_ok ps then Some ps else None),
      ud_init = (\<lambda>_ _. init_projection),
      ud_apply = applyGoalProjection,
      ud_wire = Some \<lparr>wv_parse = parse_goal_view, wv_view = ps_current\<rparr>,
      ud_version = NInt 6\<rparr>"

interpretation goal_projection: projection_unit goal_unit
  by unfold_locales (simp add: goal_unit_def split: if_splits)

lemma goal_unit_state: "state_at goal_unit header inherited log = project_goal log"
  by (simp add: state_at_def goal_unit_def project_goal_def)

section \<open>Identity of a record\<close>

record identity =
  ci_createdAt :: "json option"
  ci_cwd :: "json option"
  ci_isSeeded :: "bool option"
  ci_inherited :: "nat option"

record 's cache_record =
  cr_identity :: identity
  cr_rows :: "'s row_table"

datatype cache_error = UnseededIdentity | RegistryThrew projection_error

definition identityOf :: "json \<Rightarrow> nat \<Rightarrow> cache_error + identity" where
  "identityOf header inherited =
     (if \<not> header_isSeeded header \<and> inherited \<noteq> 0 then Inl UnseededIdentity
      else Inr \<lparr>ci_createdAt = jget header ''createdAt'', ci_cwd = jget header ''cwd'',
                ci_isSeeded = Some (header_isSeeded header), ci_inherited = Some inherited\<rparr>)"

text \<open>Strict equality of two optional primitive fields.\<close>

fun same_field :: "json option \<Rightarrow> json option \<Rightarrow> bool" where
  "same_field None None = True"
| "same_field (Some a) (Some b) = prim_eq a b"
| "same_field _ _ = False"

definition or_else :: "'a option \<Rightarrow> 'a \<Rightarrow> 'a" where
  "or_else x d = (case x of None \<Rightarrow> d | Some y \<Rightarrow> y)"

definition identityMatches :: "identity \<Rightarrow> identity \<Rightarrow> bool" where
  "identityMatches stored expected \<longleftrightarrow>
     same_field (ci_createdAt stored) (ci_createdAt expected)
     \<and> same_field (ci_cwd stored) (ci_cwd expected)
     \<and> Some (or_else (ci_isSeeded stored) False) = ci_isSeeded expected
     \<and> Some (or_else (ci_inherited stored) 0) = ci_inherited expected"

section \<open>Reads and writes\<close>

type_synonym 's cache_table = "(string \<times> 's cache_record) list"

definition recordFor :: "string \<Rightarrow> identity \<Rightarrow> 's cache_table \<Rightarrow> 's cache_record option" where
  "recordFor sid expected table =
     (case map_of table sid of
        None \<Rightarrow> None
      | Some r \<Rightarrow> if identityMatches (cr_identity r) expected then Some r else None)"

definition header_id :: "json \<Rightarrow> string" where
  "header_id header = (case str_of header ''id'' of Some i \<Rightarrow> i | None \<Rightarrow> [])"

definition lift_error :: "projection_error + 'a \<Rightarrow> cache_error + 'a" where
  "lift_error r = (case r of Inl e \<Rightarrow> Inl (RegistryThrew e) | Inr x \<Rightarrow> Inr x)"

definition row_seqs :: "'s row_table \<Rightarrow> (string \<times> 'v) list \<Rightarrow> int list" where
  "row_seqs rows values = List.map_filter (\<lambda>(k, _). map_option rw_seq (map_of rows k)) values"

definition cache_cachedSnapshot ::
  "json \<Rightarrow> nat \<Rightarrow> string list option \<Rightarrow> ('s, 'v) registry \<Rightarrow> 's cache_table \<Rightarrow> cache_error + 'v snapshot_cut option" where
  "cache_cachedSnapshot header inherited keys reg table =
     rbind (identityOf header inherited) (\<lambda>expected.
       (case recordFor (header_id header) expected table of
          None \<Rightarrow> Inr None
        | Some r \<Rightarrow>
            rbind (lift_error (viewCheckpoint (cr_rows r) keys reg)) (\<lambda>values.
              Inr (if values = [] \<or> row_seqs (cr_rows r) values = [] then None
                   else Some \<lparr>sc_asOf = Min (set (row_seqs (cr_rows r) values)), sc_values = values\<rparr>))))"

definition hydratePrepared ::
  "nat \<Rightarrow> session \<Rightarrow> session_event list \<Rightarrow> 's cache_table \<Rightarrow> ('s, 'v) registry \<Rightarrow>
   ('s, 'v) registry \<times> (cache_error + 'v snapshot_cut)" where
  "hydratePrepared h se events table reg =
     (case identityOf (se_header se) (se_inheritedEventCount se) of
        Inl err \<Rightarrow> (reg, Inl err)
      | Inr expected \<Rightarrow>
          (case recordFor (session_id se) expected table of
             None \<Rightarrow> (case hydrate h se [] events 0 reg of (reg', r) \<Rightarrow> (reg', lift_error r))
           | Some c \<Rightarrow>
               (case hydrate h se (cr_rows c) events 0 reg of
                  (reg', Inr shown) \<Rightarrow> (reg', Inr shown)
                | (reg', Inl _) \<Rightarrow> (case hydrate h se [] events 0 reg' of (reg'', r) \<Rightarrow> (reg'', lift_error r)))))"

text \<open>Replacing the stored record; \<open>lands\<close> is whether the durable write succeeds.\<close>

definition put :: "bool \<Rightarrow> string \<Rightarrow> identity \<Rightarrow> 's row_table \<Rightarrow> 's cache_table \<Rightarrow> 's cache_table" where
  "put lands sid ident rows table =
     (if lands then map_set sid \<lparr>cr_identity = ident, cr_rows = rows\<rparr> table else table)"

definition coldSnapshot ::
  "bool \<Rightarrow> json \<Rightarrow> nat \<Rightarrow> session_event list \<Rightarrow> ('s, 'v) registry \<Rightarrow> 's cache_table \<Rightarrow>
   's cache_table \<times> (cache_error + 'v snapshot_cut)" where
  "coldSnapshot lands header inherited events reg table =
     (case identityOf header inherited of
        Inl err \<Rightarrow> (table, Inl err)
      | Inr ident \<Rightarrow>
          (case restore (case recordFor (header_id header) ident table of Some r \<Rightarrow> cr_rows r | None \<Rightarrow> [])
                  events 0 header inherited reg of
             Inl err \<Rightarrow> (table, Inl (RegistryThrew err))
           | Inr (snap, rows) \<Rightarrow> (put lands (header_id header) ident rows table, Inr snap)))"

text \<open>The checkpoint of a live session: the cut is taken, then stored.\<close>

definition write_checkpoint ::
  "bool \<Rightarrow> nat \<Rightarrow> session \<Rightarrow> ('s, 'v) registry \<Rightarrow> 's cache_table \<Rightarrow>
   ('s, 'v) registry \<times> 's cache_table \<times> cache_error option" where
  "write_checkpoint lands h se reg table =
     (case checkpoint h se reg of
        (reg', Inl err) \<Rightarrow> (reg', table, Some (RegistryThrew err))
      | (reg', Inr rows) \<Rightarrow>
          (case identityOf (se_header se) (se_inheritedEventCount se) of
             Inl err \<Rightarrow> (reg', table, Some err)
           | Inr ident \<Rightarrow> (reg', put lands (session_id se) ident rows table, None)))"

section \<open>What reaches the readers\<close>

lemma reachable_world:
  assumes "state_after registry_serve (new_registry, \<lambda>_. None) cs = (reg, ses)"
  shows "sessions_ok ses" "registry_ok ses reg"
proof -
  have "world_rel (new_registry, \<lambda>_. None) ([], \<lambda>_. None)"
    by (simp add: world_rel_def new_registry_def sessions_ok_def registry_ok_def units_of_def)
  from registry_sim.related_after [OF this, of cs] assms
  show "sessions_ok ses" "registry_ok ses reg" by (auto simp: world_rel_def)
qed

lemma reports_key: "reports h ls i d a b out \<Longrightarrow> \<forall>(l, h', k, v, s) \<in> set out. k = ud_key d"
  by (auto simp: reports_def)

lemma filter_concat_one:
  assumes "distinct (map fst rs)" "(k, rg) \<in> set rs"
    and "\<forall>(j, r) \<in> set rs. \<forall>x \<in> set (f r). key x = j"
  shows "filter (\<lambda>x. key x = k) (concat (map (\<lambda>(j, r). f r) rs)) = f rg"
  using assms
proof (induction rs)
  case (Cons a rs)
  obtain j r where a: "a = (j, r)" by fastforce
  show ?case
  proof (cases "j = k")
    case True
    with Cons.prems(1,2) a have "r = rg" by force
    moreover have "filter (\<lambda>x. key x = k) (concat (map (\<lambda>(j, r). f r) rs)) = []"
      using Cons.prems(1,3) a True by (fastforce simp: filter_empty_conv)
    moreover have "filter (\<lambda>x. key x = k) (f r) = f r"
      using Cons.prems(3) a True by (auto simp: filter_id_conv)
    ultimately show ?thesis by (simp add: a)
  next
    case False
    then have "filter (\<lambda>x. key x = k) (f r) = []"
      using Cons.prems(3) a by (auto simp: filter_empty_conv)
    with Cons False a show ?thesis by auto
  qed
qed simp

text \<open>
  C27: the change feed reports every change of a client view. In every world the registry can be
  in, when an event it has not yet folded into a unit's cell is driven and no schema refuses a
  view, each listener is told the new value of that unit's key if the event changes the view, and
  is told nothing about the key if the event leaves the unit's state as it was; what it is told is
  the view of the state after the event, with the event's sequence number.
\<close>

theorem change_feed_reports_view_changes:
  assumes "state_after registry_serve (new_registry, \<lambda>_. None) cs = (reg, ses)"
    and "ses h = Some se" and "i < length (se_log se)"
    and "drive h se (se_log se ! i) reg = (reg', out, None)"
    and "map_of (pr_regs reg) k = Some rg" and "\<forall>c. rg_cells rg h = Some c \<longrightarrow> cl_observed c < int i"
  shows "reports h (pr_listeners reg) i (rg_def rg) (unit_state (rg_def rg) se i) (unit_state (rg_def rg) se (Suc i))
    (filter (\<lambda>(l, h', k', v, s). k' = k) out)"
proof -
  note ok = reachable_world [OF assms(1)]
  have c: "contiguous (se_log se)" using ok(1) assms(2) by (simp add: sessions_ok_def)
  let ?f = "drive_one h se (pr_listeners reg) (se_log se ! i)"
  obtain rs where e: "each_reg ?f (pr_regs reg) = (rs, out, None)"
    using assms(4) by (auto simp: drive_def split: prod.splits)
  note q = each_reg_quiet [OF e]
  have keys: "\<forall>(j, r) \<in> set (pr_regs reg). \<forall>x \<in> set (fst (snd (?f r))). (\<lambda>(l, h', k', v, s). k') x = j"
  proof clarify
    fix j r l h' k' v s
    assume jr: "(j, r) \<in> set (pr_regs reg)" and x: "(l, h', k', v, s) \<in> set (fst (snd (?f r)))"
    from jr ok(2) have r: "reg_ok ses r" "ud_key (rg_def r) = j" by (auto simp: registry_ok_def)
    show "k' = j"
    proof (cases "\<exists>b. rg_cells r h = Some b \<and> int i \<le> cl_observed b")
      case True
      then obtain b where "rg_cells r h = Some b" "int i \<le> cl_observed b" by blast
      then have "snd (?f r) = ([], None)" by (rule drive_one_skips [OF c assms(3)])
      with x show ?thesis by simp
    next
      case False
      have "snd (?f r) = (fst (snd (?f r)), None)" using q(2) jr by (auto simp: prod_eq_iff)
      from drive_one_reports [OF ok(1) assms(2) r(1) assms(3) _ this] False
      have "reports h (pr_listeners reg) i (rg_def r) (unit_state (rg_def r) se i) (unit_state (rg_def r) se (Suc i))
          (fst (snd (?f r)))" by force
      from reports_key [OF this] x r(2) show ?thesis by auto
    qed
  qed
  have rg: "(k, rg) \<in> set (pr_regs reg)" using assms(5) by (rule map_of_SomeD)
  with ok(2) have r: "reg_ok ses rg" by (auto simp: registry_ok_def)
  have "snd (?f rg) = (fst (snd (?f rg)), None)" using q(2) rg by (auto simp: prod_eq_iff)
  note rep = drive_one_reports [OF ok(1) assms(2) r assms(3) assms(6) this]
  have "distinct (map fst (pr_regs reg))" using ok(2) by (simp add: registry_ok_def)
  from filter_concat_one [OF this rg keys] q(1)
  have "filter (\<lambda>(l, h', k', v, s). k' = k) out = fst (snd (?f rg))" by (simp add: case_prod_unfold)
  with rep show ?thesis by simp
qed

text \<open>
  A goal read is a read of the log. However the registry got there, the state it serves for
  the registered goal unit is the goal projection folded over the session's whole log, which is
  what the goal service decides on.
\<close>

theorem goal_reads_come_from_log:
  assumes "state_after registry_serve (new_registry, \<lambda>_. None) cs = (reg, ses)"
    and "ses h = Some se" and "map_of (units_of (pr_regs reg)) ''goal'' = Some (goal_unit, n)"
  shows "snd (stateOf h se ''goal'' reg) = Inr (Some (project_goal (se_log se)))"
proof -
  obtain reg' r where e: "stateOf h se ''goal'' reg = (reg', r)" by (rule prod.exhaust)
  from stateOf_rel(3) [OF reachable_world [OF assms(1)] assms(2) e] assms(3)
  show ?thesis by (simp add: e full_state_def unit_state_at goal_unit_state)
qed

text \<open>
  C28: a cold read never serves a stale value. Take rows of which every current one within the
  stored log was folded from a prefix of that log, read the log from the floor the registry asks
  for, and restore: the result is the cut and the rows of the whole log, unless the log has shrunk
  below a row, a schema refuses a stored state, or the cut itself is refused by a view schema; then
  the restore throws. Rows beyond the end of the log, of another version, or missing are never used.
\<close>

theorem restored_units_fold_whole_log:
  assumes "contiguous log" and "lawful (defs_of reg)" and "rows_of_log (defs_of reg) header inherited log ck"
    and "restoreFloor ck reg = Some base"
  shows "case restore ck (drop base log) base header inherited reg of
      Inr (snap, rows) \<Rightarrow> cut_of (defs_of reg) header inherited log = Inr snap
        \<and> rows = map (row_of header inherited log) (defs_of reg)
    | Inl err \<Rightarrow> cut_of (defs_of reg) header inherited log = Inl err
        \<or> (\<exists>d \<in> set (defs_of reg). 0 < base \<and> row_beyond ck log d) \<or> (\<exists>d \<in> set (defs_of reg). row_refused ck d)"
  by (rule restore_from_floor [OF assms])

lemma hydratePrepared_ok:
  assumes ses: "sessions_ok ses" "ses h = Some se" and reg: "registry_ok ses reg" and m: "m \<le> length (se_log se)"
    and law: "lawful (defs_of reg)" and ident: "identityOf (se_header se) (se_inheritedEventCount se) = Inr expected"
    and rows: "\<And>r. recordFor (session_id se) expected table = Some r \<Longrightarrow>
      rows_of_log (defs_of reg) (se_header se) (se_inheritedEventCount se) (take m (se_log se)) (cr_rows r)"
  shows "snd (hydratePrepared h se (take m (se_log se)) table reg)
      = lift_error (cut_of (defs_of reg) (se_header se) (se_inheritedEventCount se) (take m (se_log se)))
    \<and> registry_ok ses (fst (hydratePrepared h se (take m (se_log se)) table reg))"
proof -
  let ?cut = "cut_of (defs_of reg) (se_header se) (se_inheritedEventCount se) (take m (se_log se))"
  have plain: "r = ?cut \<and> registry_ok ses reg2"
    if "registry_ok ses reg1" "units_of (pr_regs reg1) = units_of (pr_regs reg)"
      "hydrate h se [] (take m (se_log se)) 0 reg1 = (reg2, r)" for reg1 reg2 r
  proof -
    have d: "defs_of reg1 = defs_of reg" using that(2) by (simp add: defs_of_def units_defs)
    have "rows_of_log (defs_of reg1) (se_header se) (se_inheritedEventCount se) (take m (se_log se)) []"
      by (simp add: rows_of_log_def)
    from hydrate_ok [OF ses that(1) m _ this that(3)] law d show ?thesis
      by (auto simp: row_refused_def)
  qed
  show ?thesis
  proof (cases "recordFor (session_id se) expected table")
    case None
    obtain reg2 r where e: "hydrate h se [] (take m (se_log se)) 0 reg = (reg2, r)" by (rule prod.exhaust)
    from plain [OF reg refl e] e show ?thesis by (simp add: hydratePrepared_def ident None)
  next
    case (Some c)
    obtain reg1 r1 where e: "hydrate h se (cr_rows c) (take m (se_log se)) 0 reg = (reg1, r1)" by (rule prod.exhaust)
    note h1 = hydrate_ok [OF ses reg m law rows [OF Some] e]
    show ?thesis
    proof (cases r1)
      case (Inr shown)
      with h1 have "?cut = Inr shown" "registry_ok ses reg1" by auto
      with e Inr show ?thesis by (simp add: hydratePrepared_def ident Some lift_error_def)
    next
      case (Inl err)
      obtain reg2 r2 where e2: "hydrate h se [] (take m (se_log se)) 0 reg1 = (reg2, r2)" by (rule prod.exhaust)
      from plain [OF _ _ e2] h1 e e2 Inl show ?thesis by (simp add: hydratePrepared_def ident Some)
    qed
  qed
qed

text \<open>
  A prepared session is always shown at its full fold. Whatever the cache holds for its
  identity, as long as the current rows within the observed prefix are rows of that prefix,
  hydrating answers with the cut of the prefix folded from the start: a state the schema refuses
  costs a retry without the cache and nothing else.
\<close>

theorem prepared_session_shows_full_cut:
  assumes "state_after registry_serve (new_registry, \<lambda>_. None) cs = (reg, ses)"
    and "ses h = Some se" and "m \<le> length (se_log se)" and "lawful (defs_of reg)"
    and "identityOf (se_header se) (se_inheritedEventCount se) = Inr expected"
    and "\<And>r. recordFor (session_id se) expected table = Some r \<Longrightarrow>
      rows_of_log (defs_of reg) (se_header se) (se_inheritedEventCount se) (take m (se_log se)) (cr_rows r)"
  shows "snd (hydratePrepared h se (take m (se_log se)) table reg)
    = lift_error (cut_of (defs_of reg) (se_header se) (se_inheritedEventCount se) (take m (se_log se)))"
  using hydratePrepared_ok [OF reachable_world(1) [OF assms(1)] assms(2) reachable_world(2) [OF assms(1)] assms(3-6)]
  by blast



section \<open>A sample world\<close>

definition sample_registry_calls :: "(projection_state, goal_projection option) registry_call list" where
  "sample_registry_calls =
     [Register goal_unit, Listen 1, OpenSession 0 False ''s'' None None None 7,
      AppendTo 0 False (\<lambda>_. True) 8 (GoalChange (change_json (SnapshotChange Create sample_goal 0 5 5))) None None]"

definition sample_world :: "(projection_state, goal_projection option) registry_world" where
  "sample_world = state_after registry_serve (new_registry, \<lambda>_. None) sample_registry_calls"

definition sample_live :: session where
  "sample_live = (case snd sample_world 0 of Some se \<Rightarrow> se | None \<Rightarrow> sample_session)"

definition sample_registry :: "(projection_state, goal_projection option) registry" where
  "sample_registry =
     \<lparr>pr_regs = [(''goal'', \<lparr>rg_def = goal_unit, rg_cells = (\<lambda>_. None), rg_refs = 1\<rparr>)], pr_listeners = [1]\<rparr>"

lemma goal_unit_fields [simp]:
  "ud_key goal_unit = ''goal''" "ud_version goal_unit = NInt 6"
  "ud_wire goal_unit = Some \<lparr>wv_parse = parse_goal_view, wv_view = ps_current\<rparr>"
  by (simp_all add: goal_unit_def)

lemma sample_world_registry: "fst sample_world = sample_registry"
  by (simp add: sample_world_def sample_registry_calls_def sample_registry_def register_def new_registry_def
      onChanged_def set_add_def MAX_SAFE_INTEGER_def)

lemma sample_world_session: "snd sample_world 0 = Some sample_live"
proof -
  have "snd sample_world 0 \<noteq> None" by code_simp
  then show ?thesis by (auto simp: sample_live_def)
qed

lemma sample_reach:
  "state_after registry_serve (new_registry, \<lambda>_. None) sample_registry_calls = (sample_registry, snd sample_world)"
  by (simp add: sample_world_registry [symmetric] flip: sample_world_def)

lemma lawful_goal: "lawful [goal_unit]"
  by (simp add: lawful_def goal_projection.projection_unit_axioms)

lemma sample_defs: "defs_of sample_registry = [goal_unit]"
  by (simp add: defs_of_def sample_registry_def)

lemma sample_log_length: "length (se_log sample_live) = 1"
  by code_simp

lemma sample_views:
  "ps_current (unit_state goal_unit sample_live 0) \<noteq> ps_current (unit_state goal_unit sample_live (Suc 0))"
  by code_simp

lemma sample_drive_quiet: "snd (snd (drive 0 sample_live (se_log sample_live ! 0) sample_registry)) = None"
  by code_simp

theorem change_feed_reports_view_changes_witness:
  "\<exists>v. (1, 0, ''goal'', v, 0) \<in> set (fst (snd (drive 0 sample_live (se_log sample_live ! 0) sample_registry)))"
proof -
  obtain reg' out err where d: "drive 0 sample_live (se_log sample_live ! 0) sample_registry = (reg', out, err)"
    by (cases "drive 0 sample_live (se_log sample_live ! 0) sample_registry") auto
  with sample_drive_quiet have "err = None" by simp
  note d = d [unfolded this]
  have len: "0 < length (se_log sample_live)" by (simp add: sample_log_length)
  have "reports 0 (pr_listeners sample_registry) 0 goal_unit (unit_state goal_unit sample_live 0)
      (unit_state goal_unit sample_live (Suc 0)) (filter (\<lambda>(l, h', k', v, s). k' = ''goal'') out)"
    using change_feed_reports_view_changes [OF sample_reach sample_world_session len d, of "''goal''"]
    by (simp add: sample_registry_def)
  then have "\<exists>v. (1, 0, ''goal'', v, 0) \<in> set out"
    using sample_views by (auto simp: reports_def sample_registry_def)
  then show ?thesis by (simp add: d)
qed

theorem goal_reads_come_from_log_witness:
  "snd (stateOf 0 sample_live ''goal'' sample_registry) = Inr (Some (project_goal (se_log sample_live)))"
  by (rule goal_reads_come_from_log [OF sample_reach sample_world_session, of 1])
    (simp add: sample_registry_def units_of_def)

lemma row_of_in:
  "m \<le> length log \<Longrightarrow> row_in d header inherited log (snd (row_of header inherited (take m log) d))"
  by (simp add: row_in_def row_of_def cursorBefore_def)

definition sample_rows :: "projection_state row_table" where
  "sample_rows = [row_of JNull 0 (take 2 sample_stream) goal_unit]"

lemma sample_rows_of_log: "rows_of_log [goal_unit] JNull 0 sample_stream sample_rows"
proof -
  have "row_in goal_unit JNull 0 sample_stream (snd (row_of JNull 0 (take 2 sample_stream) goal_unit))"
    by (rule row_of_in) (simp add: sample_stream_def)
  then show ?thesis by (simp add: rows_of_log_def sample_rows_def row_of_def)
qed

lemma sample_stream_contiguous: "contiguous sample_stream"
  by (simp add: sample_stream_def goal_change_event_def sample_round_def contiguous_def less_Suc_eq numeral_eq_Suc)

lemma sample_restore_returns: "returns (restore sample_rows (drop 1 sample_stream) 1 JNull 0 sample_registry)"
  by code_simp

lemma sample_floor: "restoreFloor sample_rows sample_registry = Some 1"
  by code_simp

theorem restored_units_fold_whole_log_witness:
  "\<exists>snap rows. restore sample_rows (drop 1 sample_stream) 1 JNull 0 sample_registry = Inr (snap, rows)
     \<and> cut_of [goal_unit] JNull 0 sample_stream = Inr snap"
proof -
  from sample_restore_returns obtain snap rows where
    r: "restore sample_rows (drop 1 sample_stream) 1 JNull 0 sample_registry = Inr (snap, rows)"
    by (auto simp: returns_iff)
  have "lawful (defs_of sample_registry)" "rows_of_log (defs_of sample_registry) JNull 0 sample_stream sample_rows"
    by (simp_all only: sample_defs lawful_goal sample_rows_of_log)
  from restored_units_fold_whole_log [OF sample_stream_contiguous this sample_floor] r show ?thesis
    by (simp add: sample_defs)
qed

definition sample_identity :: "json \<Rightarrow> identity" where
  "sample_identity header = (case identityOf header 0 of Inr i \<Rightarrow> i | Inl _ \<Rightarrow> undefined)"

definition sample_table :: "json \<Rightarrow> projection_state row_table \<Rightarrow> projection_state cache_table" where
  "sample_table header rows = put True (header_id header) (sample_identity header) rows []"

theorem prepared_session_shows_full_cut_witness:
  "snd (hydratePrepared 0 sample_live (take 1 (se_log sample_live))
     (sample_table (se_header sample_live) [row_of (se_header sample_live) 0 (se_log sample_live) goal_unit]) sample_registry)
   = lift_error (cut_of [goal_unit] (se_header sample_live) 0 (take 1 (se_log sample_live)))"
proof -
  let ?hd = "se_header sample_live"
  have inh: "se_inheritedEventCount sample_live = 0" by code_simp
  have ident: "identityOf ?hd 0 = Inr (sample_identity ?hd)"
  proof -
    have "returns (identityOf ?hd 0)" by code_simp
    then show ?thesis by (auto simp: returns_iff sample_identity_def)
  qed
  have len: "1 \<le> length (se_log sample_live)" by (simp add: sample_log_length)
  have row: "row_in goal_unit ?hd 0 (take 1 (se_log sample_live))
      (snd (row_of ?hd 0 (take 1 (take 1 (se_log sample_live))) goal_unit))"
    by (rule row_of_in) (simp add: sample_log_length)
  have t: "take (Suc 0) (se_log sample_live) = se_log sample_live" by (simp add: sample_log_length)
  have "snd (hydratePrepared 0 sample_live (take 1 (se_log sample_live))
      (sample_table ?hd [row_of ?hd 0 (se_log sample_live) goal_unit]) sample_registry)
    = lift_error (cut_of (defs_of sample_registry) ?hd (se_inheritedEventCount sample_live) (take 1 (se_log sample_live)))"
  proof (rule prepared_session_shows_full_cut [OF sample_reach sample_world_session len])
    show "lawful (defs_of sample_registry)" by (simp only: sample_defs lawful_goal)
    show "identityOf ?hd (se_inheritedEventCount sample_live) = Inr (sample_identity ?hd)" by (simp add: inh ident)
    fix r
    assume "recordFor (session_id sample_live) (sample_identity ?hd)
        (sample_table ?hd [row_of ?hd 0 (se_log sample_live) goal_unit]) = Some r"
    then have "cr_rows r = [row_of ?hd 0 (se_log sample_live) goal_unit]"
      by (auto simp: recordFor_def sample_table_def put_def split: if_splits)
    with row show "rows_of_log (defs_of sample_registry) ?hd (se_inheritedEventCount sample_live)
        (take 1 (se_log sample_live)) (cr_rows r)"
      by (simp add: t sample_defs inh rows_of_log_def row_of_def sample_log_length)
  qed
  then show ?thesis by (simp add: sample_defs inh)
qed


end
