(* ===== verification/Calendar.thy ===== *)
theory Calendar
  imports Js_Strings
begin

text \<open>
  The UTC calendar of a JavaScript \<open>Date\<close> on integral epoch milliseconds, and its canonical text
  \<open>YYYY-MM-DDTHH:mm:ss.sssZ\<close>, as the schedule package uses them. Days follow the definitions of
  the language (\<open>DayFromYear\<close>, \<open>MakeDay\<close>): the year of a day is found through 400-, 100-, 4- and
  1-year blocks, and the lemmas show it is the year that contains the day. The results: the fields
  of an instant determine it and lie in their ranges; fields are those of an instant if and only if
  they name a real date; and a string is the text of an instant of the years 1 to 9999 if and only
  if it has the profile and names a real date.
\<close>

section \<open>Years\<close>

definition leap :: "int \<Rightarrow> bool" where
  "leap y \<longleftrightarrow> y mod 4 = 0 \<and> (y mod 100 \<noteq> 0 \<or> y mod 400 = 0)"

text \<open>Days from 1970-01-01 to the first day of a year.\<close>

definition day_from_year :: "int \<Rightarrow> int" where
  "day_from_year y = 365 * (y - 1970) + (y - 1969) div 4 - (y - 1901) div 100 + (y - 1601) div 400"

definition year_of_day :: "int \<Rightarrow> int" where
  "year_of_day d =
     (let n = d + 719162;
          a = n div 146097; r = n mod 146097;
          b = min 3 (r div 36524); s = r - 36524 * b;
          c = s div 1461; t = s mod 1461;
          e = min 3 (t div 365)
      in 400 * a + 100 * b + 4 * c + e + 1)"

lemma day_from_year_blocks:
  assumes "0 \<le> b" "b \<le> 3" "0 \<le> c" "c \<le> 24" "0 \<le> e" "e \<le> (3::int)"
  shows "day_from_year (400 * a + 100 * b + 4 * c + e + 1) + 719162 = 146097 * a + 36524 * b + 1461 * c + 365 * e"
proof -
  let ?y = "400 * a + 100 * b + 4 * c + e + 1"
  have "?y - 1969 = e + 4 * (100 * a + 25 * b + c - 492)" by simp
  then have 4: "(?y - 1969) div 4 = 100 * a + 25 * b + c - 492" using assms by simp
  have "?y - 1901 = (4 * c + e) + 100 * (4 * a + b - 19)" by simp
  then have 100: "(?y - 1901) div 100 = 4 * a + b - 19" using assms by simp
  have "?y - 1601 = (100 * b + 4 * c + e) + 400 * (a - 4)" by simp
  then have 400: "(?y - 1601) div 400 = a - 4" using assms by simp
  show ?thesis unfolding day_from_year_def 4 100 400 by simp
qed

lemma int_div_Suc:
  assumes "0 < (k::int)"
  shows "(n + 1) div k = n div k + (if (n + 1) mod k = 0 then 1 else 0)"
proof (cases "n mod k + 1 = k")
  case True
  then have "n + 1 = k * (n div k) + k" using mult_div_mod_eq [of k n] by linarith
  then have "n + 1 = k * (n div k + 1) + 0" by (simp add: distrib_left)
  then show ?thesis using assms int_div_pos_eq [of "n + 1" k "n div k + 1" 0] int_mod_pos_eq [of "n + 1" k "n div k + 1" 0]
    by simp
next
  case False
  have "0 \<le> n mod k" "n mod k < k" using assms by simp_all
  with False have r: "0 \<le> n mod k + 1" "n mod k + 1 < k" "n mod k + 1 \<noteq> 0" by auto
  have "n + 1 = k * (n div k) + (n mod k + 1)" using mult_div_mod_eq [of k n] by simp
  with r show ?thesis
    using int_div_pos_eq [of "n + 1" k "n div k" "n mod k + 1"] int_mod_pos_eq [of "n + 1" k "n div k" "n mod k + 1"] by simp
qed

lemma day_from_year_step: "day_from_year (y + 1) = day_from_year y + (if leap y then 366 else 365)"
proof -
  have shift: "(y + 1 - (c + 1)) mod k = 0 \<longleftrightarrow> y mod k = 0" if "c mod k = 0" for c k :: int
    using that by (simp add: mod_eq_0_iff_dvd dvd_diff_left_iff)
  have 4: "(y + 1 - 1969) div 4 = (y - 1969) div 4 + (if y mod 4 = 0 then 1 else 0)"
    using int_div_Suc [of 4 "y - 1969"] shift [of 1968 4] by simp
  have 100: "(y + 1 - 1901) div 100 = (y - 1901) div 100 + (if y mod 100 = 0 then 1 else 0)"
    using int_div_Suc [of 100 "y - 1901"] shift [of 1900 100] by simp
  have 400: "(y + 1 - 1601) div 400 = (y - 1601) div 400 + (if y mod 400 = 0 then 1 else 0)"
    using int_div_Suc [of 400 "y - 1601"] shift [of 1600 400] by simp
  have "y mod 100 = 0 \<Longrightarrow> y mod 4 = 0" "y mod 400 = 0 \<Longrightarrow> y mod 100 = 0"
    by (auto simp: mod_eq_0_iff_dvd elim: dvd_trans [rotated])
  moreover define a b c where "a = (y - 1969) div 4" and "b = (y - 1901) div 100" and "c = (y - 1601) div 400"
  have "day_from_year (y + 1) = 365 * (y + 1 - 1970) + (a + (if y mod 4 = 0 then 1 else 0))
      - (b + (if y mod 100 = 0 then 1 else 0)) + (c + (if y mod 400 = 0 then 1 else 0))"
    by (simp only: day_from_year_def 4 100 400 a_def b_def c_def)
  moreover have "day_from_year y = 365 * (y - 1970) + a - b + c"
    by (simp only: day_from_year_def a_def b_def c_def)
  ultimately show ?thesis unfolding leap_def
    by (cases "y mod 4 = 0"; cases "y mod 100 = 0"; cases "y mod 400 = 0") (simp_all only: if_True if_False, simp_all)
qed

lemma day_from_year_mono: "y \<le> z \<Longrightarrow> day_from_year y \<le> day_from_year z"
  by (induction z rule: int_ge_induct) (auto simp: day_from_year_step)

lemma block_of:
  fixes r k :: int
  assumes "0 < k" "0 \<le> r" "r < 4 * k + 1" and b: "b = min 3 (r div k)"
  shows "0 \<le> b" "b \<le> 3" "0 \<le> r - k * b" "r - k * b < k + 1" "b < 3 \<longrightarrow> r - k * b < k"
proof -
  define q where "q = r div k"
  have q: "r = k * q + r mod k" "0 \<le> r mod k" "r mod k < k" "0 \<le> q"
    using assms by (simp_all add: q_def pos_imp_zdiv_nonneg_iff)
  show "0 \<le> b" "b \<le> 3" using q(4) by (simp_all add: b flip: q_def)
  show "0 \<le> r - k * b" "r - k * b < k + 1" "b < 3 \<longrightarrow> r - k * b < k"
  proof (atomize (full), cases "q \<le> 3")
    case True
    then have bq: "b = q" by (simp add: b flip: q_def)
    from q show "0 \<le> r - k * b \<and> r - k * b < k + 1 \<and> (b < 3 \<longrightarrow> r - k * b < k)"
      unfolding bq by linarith
  next
    case False
    then have b3: "b = 3" by (simp add: b flip: q_def)
    have "k * 4 \<le> k * q" using False assms(1) by (intro mult_left_mono) auto
    with q assms(1,3) show "0 \<le> r - k * b \<and> r - k * b < k + 1 \<and> (b < 3 \<longrightarrow> r - k * b < k)"
      unfolding b3 by linarith
  qed
qed

lemma year_blocks:
  obtains a b c e where "0 \<le> b" "b \<le> 3" "0 \<le> c" "c \<le> 24" "0 \<le> e" "e \<le> 3"
    "year_of_day d = 400 * a + 100 * b + 4 * c + e + 1"
    "146097 * a + 36524 * b + 1461 * c + 365 * e \<le> d + 719162"
    "d + 719162 < 146097 * a + 36524 * b + 1461 * c + 365 * e + 366"
    "e < 3 \<or> c = 24 \<and> b < 3 \<longrightarrow> d + 719162 < 146097 * a + 36524 * b + 1461 * c + 365 * e + 365"
proof -
  define n where "n = d + 719162"
  define a where "a = n div 146097"
  define r where "r = n mod 146097"
  define b where "b = min 3 (r div 36524)"
  define s where "s = r - 36524 * b"
  define c where "c = s div 1461"
  define t where "t = s mod 1461"
  define e where "e = min 3 (t div 365)"
  have n: "n = 146097 * a + r" "0 \<le> r" "r < 146097" by (simp_all add: a_def r_def)
  have b: "0 \<le> b" "b \<le> 3" "0 \<le> s" "s < 36525" "b < 3 \<longrightarrow> s < 36524"
    using block_of [of 36524 r b] n by (auto simp: b_def s_def)
  have c: "s = 1461 * c + t" "0 \<le> t" "t < 1461" "0 \<le> c"
    using b(3) by (simp_all add: c_def t_def pos_imp_zdiv_nonneg_iff)
  with b(4) have c24: "c \<le> 24" by linarith
  have e: "0 \<le> e" "e \<le> 3" "0 \<le> t - 365 * e" "t - 365 * e < 366" "e < 3 \<longrightarrow> t - 365 * e < 365"
    using block_of [of 365 t e] c by (auto simp: e_def)
  have last: "t - 365 * e < 365" if "c = 24" "b < 3"
    using that b c e by (cases "e < 3") auto
  show thesis
  proof (rule that [of b c e a])
    show "year_of_day d = 400 * a + 100 * b + 4 * c + e + 1"
      by (simp add: year_of_day_def Let_def n_def a_def r_def b_def s_def c_def t_def e_def)
  qed (use n b c c24 e last n_def s_def in auto)
qed

lemma year_of_day_bounds: "day_from_year (year_of_day d) \<le> d" "d < day_from_year (year_of_day d + 1)"
proof -
  obtain a b c e where bd: "0 \<le> b" "b \<le> 3" "0 \<le> c" "c \<le> 24" "0 \<le> e" "e \<le> 3"
    and y: "year_of_day d = 400 * a + 100 * b + 4 * c + e + 1"
    and lo: "146097 * a + 36524 * b + 1461 * c + 365 * e \<le> d + 719162"
    and hi: "d + 719162 < 146097 * a + 36524 * b + 1461 * c + 365 * e + 366"
    and hi3: "e < 3 \<or> c = 24 \<and> b < 3 \<longrightarrow> d + 719162 < 146097 * a + 36524 * b + 1461 * c + 365 * e + 365"
    by (rule year_blocks [of d])
  note f = day_from_year_blocks [OF bd, of a]
  show "day_from_year (year_of_day d) \<le> d" using f lo y by simp
  have "leap (year_of_day d) \<longleftrightarrow> e = 3 \<and> \<not> (c = 24 \<and> b < 3)"
  proof -
    have "400 * a + 100 * b + 4 * c + e + 1 = (e + 1) + 4 * (100 * a + 25 * b + c)" by simp
    then have "(400 * a + 100 * b + 4 * c + e + 1) mod 4 = (e + 1) mod 4" by (simp only: mod_mult_self2)
    moreover have "400 * a + 100 * b + 4 * c + e + 1 = (4 * c + e + 1) + 100 * (4 * a + b)" by simp
    then have "(400 * a + 100 * b + 4 * c + e + 1) mod 100 = (4 * c + e + 1) mod 100" by (simp only: mod_mult_self2)
    moreover have "400 * a + 100 * b + 4 * c + e + 1 = (100 * b + 4 * c + e + 1) + 400 * a" by simp
    then have "(400 * a + 100 * b + 4 * c + e + 1) mod 400 = (100 * b + 4 * c + e + 1) mod 400" by (simp only: mod_mult_self2)
    moreover have "(e + 1) mod 4 = 0 \<longleftrightarrow> e = 3" using bd by presburger
    moreover have "(4 * c + e + 1) mod 100 = 0 \<longleftrightarrow> c = 24 \<and> e = 3"
    proof (cases "c = 24 \<and> e = 3")
      case False
      with bd have "c < 24 \<or> e < 3" by auto
      with bd have "0 < 4 * c + e + 1" "4 * c + e + 1 < 100" by linarith+
      with False show ?thesis using mod_pos_pos_trivial [of "4 * c + e + 1" 100] by simp
    qed simp
    moreover have "(100 * b + 4 * c + e + 1) mod 400 = 0 \<longleftrightarrow> b = 3 \<and> c = 24 \<and> e = 3"
    proof (cases "b = 3 \<and> c = 24 \<and> e = 3")
      case False
      with bd have "b < 3 \<or> c < 24 \<or> e < 3" by auto
      with bd have "0 < 100 * b + 4 * c + e + 1" "100 * b + 4 * c + e + 1 < 400" by linarith+
      with False show ?thesis using mod_pos_pos_trivial [of "100 * b + 4 * c + e + 1" 400] by simp
    qed simp
    moreover have "b < 3 \<longleftrightarrow> b \<noteq> 3" using bd by auto
    ultimately show ?thesis unfolding leap_def y by (simp only:) blast
  qed
  with day_from_year_step [of "year_of_day d"] f y hi hi3 bd show "d < day_from_year (year_of_day d + 1)"
    by (auto split: if_splits)
qed

lemma year_of_day_unique:
  assumes "day_from_year y \<le> d" "d < day_from_year (y + 1)"
  shows "year_of_day d = y"
proof (rule ccontr)
  assume "year_of_day d \<noteq> y"
  then have "y + 1 \<le> year_of_day d \<or> year_of_day d + 1 \<le> y" by linarith
  with day_from_year_mono [of "y + 1" "year_of_day d"] day_from_year_mono [of "year_of_day d + 1" y]
    year_of_day_bounds [of d] assms show False by auto
qed

section \<open>Months\<close>

text \<open>The day of the year on which a month starts, months counted from 0, and the month of a day.\<close>

definition month_start :: "bool \<Rightarrow> int \<Rightarrow> int" where
  "month_start l m =
     [0, 31, 59, 90, 120, 151, 181, 212, 243, 273, 304, 334, 365] ! nat m + (if l \<and> 2 \<le> m then 1 else 0)"

definition month_of :: "bool \<Rightarrow> int \<Rightarrow> int" where
  "month_of l k =
     (if k < month_start l 1 then 0 else if k < month_start l 2 then 1 else if k < month_start l 3 then 2
      else if k < month_start l 4 then 3 else if k < month_start l 5 then 4 else if k < month_start l 6 then 5
      else if k < month_start l 7 then 6 else if k < month_start l 8 then 7 else if k < month_start l 9 then 8
      else if k < month_start l 10 then 9 else if k < month_start l 11 then 10 else 11)"

lemma month_cases:
  assumes "0 \<le> m" "m < (12 :: int)"
  obtains "m = 0" | "m = 1" | "m = 2" | "m = 3" | "m = 4" | "m = 5" | "m = 6" | "m = 7" | "m = 8" | "m = 9"
    | "m = 10" | "m = 11"
proof -
  have "m = 0 \<or> m = 1 \<or> m = 2 \<or> m = 3 \<or> m = 4 \<or> m = 5 \<or> m = 6 \<or> m = 7 \<or> m = 8 \<or> m = 9 \<or> m = 10 \<or> m = 11"
    using assms by arith
  with that show thesis by blast
qed

lemma month_start_values:
  "month_start l 0 = 0" "month_start l 1 = 31" "month_start l 2 = 59 + (if l then 1 else 0)"
  "month_start l 3 = 90 + (if l then 1 else 0)" "month_start l 4 = 120 + (if l then 1 else 0)"
  "month_start l 5 = 151 + (if l then 1 else 0)" "month_start l 6 = 181 + (if l then 1 else 0)"
  "month_start l 7 = 212 + (if l then 1 else 0)" "month_start l 8 = 243 + (if l then 1 else 0)"
  "month_start l 9 = 273 + (if l then 1 else 0)" "month_start l 10 = 304 + (if l then 1 else 0)"
  "month_start l 11 = 334 + (if l then 1 else 0)" "month_start l 12 = 365 + (if l then 1 else 0)"
  by (simp_all add: month_start_def)

lemma month_of_bounds:
  assumes "0 \<le> k" "k < month_start l 12"
  shows "0 \<le> month_of l k" "month_of l k < 12" "month_start l (month_of l k) \<le> k"
    "k < month_start l (month_of l k + 1)"
  using assms unfolding month_of_def by (cases l; auto simp: month_start_values)+

lemma month_start_step: "0 \<le> m \<Longrightarrow> m < 12 \<Longrightarrow> month_start l m + 28 \<le> month_start l (m + 1)"
  by (erule month_cases) (auto simp: month_start_values)

lemma month_start_mono:
  assumes "m \<le> n"
  shows "0 \<le> m \<Longrightarrow> n \<le> 12 \<Longrightarrow> month_start l m \<le> month_start l n"
  using assms
proof (induction n rule: int_ge_induct)
  case (step i)
  then show ?case using month_start_step [of i l] by auto
qed simp

lemma month_of_unique:
  assumes "0 \<le> m" "m < 12" "month_start l m \<le> k" "k < month_start l (m + 1)"
  shows "month_of l k = m"
proof (rule ccontr)
  have k: "0 \<le> k" "k < month_start l 12"
    using assms month_start_mono [of 0 m l] month_start_mono [of "m + 1" 12 l] by (auto simp: month_start_values)
  assume "month_of l k \<noteq> m"
  then have "m + 1 \<le> month_of l k \<or> month_of l k + 1 \<le> m" by linarith
  with month_start_mono [of "m + 1" "month_of l k" l] month_start_mono [of "month_of l k + 1" m l]
    month_of_bounds [OF k] assms show False by auto
qed

section \<open>Calendar fields\<close>

record calendar_parts =
  cp_year :: int
  cp_month :: int
  cp_day :: int
  cp_hour :: int
  cp_minute :: int
  cp_second :: int
  cp_millisecond :: int

definition MS_PER_DAY :: int where
  "MS_PER_DAY = 86400000"

text \<open>\<open>MakeDay\<close> with a month counted from 0 and not normalised, \<open>MakeTime\<close> and \<open>MakeDate\<close>.\<close>

definition make_day :: "int \<Rightarrow> int \<Rightarrow> int \<Rightarrow> int" where
  "make_day y mn dt =
     (let ym = y + mn div 12 in day_from_year ym + month_start (leap ym) (mn mod 12) + dt - 1)"

definition make_time :: "int \<Rightarrow> int \<Rightarrow> int \<Rightarrow> int \<Rightarrow> int" where
  "make_time h m s ms = 3600000 * h + 60000 * m + 1000 * s + ms"

definition epoch_of :: "calendar_parts \<Rightarrow> int" where
  "epoch_of p =
     MS_PER_DAY * make_day (cp_year p) (cp_month p - 1) (cp_day p)
     + make_time (cp_hour p) (cp_minute p) (cp_second p) (cp_millisecond p)"

text \<open>The \<open>getUTC\<close> accessors of an instant, the month counted from 1.\<close>

definition parts_of :: "int \<Rightarrow> calendar_parts" where
  "parts_of e =
     (let d = e div MS_PER_DAY; t = e mod MS_PER_DAY;
          y = year_of_day d; k = d - day_from_year y; m = month_of (leap y) k
      in \<lparr>cp_year = y, cp_month = m + 1, cp_day = k - month_start (leap y) m + 1,
          cp_hour = t div 3600000, cp_minute = t div 60000 mod 60, cp_second = t div 1000 mod 60,
          cp_millisecond = t mod 1000\<rparr>)"

text \<open>A date of the calendar and a time of the day.\<close>

definition real_date :: "calendar_parts \<Rightarrow> bool" where
  "real_date p \<longleftrightarrow>
     1 \<le> cp_month p \<and> cp_month p \<le> 12 \<and> 1 \<le> cp_day p
     \<and> cp_day p \<le> month_start (leap (cp_year p)) (cp_month p) - month_start (leap (cp_year p)) (cp_month p - 1)
     \<and> 0 \<le> cp_hour p \<and> cp_hour p < 24 \<and> 0 \<le> cp_minute p \<and> cp_minute p < 60
     \<and> 0 \<le> cp_second p \<and> cp_second p < 60 \<and> 0 \<le> cp_millisecond p \<and> cp_millisecond p < 1000"

lemma make_time_fields:
  fixes t :: int
  shows "make_time (t div 3600000) (t div 60000 mod 60) (t div 1000 mod 60) (t mod 1000) = t"
proof -
  define a b c where "a = t div 1000" and "b = a div 60" and "c = b div 60"
  have "t div 60000 = b" "t div 3600000 = c" by (simp_all add: a_def b_def c_def flip: zdiv_zmult2_eq)
  moreover have "t mod 1000 = t - 1000 * a" by (simp add: a_def minus_mult_div_eq_mod)
  moreover have "a mod 60 = a - 60 * b" by (simp add: b_def minus_mult_div_eq_mod)
  moreover have "b mod 60 = b - 60 * c" by (simp add: c_def minus_mult_div_eq_mod)
  moreover have "t div 1000 = a" by (simp add: a_def)
  ultimately have "make_time (t div 3600000) (t div 60000 mod 60) (t div 1000 mod 60) (t mod 1000) =
      3600000 * c + 60000 * (b - 60 * c) + 1000 * (a - 60 * b) + (t - 1000 * a)"
    by (simp only: make_time_def)
  then show ?thesis by simp
qed

lemma make_time_reads:
  fixes h m s ms :: int
  assumes "0 \<le> m" "m < 60" "0 \<le> s" "s < 60" "0 \<le> ms" "ms < 1000"
  defines "t \<equiv> make_time h m s ms"
  shows "t div 3600000 = h" "t div 60000 mod 60 = m" "t div 1000 mod 60 = s" "t mod 1000 = ms"
proof -
  have t: "t = (60000 * m + 1000 * s + ms) + h * 3600000" "t = (1000 * s + ms) + (60 * h + m) * 60000"
    "t = ms + (3600 * h + 60 * m + s) * 1000"
    by (simp_all add: t_def make_time_def)
  have small: "60000 * m + 1000 * s + ms < 3600000" "1000 * s + ms < 60000" using assms by linarith+
  show "t div 3600000 = h" using assms small by (subst t(1), subst div_mult_self1) auto
  have 60: "t div 60000 = m + h * 60" using assms small by (subst t(2), subst div_mult_self1) auto
  show "t div 60000 mod 60 = m" using assms by (subst 60, subst mod_mult_self1) simp
  have 1: "t div 1000 = s + (60 * h + m) * 60" using assms by (subst t(3), subst div_mult_self1) auto
  show "t div 1000 mod 60 = s" using assms by (subst 1, subst mod_mult_self1) simp
  show "t mod 1000 = ms" using assms by (subst t(3), subst mod_mult_self1) auto
qed

lemma day_in_year:
  fixes d :: int
  defines "k \<equiv> d - day_from_year (year_of_day d)"
  shows "0 \<le> k" "k < month_start (leap (year_of_day d)) 12"
  using year_of_day_bounds [of d] day_from_year_step [of "year_of_day d"]
  by (auto simp: k_def month_start_values split: if_splits)

lemma epoch_of_parts [simp]: "epoch_of (parts_of e) = e"
proof -
  define d t where "d = e div MS_PER_DAY" and "t = e mod MS_PER_DAY"
  define m where "m = month_of (leap (year_of_day d)) (d - day_from_year (year_of_day d))"
  have "0 \<le> m" "m < 12" using month_of_bounds [OF day_in_year] by (simp_all add: m_def)
  then have "make_day (year_of_day d) m (d - day_from_year (year_of_day d) - month_start (leap (year_of_day d)) m + 1) = d"
    by (simp add: make_day_def Let_def)
  then show ?thesis
    by (simp add: epoch_of_def parts_of_def Let_def make_time_fields flip: d_def t_def m_def)
      (simp add: d_def t_def)
qed

lemma real_date_parts: "real_date (parts_of e)"
proof -
  define d t where "d = e div MS_PER_DAY" and "t = e mod MS_PER_DAY"
  have "0 \<le> t" "t < 86400000" by (simp_all add: t_def MS_PER_DAY_def)
  then have "0 \<le> t div 3600000" "t div 3600000 < 24" by (simp_all add: div_less_iff_less_mult pos_imp_zdiv_nonneg_iff)
  then show ?thesis
    using month_of_bounds [OF day_in_year, of d]
    by (simp add: real_date_def parts_of_def Let_def flip: d_def t_def)
qed

lemma parts_of_epoch:
  assumes "real_date p"
  shows "parts_of (epoch_of p) = p"
proof -
  define y m k where "y = cp_year p" and "m = cp_month p - 1" and "k = month_start (leap y) m + cp_day p - 1"
  define t where "t = make_time (cp_hour p) (cp_minute p) (cp_second p) (cp_millisecond p)"
  have r: "0 \<le> m" "m < 12" "month_start (leap y) m \<le> k" "k < month_start (leap y) (m + 1)"
    using assms by (simp_all add: real_date_def y_def m_def k_def)
  have "0 \<le> k" "k < month_start (leap y) 12"
    using r month_start_mono [of 0 m "leap y"] month_start_mono [of "m + 1" 12 "leap y"]
    by (auto simp: month_start_values)
  with day_from_year_step [of y] have y: "year_of_day (day_from_year y + k) = y"
    by (intro year_of_day_unique) (auto simp: month_start_values split: if_splits)
  have m: "month_of (leap y) k = m" using r by (rule month_of_unique)
  have t: "0 \<le> t" "t < MS_PER_DAY"
    using assms by (simp_all add: t_def make_time_def MS_PER_DAY_def real_date_def)
  have "epoch_of p = MS_PER_DAY * (day_from_year y + k) + t"
    using r(1,2) by (simp add: epoch_of_def make_day_def k_def Let_def t_def y_def m_def add_diff_eq)
  with t have e: "epoch_of p div MS_PER_DAY = day_from_year y + k" "epoch_of p mod MS_PER_DAY = t"
    by (simp_all add: int_div_pos_eq int_mod_pos_eq)
  have c: "t div 3600000 = cp_hour p" "t div 60000 mod 60 = cp_minute p" "t div 1000 mod 60 = cp_second p"
    "t mod 1000 = cp_millisecond p"
    using make_time_reads [of "cp_minute p" "cp_second p" "cp_millisecond p" "cp_hour p", folded t_def] assms
    by (simp_all add: real_date_def)
  have d: "day_from_year y + k - day_from_year y = k" by simp
  show ?thesis
    unfolding parts_of_def Let_def e y d m c by (simp add: k_def m_def y_def)
qed

lemma parts_of_epoch_iff: "parts_of (epoch_of p) = p \<longleftrightarrow> real_date p"
  by (metis parts_of_epoch real_date_parts)

section \<open>Instants of the years 1 to 9999\<close>

definition MIN_FOUR_DIGIT_YEAR_MS :: int where
  "MIN_FOUR_DIGIT_YEAR_MS = -62135596800000"

definition MAX_FOUR_DIGIT_YEAR_MS :: int where
  "MAX_FOUR_DIGIT_YEAR_MS = 253402300799999"

definition four_digit_year :: "int \<Rightarrow> bool" where
  "four_digit_year e \<longleftrightarrow> MIN_FOUR_DIGIT_YEAR_MS \<le> e \<and> e \<le> MAX_FOUR_DIGIT_YEAR_MS"

text \<open>\<open>toISOString\<close>; a year outside 0 to 9999 is written with a sign and six digits.\<close>

definition year_text :: "int \<Rightarrow> string" where
  "year_text y =
     (if 0 \<le> y \<and> y \<le> 9999 then pad 4 y else (if y < 0 then CHR ''-'' else CHR ''+'') # pad 6 \<bar>y\<bar>)"

definition parts_text :: "calendar_parts \<Rightarrow> string" where
  "parts_text p =
     year_text (cp_year p) @ CHR ''-'' # pad 2 (cp_month p) @ CHR ''-'' # pad 2 (cp_day p) @ CHR ''T'' #
     pad 2 (cp_hour p) @ CHR '':'' # pad 2 (cp_minute p) @ CHR '':'' # pad 2 (cp_second p) @ CHR ''.'' #
     pad 3 (cp_millisecond p) @ ''Z''"

definition toISOString :: "int \<Rightarrow> string" where
  "toISOString e = parts_text (parts_of e)"

text \<open>
  The fields of a text of the profile \<open>dddd-dd-ddTdd:dd:dd.dddZ\<close>, the regular expression
  \<open>UTC_INSTANT\<close> which restricts them, and \<open>Date.parse\<close> on its subjects. The engine of the repository
  (V8) carries a day past the end of its month over into the next one; the standard would have it
  return NaN there, and the comparison with \<open>toISOString\<close> rejects either result. Text outside the
  profile is never parsed; the model returns NaN (\<open>None\<close>).
\<close>

definition utc_fields :: "string \<Rightarrow> calendar_parts option" where
  "utc_fields s0 =
     Option.bind (take_digits 4 s0) (\<lambda>(y, s1). Option.bind (take_char (CHR ''-'') s1) (\<lambda>s2.
     Option.bind (take_digits 2 s2) (\<lambda>(mo, s3). Option.bind (take_char (CHR ''-'') s3) (\<lambda>s4.
     Option.bind (take_digits 2 s4) (\<lambda>(d, s5). Option.bind (take_char (CHR ''T'') s5) (\<lambda>s6.
     Option.bind (take_digits 2 s6) (\<lambda>(h, s7). Option.bind (take_char (CHR '':'') s7) (\<lambda>s8.
     Option.bind (take_digits 2 s8) (\<lambda>(mi, s9). Option.bind (take_char (CHR '':'') s9) (\<lambda>s10.
     Option.bind (take_digits 2 s10) (\<lambda>(sec, s11). Option.bind (take_char (CHR ''.'') s11) (\<lambda>s12.
     Option.bind (take_digits 3 s12) (\<lambda>(ms, s13).
       if s13 = ''Z''
       then Some \<lparr>cp_year = y, cp_month = mo, cp_day = d, cp_hour = h, cp_minute = mi, cp_second = sec,
                  cp_millisecond = ms\<rparr>
       else None)))))))))))))"

definition UTC_INSTANT :: "string \<Rightarrow> bool" where
  "UTC_INSTANT s =
     (case utc_fields s of
        None \<Rightarrow> False
      | Some p \<Rightarrow> cp_year p \<noteq> 0 \<and> 1 \<le> cp_month p \<and> cp_month p \<le> 12 \<and> 1 \<le> cp_day p \<and> cp_day p \<le> 31
          \<and> cp_hour p \<le> 23 \<and> cp_minute p \<le> 59 \<and> cp_second p \<le> 59)"

definition date_parse :: "string \<Rightarrow> int option" where
  "date_parse s = (if UTC_INSTANT s then map_option epoch_of (utc_fields s) else None)"

definition canonical_instant :: "string \<Rightarrow> bool" where
  "canonical_instant s = (case date_parse s of None \<Rightarrow> False | Some e \<Rightarrow> toISOString e = s)"

lemma utc_fields_Some:
  "utc_fields s = Some p \<longleftrightarrow>
     s = parts_text p \<and> 0 \<le> cp_year p \<and> cp_year p < 10 ^ 4 \<and> 0 \<le> cp_month p \<and> cp_month p < 10 ^ 2
     \<and> 0 \<le> cp_day p \<and> cp_day p < 10 ^ 2 \<and> 0 \<le> cp_hour p \<and> cp_hour p < 10 ^ 2
     \<and> 0 \<le> cp_minute p \<and> cp_minute p < 10 ^ 2 \<and> 0 \<le> cp_second p \<and> cp_second p < 10 ^ 2
     \<and> 0 \<le> cp_millisecond p \<and> cp_millisecond p < 10 ^ 3"
proof -
  have y: "0 \<le> y \<Longrightarrow> y < 10 ^ 4 \<Longrightarrow> year_text y = pad 4 y" for y by (simp add: year_text_def)
  show ?thesis
    by (cases p)
      (auto simp: utc_fields_def parts_text_def bind_eq_Some_conv take_digits_Some take_char_Some y
        simp del: pad.simps split: if_splits)
qed

lemma month_length: "0 \<le> m \<Longrightarrow> m < 12 \<Longrightarrow> month_start l (m + 1) - month_start l m \<le> 31"
  by (erule month_cases) (auto simp: month_start_values)

lemma year_in_range: "1 \<le> cp_year (parts_of e) \<and> cp_year (parts_of e) \<le> 9999 \<longleftrightarrow> four_digit_year e"
proof -
  define d where "d = e div MS_PER_DAY"
  note b = year_of_day_bounds [of d]
  obtain r where r: "e = 86400000 * d + r" "0 \<le> r" "r < 86400000"
    by (rule that [of "e mod 86400000"]) (simp_all add: d_def MS_PER_DAY_def)
  have v: "day_from_year 1 = -719162" "day_from_year 10000 = 2932897" by (simp_all add: day_from_year_def)
  have "1 \<le> year_of_day d \<longleftrightarrow> -719162 \<le> d"
    using b day_from_year_mono [of 1 "year_of_day d"] day_from_year_mono [of "year_of_day d + 1" 1] v by force
  moreover have "year_of_day d \<le> 9999 \<longleftrightarrow> d < 2932897"
    using b day_from_year_mono [of "year_of_day d + 1" 10000] day_from_year_mono [of 10000 "year_of_day d"] v by force
  moreover have "-719162 \<le> d \<longleftrightarrow> MIN_FOUR_DIGIT_YEAR_MS \<le> e" "d < 2932897 \<longleftrightarrow> e \<le> MAX_FOUR_DIGIT_YEAR_MS"
    using r unfolding MIN_FOUR_DIGIT_YEAR_MS_def MAX_FOUR_DIGIT_YEAR_MS_def by linarith+
  ultimately show ?thesis by (simp add: parts_of_def Let_def four_digit_year_def flip: d_def)
qed

lemma utc_fields_iso: "four_digit_year e \<Longrightarrow> utc_fields (toISOString e) = Some (parts_of e)"
  using real_date_parts [of e] year_in_range [of e] month_length [of "cp_month (parts_of e) - 1" "leap (cp_year (parts_of e))"]
  by (simp add: utc_fields_Some toISOString_def real_date_def)

lemma UTC_INSTANT_iso: "four_digit_year e \<Longrightarrow> UTC_INSTANT (toISOString e)"
  using real_date_parts [of e] year_in_range [of e] month_length [of "cp_month (parts_of e) - 1" "leap (cp_year (parts_of e))"]
  by (simp add: UTC_INSTANT_def utc_fields_iso real_date_def)

lemma date_parse_iso [simp]: "four_digit_year e \<Longrightarrow> date_parse (toISOString e) = Some e"
  by (simp add: date_parse_def UTC_INSTANT_iso utc_fields_iso)

lemma canonical_instant_iff: "canonical_instant s \<longleftrightarrow> (\<exists>e. four_digit_year e \<and> s = toISOString e)"
proof
  assume "canonical_instant s"
  then obtain p where p: "utc_fields s = Some p" "UTC_INSTANT s" "toISOString (epoch_of p) = s"
    by (auto simp: canonical_instant_def date_parse_def split: option.splits if_splits)
  have s: "s = parts_text p" using p(1) by (simp add: utc_fields_Some)
  define q where "q = parts_of (epoch_of p)"
  have y: "0 \<le> cp_year p" "cp_year p \<le> 9999" using p(1) by (simp_all add: utc_fields_Some)
  have "cp_year p \<noteq> 0" using p(1,2) by (simp add: UTC_INSTANT_def)
  have len: "length s = 24" using y by (simp add: s parts_text_def year_text_def)
  have "parts_text q = s" using p(3) by (simp add: toISOString_def q_def)
  with len have q: "0 \<le> cp_year q" "cp_year q \<le> 9999" "length (year_text (cp_year q)) = 4"
    by (auto simp: parts_text_def year_text_def split: if_splits)
  then have "pad 4 (cp_year q) = pad 4 (cp_year p)"
    using \<open>parts_text q = s\<close> y by (simp add: s parts_text_def year_text_def del: pad.simps)
  then have "cp_year q = cp_year p" using q y by (simp add: pad_inject)
  then have "four_digit_year (epoch_of p)" using y \<open>cp_year p \<noteq> 0\<close> q year_in_range [of "epoch_of p"] by (simp add: q_def)
  with p(3) show "\<exists>e. four_digit_year e \<and> s = toISOString e" by metis
next
  assume "\<exists>e. four_digit_year e \<and> s = toISOString e"
  then show "canonical_instant s" by (auto simp: canonical_instant_def)
qed

lemma iso_inject: "four_digit_year a \<Longrightarrow> four_digit_year b \<Longrightarrow> toISOString a = toISOString b \<longleftrightarrow> a = b"
  using date_parse_iso by (metis option.inject)

text \<open>The setters of \<open>calendarEpoch\<close>: the date of a zero instant, then the time of its day.\<close>

definition time_clip :: "int \<Rightarrow> int option" where
  "time_clip t = (if \<bar>t\<bar> \<le> 8640000000000000 then Some t else None)"

definition setUTCFullYear :: "int \<Rightarrow> int \<Rightarrow> int \<Rightarrow> int \<Rightarrow> int option" where
  "setUTCFullYear t y mn dt = time_clip (MS_PER_DAY * make_day y mn dt + t mod MS_PER_DAY)"

definition setUTCHours :: "int \<Rightarrow> int \<Rightarrow> int \<Rightarrow> int \<Rightarrow> int \<Rightarrow> int option" where
  "setUTCHours t h m s ms = time_clip (MS_PER_DAY * (t div MS_PER_DAY) + make_time h m s ms)"

end
