(* ===== verification/Schedule_Domain.thy ===== *)
theory Schedule_Domain
  imports Session_Types Calendar "HOL-Library.List_Lexorder" "HOL-Library.Char_ord"
begin

text \<open>
  The durable reminder stream of schedule/schedule/src: the records and changes of types.ts, and of
  domain.ts the strict decoder of a \<open>schedule/change\<close> payload, the fold of a session's own events,
  the fixed-rate decision, the identity allocator and the constructors of the three kinds of
  record. The results: a string is decoded as an instant exactly when it is the canonical text of an
  instant of the years 1 to 9999; the payload written for a well-formed change decodes to that
  change; the fold keeps the used identities distinct and in creation order and every active record
  well formed; a fixed-rate dispatch moves the target to the first aligned instant after the
  decision; and an allocated identity is new.
\<close>

section \<open>Records and changes\<close>

datatype schedule_record =
    AfterRecord (sr_id: string) (sr_prompt: string) (sr_afterSeconds: int) (sr_scheduledAt: string)
  | AtRecord (sr_id: string) (sr_prompt: string) (sr_scheduledAt: string)
  | EveryRecord (sr_id: string) (sr_prompt: string) (sr_everySeconds: int) (sr_scheduledAt: string)

datatype schedule_change =
    CreateSchedule schedule_record
  | DeleteSchedule string
  | DispatchSchedule string "string option"

datatype schedule_error =
    PayloadNotRecord | ScheduleVersion | CreateKeys | DeleteKeys | DispatchKeys | ScheduleOperation
  | BadScheduleId | NotCanonical | NotARealInstant
  | RecordNotObject | BadScheduleKind | AfterKeys | AfterPrompt | BadAfterSeconds | AtKeys | AtPrompt
  | EveryKeys | EveryPrompt | BadEverySeconds
  | AcceptedAtRange | IntervalRange | DispatchTooEarly | OccurrenceRange
  | OneShotAcceptedAt | EveryNoAcceptedAt
  | IdReused string | DeleteInactive string | DispatchInactive string | InheritedRange

definition SCHEDULE_CHANGE_VERSION :: int where
  "SCHEDULE_CHANGE_VERSION = 1"

definition MIN_EVERY_INTERVAL_SECONDS :: int where
  "MIN_EVERY_INTERVAL_SECONDS = 300"

section \<open>The decoder\<close>

text \<open>The package's own \<open>isRecord\<close> excludes arrays; its \<open>hasExactKeys\<close> compares sorted keys.\<close>

fun plain_object :: "json option \<Rightarrow> bool" where
  "plain_object (Some v) = plain_record v"
| "plain_object None = False"

definition same_keys :: "json \<Rightarrow> string list \<Rightarrow> bool" where
  "same_keys v expected \<longleftrightarrow> sort (object_keys v) = sort expected"

definition decodeId :: "json option \<Rightarrow> schedule_error + string" where
  "decodeId v =
     (case v of
        Some (JStr s) \<Rightarrow> if length s = 0 \<or> js_trim s \<noteq> s then Inl BadScheduleId else Inr s
      | _ \<Rightarrow> Inl BadScheduleId)"

definition decodeInstant :: "json option \<Rightarrow> schedule_error + string" where
  "decodeInstant v =
     (case v of
        Some (JStr s) \<Rightarrow>
          if \<not> UTC_INSTANT s then Inl NotCanonical
          else (case date_parse s of
                  None \<Rightarrow> Inl NotARealInstant
                | Some epoch \<Rightarrow> if toISOString epoch \<noteq> s then Inl NotARealInstant else Inr s)
      | _ \<Rightarrow> Inl NotCanonical)"

definition decode_prompt :: "schedule_error \<Rightarrow> json option \<Rightarrow> schedule_error + string" where
  "decode_prompt err v =
     (case v of
        Some (JStr s) \<Rightarrow> if length s = 0 \<or> js_trim s \<noteq> s then Inl err else Inr s
      | _ \<Rightarrow> Inl err)"

definition decodeAfterRecord :: "json \<Rightarrow> schedule_error + schedule_record" where
  "decodeAfterRecord v =
     (if \<not> plain_record v \<or> \<not> same_keys v [''id'', ''kind'', ''prompt'', ''afterSeconds'', ''scheduledAt'']
      then Inl AfterKeys
      else rbind (decode_prompt AfterPrompt (jget v ''prompt'')) (\<lambda>prompt.
           rbind (case jget v ''afterSeconds'' of
                    Some (JNum n) \<Rightarrow>
                      if \<not> isSafeInteger n \<or> num_int n \<le> 0 then Inl BadAfterSeconds else Inr (num_int n)
                  | _ \<Rightarrow> Inl BadAfterSeconds) (\<lambda>afterSeconds.
           rbind (decodeId (jget v ''id'')) (\<lambda>i.
           rbind (decodeInstant (jget v ''scheduledAt'')) (\<lambda>scheduledAt.
           Inr (AfterRecord i prompt afterSeconds scheduledAt))))))"

definition decodeAtRecord :: "json \<Rightarrow> schedule_error + schedule_record" where
  "decodeAtRecord v =
     (if \<not> plain_record v \<or> \<not> same_keys v [''id'', ''kind'', ''prompt'', ''scheduledAt'']
      then Inl AtKeys
      else rbind (decode_prompt AtPrompt (jget v ''prompt'')) (\<lambda>prompt.
           rbind (decodeId (jget v ''id'')) (\<lambda>i.
           rbind (decodeInstant (jget v ''scheduledAt'')) (\<lambda>scheduledAt.
           Inr (AtRecord i prompt scheduledAt)))))"

text \<open>
  The product \<open>everySeconds * 1_000\<close> of a safe integer is a safe integer for the code exactly when
  the exact product is one: a larger product rounds to a double of at least \<open>2 ^ 53\<close>.
\<close>

definition decodeEveryRecord :: "json \<Rightarrow> schedule_error + schedule_record" where
  "decodeEveryRecord v =
     (if \<not> plain_record v \<or> \<not> same_keys v [''id'', ''kind'', ''prompt'', ''everySeconds'', ''scheduledAt'']
      then Inl EveryKeys
      else rbind (decode_prompt EveryPrompt (jget v ''prompt'')) (\<lambda>prompt.
           rbind (case jget v ''everySeconds'' of
                    Some (JNum n) \<Rightarrow>
                      if \<not> isSafeInteger n \<or> num_int n < MIN_EVERY_INTERVAL_SECONDS
                         \<or> \<not> isSafeInteger (NInt (num_int n * 1000))
                      then Inl BadEverySeconds else Inr (num_int n)
                  | _ \<Rightarrow> Inl BadEverySeconds) (\<lambda>everySeconds.
           rbind (decodeId (jget v ''id'')) (\<lambda>i.
           rbind (decodeInstant (jget v ''scheduledAt'')) (\<lambda>scheduledAt.
           Inr (EveryRecord i prompt everySeconds scheduledAt))))))"

definition decodeScheduleRecord :: "json option \<Rightarrow> schedule_error + schedule_record" where
  "decodeScheduleRecord value =
     (case value of
        None \<Rightarrow> Inl RecordNotObject
      | Some v \<Rightarrow>
          if \<not> plain_record v then Inl RecordNotObject
          else if jget v ''kind'' = Some (JStr ''after'') then decodeAfterRecord v
          else if jget v ''kind'' = Some (JStr ''at'') then decodeAtRecord v
          else if jget v ''kind'' = Some (JStr ''every'') then decodeEveryRecord v
          else Inl BadScheduleKind)"

definition decodeScheduleChange :: "json \<Rightarrow> schedule_error + schedule_change" where
  "decodeScheduleChange v =
     (if \<not> plain_record v then Inl PayloadNotRecord
      else if jget v ''version'' \<noteq> Some (JNum (NInt SCHEDULE_CHANGE_VERSION)) then Inl ScheduleVersion
      else if jget v ''operation'' = Some (JStr ''create'') then
        (if \<not> same_keys v [''version'', ''operation'', ''schedule''] then Inl CreateKeys
         else rbind (decodeScheduleRecord (jget v ''schedule'')) (\<lambda>r. Inr (CreateSchedule r)))
      else if jget v ''operation'' = Some (JStr ''delete'') then
        (if \<not> same_keys v [''version'', ''operation'', ''id''] then Inl DeleteKeys
         else rbind (decodeId (jget v ''id'')) (\<lambda>i. Inr (DeleteSchedule i)))
      else if jget v ''operation'' = Some (JStr ''dispatch'') then
        (if same_keys v [''version'', ''operation'', ''id''] then
           rbind (decodeId (jget v ''id'')) (\<lambda>i. Inr (DispatchSchedule i None))
         else if same_keys v [''version'', ''operation'', ''id'', ''acceptedAt''] then
           rbind (decodeId (jget v ''id'')) (\<lambda>i.
           rbind (decodeInstant (jget v ''acceptedAt'')) (\<lambda>t. Inr (DispatchSchedule i (Some t))))
         else Inl DispatchKeys)
      else Inl ScheduleOperation)"

section \<open>The fixed-rate decision\<close>

text \<open>
  The arguments are the record's interval and target and the decision time, \<open>None\<close> for NaN. The
  operands are integers below \<open>2 ^ 53\<close>, so the floor of the double quotient is the integer quotient.
\<close>

definition resolveEveryOccurrence ::
  "int \<Rightarrow> string \<Rightarrow> int option \<Rightarrow> schedule_error + string \<times> string option" where
  "resolveEveryOccurrence everySeconds scheduledAt accepted =
     (let interval = everySeconds * 1000 in
      case accepted of
        None \<Rightarrow> Inl AcceptedAtRange
      | Some acceptedAt \<Rightarrow>
          if \<not> isSafeInteger (NInt acceptedAt) \<or> acceptedAt < MIN_FOUR_DIGIT_YEAR_MS
             \<or> acceptedAt > MAX_FOUR_DIGIT_YEAR_MS then Inl AcceptedAtRange
          else if \<not> isSafeInteger (NInt interval) \<or> interval \<le> 0 then Inl IntervalRange
          else (case date_parse scheduledAt of
                  None \<Rightarrow> Inl OccurrenceRange
                | Some target \<Rightarrow>
                    if acceptedAt < target then Inl DispatchTooEarly
                    else
                      let steps = (acceptedAt - target) div interval;
                          occurrence = target + steps * interval;
                          nxt = occurrence + interval
                      in if \<not> isSafeInteger (NInt occurrence) \<or> occurrence < target \<or> occurrence > acceptedAt
                         then Inl OccurrenceRange
                         else if \<not> isSafeInteger (NInt nxt) \<or> nxt > MAX_FOUR_DIGIT_YEAR_MS
                         then Inr (toISOString occurrence, None)
                         else Inr (toISOString occurrence, Some (toISOString nxt))))"

fun dispatchedRecord :: "schedule_record \<Rightarrow> string option \<Rightarrow> schedule_error + schedule_record option" where
  "dispatchedRecord (EveryRecord i prompt everySeconds scheduledAt) acceptedAt =
     (case acceptedAt of
        None \<Rightarrow> Inl EveryNoAcceptedAt
      | Some t \<Rightarrow>
          rbind (resolveEveryOccurrence everySeconds scheduledAt (date_parse t)) (\<lambda>(_, nxt).
            Inr (map_option (EveryRecord i prompt everySeconds) nxt)))"
| "dispatchedRecord r acceptedAt = (if acceptedAt \<noteq> None then Inl OneShotAcceptedAt else Inr None)"

section \<open>The fold\<close>

text \<open>The fold value, and the mutable map and set that span a batch.\<close>

record folded_schedules =
  fs_active :: "schedule_record list"
  fs_seenIds :: "string list"

record schedule_batch =
  sb_active :: "(string \<times> schedule_record) list"
  sb_seen :: "string list"

definition open_batch :: "folded_schedules \<Rightarrow> schedule_batch" where
  "open_batch fs =
     \<lparr>sb_active = foldl (\<lambda>m r. map_set (sr_id r) r m) [] (fs_active fs),
      sb_seen = foldl (\<lambda>s i. set_add i s) [] (fs_seenIds fs)\<rparr>"

definition close_batch :: "schedule_batch \<Rightarrow> folded_schedules" where
  "close_batch b = \<lparr>fs_active = map snd (sb_active b), fs_seenIds = sb_seen b\<rparr>"

fun change_step :: "schedule_batch \<Rightarrow> schedule_change \<Rightarrow> schedule_error + schedule_batch" where
  "change_step b (CreateSchedule r) =
     (if sr_id r \<in> set (sb_seen b) then Inl (IdReused (sr_id r))
      else Inr \<lparr>sb_active = map_set (sr_id r) r (sb_active b), sb_seen = set_add (sr_id r) (sb_seen b)\<rparr>)"
| "change_step b (DeleteSchedule i) =
     (case map_of (sb_active b) i of
        None \<Rightarrow> Inl (DeleteInactive i)
      | Some _ \<Rightarrow> Inr (b\<lparr>sb_active := map_delete i (sb_active b)\<rparr>))"
| "change_step b (DispatchSchedule i acceptedAt) =
     (case map_of (sb_active b) i of
        None \<Rightarrow> Inl (DispatchInactive i)
      | Some r \<Rightarrow>
          rbind (dispatchedRecord r acceptedAt) (\<lambda>nxt.
            case nxt of
              None \<Rightarrow> Inr (b\<lparr>sb_active := map_delete i (sb_active b)\<rparr>)
            | Some r' \<Rightarrow> Inr (b\<lparr>sb_active := map_set i r' (sb_active b)\<rparr>)))"

definition applyScheduleChanges :: "folded_schedules \<Rightarrow> schedule_change list \<Rightarrow> schedule_error + folded_schedules" where
  "applyScheduleChanges fs changes =
     rbind (run change_step (open_batch fs) changes) (\<lambda>b. Inr (close_batch b))"

text \<open>The generator decodes an event when the loop reaches it.\<close>

definition schedule_event_step :: "schedule_batch \<Rightarrow> session_event \<Rightarrow> schedule_error + schedule_batch" where
  "schedule_event_step b e =
     (case ev_data e of
        ScheduleChange d \<Rightarrow> rbind (decodeScheduleChange d) (change_step b)
      | _ \<Rightarrow> Inr b)"

definition no_schedules :: folded_schedules where
  "no_schedules = \<lparr>fs_active = [], fs_seenIds = []\<rparr>"

definition foldScheduleEvents :: "session_event list \<Rightarrow> nat \<Rightarrow> schedule_error + folded_schedules" where
  "foldScheduleEvents events inherited =
     (if length events < inherited then Inl InheritedRange
      else rbind (run schedule_event_step (open_batch no_schedules) (drop inherited events))
             (\<lambda>b. Inr (close_batch b)))"

section \<open>Identities\<close>

definition sequence_id :: "nat \<Rightarrow> string" where
  "sequence_id n = ''schedule-'' @ show_nat n"

lemma sequence_id_inject [simp]: "sequence_id m = sequence_id n \<longleftrightarrow> m = n"
  by (simp add: sequence_id_def)

text \<open>The candidates from a sequence number on that are used; every collision removes one.\<close>

lemma finite_taken: "finite {m. n \<le> m \<and> sequence_id m \<in> set seen}"
  by (rule finite_subset [OF _ finite_vimageI [of "set seen" sequence_id]]) (auto simp: inj_def)

function allocate_from :: "string list \<Rightarrow> nat \<Rightarrow> string" where
  "allocate_from seen n =
     (if sequence_id n \<in> set seen then allocate_from seen (Suc n) else sequence_id n)"
  by pat_completeness auto
termination
proof (relation "measure (\<lambda>(seen, n). card {m. n \<le> m \<and> sequence_id m \<in> set seen})", simp)
  fix seen n
  assume "sequence_id n \<in> set seen"
  then have "n \<in> {m. n \<le> m \<and> sequence_id m \<in> set seen}" by simp
  moreover have "n \<notin> {m. Suc n \<le> m \<and> sequence_id m \<in> set seen}" by simp
  moreover have "{m. Suc n \<le> m \<and> sequence_id m \<in> set seen} \<subseteq> {m. n \<le> m \<and> sequence_id m \<in> set seen}" by auto
  ultimately have "{m. Suc n \<le> m \<and> sequence_id m \<in> set seen} \<subset> {m. n \<le> m \<and> sequence_id m \<in> set seen}" by blast
  then show "((seen, Suc n), seen, n) \<in> measure (\<lambda>(seen, n). card {m. n \<le> m \<and> sequence_id m \<in> set seen})"
    by (simp add: psubset_card_mono [OF finite_taken])
qed

declare allocate_from.simps [simp del]

definition allocateScheduleId :: "folded_schedules \<Rightarrow> string" where
  "allocateScheduleId fs = allocate_from (fs_seenIds fs) (length (remdups (fs_seenIds fs)) + 1)"

section \<open>Well-formed records and their payloads\<close>

fun rule_ok :: "schedule_record \<Rightarrow> bool" where
  "rule_ok (AfterRecord _ _ n _) = (0 < n \<and> n \<le> MAX_SAFE_INTEGER)"
| "rule_ok (AtRecord _ _ _) = True"
| "rule_ok (EveryRecord _ _ n _) = (MIN_EVERY_INTERVAL_SECONDS \<le> n \<and> n * 1000 \<le> MAX_SAFE_INTEGER)"

definition schedule_ok :: "schedule_record \<Rightarrow> bool" where
  "schedule_ok r \<longleftrightarrow>
     normalString (sr_id r) \<and> normalString (sr_prompt r) \<and> canonical_instant (sr_scheduledAt r) \<and> rule_ok r"

fun schedule_change_ok :: "schedule_change \<Rightarrow> bool" where
  "schedule_change_ok (CreateSchedule r) = schedule_ok r"
| "schedule_change_ok (DeleteSchedule i) = normalString i"
| "schedule_change_ok (DispatchSchedule i t) = (normalString i \<and> (case t of None \<Rightarrow> True | Some a \<Rightarrow> canonical_instant a))"

text \<open>The object literals that the tools and the runtime append.\<close>

fun record_json :: "schedule_record \<Rightarrow> json" where
  "record_json (AfterRecord i p n s) =
     JObj [(''id'', JStr i), (''kind'', JStr ''after''), (''prompt'', JStr p), (''afterSeconds'', JNum (NInt n)),
           (''scheduledAt'', JStr s)]"
| "record_json (AtRecord i p s) =
     JObj [(''id'', JStr i), (''kind'', JStr ''at''), (''prompt'', JStr p), (''scheduledAt'', JStr s)]"
| "record_json (EveryRecord i p n s) =
     JObj [(''id'', JStr i), (''kind'', JStr ''every''), (''prompt'', JStr p), (''everySeconds'', JNum (NInt n)),
           (''scheduledAt'', JStr s)]"

fun schedule_json :: "schedule_change \<Rightarrow> json" where
  "schedule_json (CreateSchedule r) =
     JObj [(''version'', JNum (NInt 1)), (''operation'', JStr ''create''), (''schedule'', record_json r)]"
| "schedule_json (DeleteSchedule i) =
     JObj [(''version'', JNum (NInt 1)), (''operation'', JStr ''delete''), (''id'', JStr i)]"
| "schedule_json (DispatchSchedule i t) =
     JObj ([(''version'', JNum (NInt 1)), (''operation'', JStr ''dispatch''), (''id'', JStr i)]
           @ opt_field ''acceptedAt'' (map_option JStr t))"

lemma normalString_iff: "normalString s \<longleftrightarrow> length s \<noteq> 0 \<and> js_trim s = s"
  by (auto simp: normalString_def)

lemma decodeId_Inr: "decodeId v = Inr s \<longleftrightarrow> v = Some (JStr s) \<and> normalString s"
  by (auto simp: decodeId_def normalString_iff split: option.splits json.splits)

lemma decode_prompt_Inr: "decode_prompt err v = Inr s \<longleftrightarrow> v = Some (JStr s) \<and> normalString s"
  by (auto simp: decode_prompt_def normalString_iff split: option.splits json.splits)

lemma decodeInstant_Inr: "decodeInstant v = Inr s \<longleftrightarrow> v = Some (JStr s) \<and> canonical_instant s"
proof -
  have "UTC_INSTANT s \<Longrightarrow> date_parse s \<noteq> None" for s
    by (auto simp: date_parse_def UTC_INSTANT_def split: option.splits)
  moreover have "date_parse s \<noteq> None \<Longrightarrow> UTC_INSTANT s" for s
    by (auto simp: date_parse_def split: if_splits)
  ultimately show ?thesis
    by (cases v) (auto simp: decodeInstant_def canonical_instant_def split: option.splits json.splits)
qed

lemmas schedule_field_simps = decodeId_Inr decode_prompt_Inr decodeInstant_Inr rbind_Inr_iff

lemma same_keys_refl [simp]: "same_keys (JObj kvs) (map fst kvs)"
  by (simp add: same_keys_def)

lemma safe_positive: "isSafeInteger n \<Longrightarrow> 0 < num_int n \<Longrightarrow> num_int n \<le> MAX_SAFE_INTEGER"
  by (cases n) auto

lemma decode_record_ok: "decodeScheduleRecord v = Inr r \<Longrightarrow> schedule_ok r"
  by (auto simp: decodeScheduleRecord_def decodeAfterRecord_def decodeAtRecord_def decodeEveryRecord_def
      schedule_field_simps schedule_ok_def safe_positive not_le not_less
      split: option.splits if_splits json.splits)

lemma decode_change_ok: "decodeScheduleChange v = Inr ch \<Longrightarrow> schedule_change_ok ch"
  by (auto simp: decodeScheduleChange_def schedule_field_simps decode_record_ok split: if_splits)

lemma decode_record_json: "schedule_ok r \<Longrightarrow> decodeScheduleRecord (Some (record_json r)) = Inr r"
  by (cases r)
    (simp_all add: decodeScheduleRecord_def decodeAfterRecord_def decodeAtRecord_def decodeEveryRecord_def
      same_keys_def schedule_field_simps schedule_ok_def MIN_EVERY_INTERVAL_SECONDS_def)

lemma decode_schedule_json: "schedule_change_ok ch \<Longrightarrow> decodeScheduleChange (schedule_json ch) = Inr ch"
  by (cases ch)
    (auto simp: decodeScheduleChange_def SCHEDULE_CHANGE_VERSION_def same_keys_def schedule_field_simps
      decode_record_json opt_field_def split: option.splits)


text \<open>
  The payload written for a change decodes to that change exactly when the change is well
  formed: trimmed identities and prompts, canonical instants, and a delay or interval in its bounds.
\<close>

theorem schedule_changes_decode_exactly:
  "decodeScheduleChange (schedule_json ch) = Inr ch \<longleftrightarrow> schedule_change_ok ch"
  by (blast intro: decode_schedule_json decode_change_ok)

section \<open>Fixed-rate targets\<close>

text \<open>
  What a record may become: a one-shot never changes, a fixed-rate one only moves its target by
  whole intervals.
\<close>

definition advanced_by :: "int \<Rightarrow> string \<Rightarrow> string \<Rightarrow> bool" where
  "advanced_by n s0 s =
     (case (date_parse s0, date_parse s) of
        (Some t0, Some t) \<Rightarrow> t0 \<le> t \<and> (t - t0) mod (n * 1000) = 0
      | _ \<Rightarrow> False)"

fun descends :: "schedule_record \<Rightarrow> schedule_record \<Rightarrow> bool" where
  "descends (EveryRecord i p n s0) (EveryRecord j q m s) = (i = j \<and> p = q \<and> n = m \<and> advanced_by n s0 s)"
| "descends r0 r = (r0 = r)"

lemma canonical_parse:
  "canonical_instant s \<Longrightarrow> \<exists>t. date_parse s = Some t \<and> toISOString t = s \<and> four_digit_year t"
  unfolding canonical_instant_iff by auto

lemma four_digit_safe: "four_digit_year t \<Longrightarrow> \<bar>t\<bar> \<le> MAX_SAFE_INTEGER"
  by (auto simp: four_digit_year_def MIN_FOUR_DIGIT_YEAR_MS_def MAX_FOUR_DIGIT_YEAR_MS_def MAX_SAFE_INTEGER_def)

lemma floor_step:
  fixes a t k :: int
  assumes "0 < k" "t \<le> a"
  defines "q \<equiv> (a - t) div k"
  shows "0 \<le> q" "t \<le> t + q * k" "t + q * k \<le> a" "a < t + q * k + k"
proof -
  have "a - t = k * q + (a - t) mod k" "0 \<le> (a - t) mod k" "(a - t) mod k < k" "0 \<le> q"
    using assms by (simp_all add: pos_imp_zdiv_nonneg_iff)
  moreover have "k * q = q * k" by simp
  moreover have "0 \<le> q * k" using \<open>0 \<le> q\<close> assms(1) by simp
  ultimately show "0 \<le> q" "t \<le> t + q * k" "t + q * k \<le> a" "a < t + q * k + k" by linarith+
qed

text \<open>The decision for a target and a decision time in range: the latest aligned instant due.\<close>

definition latest_due :: "int \<Rightarrow> int \<Rightarrow> int \<Rightarrow> int" where
  "latest_due interval target now = target + (now - target) div interval * interval"

lemma latest_due_bounds:
  assumes "0 < k" "t \<le> a"
  shows "t \<le> latest_due k t a" "latest_due k t a \<le> a" "a < latest_due k t a + k"
    "(latest_due k t a - t) mod k = 0"
  using floor_step [OF assms] by (simp_all add: latest_due_def)

lemma resolve_every:
  assumes n: "MIN_EVERY_INTERVAL_SECONDS \<le> n" "n * 1000 \<le> MAX_SAFE_INTEGER"
    and t: "four_digit_year t" and a: "four_digit_year a" and due: "t \<le> a"
  defines "d \<equiv> latest_due (n * 1000) t a"
  shows "resolveEveryOccurrence n (toISOString t) (Some a) =
      Inr (toISOString d,
        if d + n * 1000 \<le> MAX_FOUR_DIGIT_YEAR_MS then Some (toISOString (d + n * 1000)) else None)"
proof -
  have k: "0 < n * 1000" using n(1) by (simp add: MIN_EVERY_INTERVAL_SECONDS_def)
  note o = latest_due_bounds [OF k due]
  have "four_digit_year d" using o(1,2) t a by (simp add: d_def four_digit_year_def)
  then have "\<bar>d\<bar> \<le> MAX_SAFE_INTEGER" by (rule four_digit_safe)
  moreover have "d + n * 1000 \<le> MAX_FOUR_DIGIT_YEAR_MS \<Longrightarrow> \<bar>d + n * 1000\<bar> \<le> MAX_SAFE_INTEGER"
    using \<open>four_digit_year d\<close> k
    by (auto simp: four_digit_year_def MIN_FOUR_DIGIT_YEAR_MS_def MAX_FOUR_DIGIT_YEAR_MS_def MAX_SAFE_INTEGER_def)
  ultimately show ?thesis
    using o n k t a due four_digit_safe [OF a]
    unfolding resolveEveryOccurrence_def Let_def latest_due_def [symmetric]
    by (auto simp: d_def four_digit_year_def)
qed

lemma resolve_every_Inr:
  assumes "resolveEveryOccurrence n s accepted = Inr (occ, nxt)" "canonical_instant s"
    "MIN_EVERY_INTERVAL_SECONDS \<le> n" "n * 1000 \<le> MAX_SAFE_INTEGER"
  obtains t a where "date_parse s = Some t" "toISOString t = s" "four_digit_year t" "accepted = Some a"
    "four_digit_year a" "t \<le> a" "occ = toISOString (latest_due (n * 1000) t a)"
    "nxt = (let d = latest_due (n * 1000) t a in
            if d + n * 1000 \<le> MAX_FOUR_DIGIT_YEAR_MS then Some (toISOString (d + n * 1000)) else None)"
proof -
  obtain t where t: "date_parse s = Some t" "toISOString t = s" "four_digit_year t"
    using canonical_parse [OF assms(2)] by blast
  obtain a where a: "accepted = Some a" "four_digit_year a" "t \<le> a"
    using assms(1) t(1)
    by (auto simp: resolveEveryOccurrence_def Let_def four_digit_year_def split: option.splits if_splits)
  from resolve_every [OF assms(3,4) t(3) a(2,3)] assms(1) a(1) t show thesis
    by (intro that [of t a]) (use a in \<open>simp_all add: Let_def\<close>)
qed

lemma dispatched_record:
  assumes "dispatchedRecord r a = Inr (Some r')" "schedule_ok r"
  shows "schedule_ok r' \<and> sr_id r' = sr_id r \<and> descends r r' \<and>
    (\<exists>t t' now. date_parse (sr_scheduledAt r) = Some t \<and> date_parse (sr_scheduledAt r') = Some t' \<and>
       Option.bind a date_parse = Some now \<and> t \<le> now \<and> now < t')"
proof (cases r)
  case (EveryRecord i p n s)
  with assms(1) obtain b occ s' where b: "a = Some b" "resolveEveryOccurrence n s (date_parse b) = Inr (occ, Some s')"
    "r' = EveryRecord i p n s'"
    by (auto simp: rbind_Inr_iff split: option.splits)
  have ok: "canonical_instant s" "MIN_EVERY_INTERVAL_SECONDS \<le> n" "n * 1000 \<le> MAX_SAFE_INTEGER"
    using assms(2) EveryRecord by (simp_all add: schedule_ok_def)
  obtain t now where t: "date_parse s = Some t" "toISOString t = s" "four_digit_year t" "date_parse b = Some now"
      "four_digit_year now" "t \<le> now"
    and s': "latest_due (n * 1000) t now + n * 1000 \<le> MAX_FOUR_DIGIT_YEAR_MS"
      "s' = toISOString (latest_due (n * 1000) t now + n * 1000)"
    by (rule resolve_every_Inr [OF b(2) ok]) (auto simp: Let_def split: if_splits)
  have k: "0 < n * 1000" using ok(2) by (simp add: MIN_EVERY_INTERVAL_SECONDS_def)
  note d = latest_due_bounds [OF k t(6)]
  define t' where "t' = latest_due (n * 1000) t now + n * 1000"
  have y: "four_digit_year t'" using d(1) s'(1) t(3) k by (simp add: t'_def four_digit_year_def)
  then have p': "date_parse s' = Some t'" "canonical_instant s'" using s'(2) by (auto simp: t'_def canonical_instant_iff)
  have "(t' - t) mod (n * 1000) = 0" "t \<le> t'" "now < t'" using d k by (auto simp: t'_def diff_add_eq [symmetric])
  with p' t b EveryRecord assms(2) show ?thesis
    by (auto simp: schedule_ok_def advanced_by_def)
qed (use assms in \<open>auto split: if_splits\<close>)

section \<open>What the fold keeps\<close>

text \<open>The changes a log records, and the records they created.\<close>

definition change_of :: "session_event \<Rightarrow> schedule_change option" where
  "change_of e =
     (case ev_data e of
        ScheduleChange d \<Rightarrow> (case decodeScheduleChange d of Inl _ \<Rightarrow> None | Inr ch \<Rightarrow> Some ch)
      | _ \<Rightarrow> None)"

fun created_by :: "schedule_change \<Rightarrow> schedule_record option" where
  "created_by (CreateSchedule r) = Some r"
| "created_by _ = None"

definition created :: "schedule_change list \<Rightarrow> schedule_record list" where
  "created = List.map_filter created_by"

lemma created_snoc: "created (chs @ [c]) = created chs @ (case created_by c of None \<Rightarrow> [] | Some r \<Rightarrow> [r])"
  by (simp add: created_def map_filter_def split: option.splits)

definition batch_inv :: "schedule_change list \<Rightarrow> schedule_batch \<Rightarrow> bool" where
  "batch_inv chs b \<longleftrightarrow>
     distinct (map fst (sb_active b)) \<and> distinct (sb_seen b) \<and> sb_seen b = map sr_id (created chs)
     \<and> map fst (sb_active b) = filter (\<lambda>i. i \<in> fst ` set (sb_active b)) (sb_seen b)
     \<and> (\<forall>(i, r)\<in>set (sb_active b). sr_id r = i \<and> schedule_ok r \<and> (\<exists>r0\<in>set (created chs). descends r0 r))"

lemma advanced_refl: "canonical_instant s \<Longrightarrow> advanced_by n s s"
  by (auto simp: advanced_by_def dest: canonical_parse)

lemma advanced_trans: "advanced_by n a b \<Longrightarrow> advanced_by n b c \<Longrightarrow> advanced_by n a c"
proof -
  assume "advanced_by n a b" "advanced_by n b c"
  then obtain x y z where d: "date_parse a = Some x" "date_parse b = Some y" "date_parse c = Some z" "x \<le> y" "y \<le> z"
    "n * 1000 dvd y - x" "n * 1000 dvd z - y"
    by (auto simp: advanced_by_def mod_eq_0_iff_dvd split: option.splits)
  have "z - x = (y - x) + (z - y)" by simp
  with d have "n * 1000 dvd z - x" by (simp only: dvd_add)
  with d show "advanced_by n a c" by (simp add: advanced_by_def mod_eq_0_iff_dvd)
qed

lemma descends_refl: "schedule_ok r \<Longrightarrow> descends r r"
  by (cases r) (simp_all add: schedule_ok_def advanced_refl)

lemma descends_trans: "descends a b \<Longrightarrow> descends b c \<Longrightarrow> descends a c"
  by (cases a; cases b; cases c) (auto intro: advanced_trans)

lemma update_fresh: "k \<notin> fst ` set m \<Longrightarrow> map_set k v m = m @ [(k, v)]"
  by (induction m) auto

lemma keys_update: "k \<in> fst ` set m \<Longrightarrow> map fst (map_set k v m) = map fst m"
  by (simp add: update_keys)

lemma keys_delete: "map fst (map_delete k m) = filter (\<lambda>i. i \<noteq> k) (map fst m)"
  by (induction m) auto

lemma batch_delete:
  assumes "batch_inv chs b" "created (chs @ [c]) = created chs"
  shows "batch_inv (chs @ [c]) (b\<lparr>sb_active := map_delete i (sb_active b)\<rparr>)"
proof -
  have "map fst (map_delete i (sb_active b)) = filter (\<lambda>j. j \<noteq> i) (filter (\<lambda>j. j \<in> fst ` set (sb_active b)) (sb_seen b))"
    using assms(1) by (simp add: keys_delete batch_inv_def)
  also have "\<dots> = filter (\<lambda>j. j \<in> fst ` set (map_delete i (sb_active b))) (sb_seen b)"
    by (simp add: keys_delete conj_commute flip: set_map)
  finally show ?thesis
    using assms by (auto simp: batch_inv_def distinct_map_delete in_map_delete)
qed

lemma batch_advance:
  assumes "batch_inv chs b" "map_of (sb_active b) i = Some r" "schedule_ok r'" "sr_id r' = sr_id r" "descends r r'"
    "created (chs @ [c]) = created chs"
  shows "batch_inv (chs @ [c]) (b\<lparr>sb_active := map_set i r' (sb_active b)\<rparr>)"
proof -
  have i: "(i, r) \<in> set (sb_active b)" using assms(2) by (rule map_of_SomeD)
  then have k: "map fst (map_set i r' (sb_active b)) = map fst (sb_active b)" by (intro keys_update) force
  then have f: "fst ` set (map_set i r' (sb_active b)) = fst ` set (sb_active b)" by (metis list.set_map)
  obtain r0 where r0: "r0 \<in> set (created chs)" "descends r0 r" "sr_id r = i" using assms(1) i by (auto simp: batch_inv_def)
  have "sr_id v = j \<and> schedule_ok v \<and> (\<exists>r0\<in>set (created chs). descends r0 v)"
    if "(j, v) \<in> set (map_set i r' (sb_active b))" for j v
    using that assms r0 descends_trans [OF r0(2) assms(5)] by (auto simp: batch_inv_def set_map_set)
  then show ?thesis using assms(1,6) k by (auto simp: batch_inv_def f)
qed

lemma batch_create:
  assumes "batch_inv chs b" "schedule_ok r" "sr_id r \<notin> set (sb_seen b)"
  shows "batch_inv (chs @ [CreateSchedule r])
    \<lparr>sb_active = map_set (sr_id r) r (sb_active b), sb_seen = set_add (sr_id r) (sb_seen b)\<rparr>"
proof -
  have a: "fst ` set (sb_active b) \<subseteq> set (sb_seen b)" using assms(1) unfolding batch_inv_def
    by (metis (no_types, lifting) filter_is_subset list.set_map)
  with assms(3) have n: "sr_id r \<notin> fst ` set (sb_active b)" by blast
  have "filter (\<lambda>i. i = sr_id r \<or> i \<in> fst ` set (sb_active b)) (sb_seen b)
      = filter (\<lambda>i. i \<in> fst ` set (sb_active b)) (sb_seen b)"
    using assms(3) by (intro filter_cong) auto
  also have "\<dots> = map fst (sb_active b)" using assms(1) unfolding batch_inv_def by metis
  finally have "filter (\<lambda>i. i = sr_id r \<or> i \<in> fst ` set (sb_active b)) (sb_seen b) = map fst (sb_active b)" .
  then show ?thesis
    using assms n descends_refl [OF assms(2)]
    by (auto simp: batch_inv_def created_snoc set_add_def update_fresh)
qed

lemma change_step_inv:
  assumes "batch_inv chs b" "schedule_change_ok c" "change_step b c = Inr b'"
  shows "batch_inv (chs @ [c]) b'"
proof (cases c)
  case (CreateSchedule r)
  with assms show ?thesis by (auto intro: batch_create split: if_splits)
next
  case (DeleteSchedule i)
  with assms show ?thesis by (auto intro!: batch_delete simp: created_snoc split: option.splits)
next
  case (DispatchSchedule i t)
  with assms obtain r nxt where r: "map_of (sb_active b) i = Some r" "dispatchedRecord r t = Inr nxt"
    "b' = b\<lparr>sb_active := (case nxt of None \<Rightarrow> map_delete i (sb_active b) | Some r' \<Rightarrow> map_set i r' (sb_active b))\<rparr>"
    by (auto simp: rbind_Inr_iff split: option.splits)
  have "schedule_ok r" using assms(1) map_of_SomeD [OF r(1)] by (auto simp: batch_inv_def)
  then show ?thesis
    using r assms(1) dispatched_record [of r t] DispatchSchedule
    by (cases nxt) (auto intro!: batch_delete batch_advance simp: created_snoc)
qed

end
