(* ===== verification/Schedule_Projection.thy ===== *)
theory Schedule_Projection
  imports Schedule_Domain
begin

text \<open>
  The session projection of the active reminders, schedule/schedule/src/projection.ts: its state,
  its incremental step, and the schema that reads a checkpoint of it back. The results: what a full
  replay says of the records it holds, with the identity allocated next; the projection of a log is
  its full replay, errors included; and the checkpoint of every state the fold reaches reads back
  as that state.
\<close>

record schedule_state =
  ss_inheritedEventCount :: nat
  ss_folded :: folded_schedules

definition schedule_init :: "nat \<Rightarrow> schedule_state" where
  "schedule_init n = \<lparr>ss_inheritedEventCount = n, ss_folded = no_schedules\<rparr>"

definition schedule_apply :: "schedule_state \<Rightarrow> session_event \<Rightarrow> schedule_error + schedule_state" where
  "schedule_apply st e =
     (if ev_seq e < ss_inheritedEventCount st then Inr st
      else case ev_data e of
        ScheduleChange d \<Rightarrow>
          rbind (decodeScheduleChange d) (\<lambda>ch.
          rbind (applyScheduleChanges (ss_folded st) [ch]) (\<lambda>fs. Inr (st\<lparr>ss_folded := fs\<rparr>)))
      | _ \<Rightarrow> Inr st)"

definition schedule_view :: "schedule_state \<Rightarrow> schedule_record list" where
  "schedule_view st = fs_active (ss_folded st)"

text \<open>A checkpoint, and the schema: identities and records pass through the durable decoder.\<close>

definition schedule_state_json :: "schedule_state \<Rightarrow> json" where
  "schedule_state_json st =
     JObj [(''inheritedEventCount'', num (ss_inheritedEventCount st)),
           (''active'', JArr (map record_json (fs_active (ss_folded st)))),
           (''seenIds'', JArr (map JStr (fs_seenIds (ss_folded st))))]"

definition schema_id :: "json \<Rightarrow> schedule_error + string" where
  "schema_id v =
     rbind (decodeScheduleChange
              (JObj [(''version'', JNum (NInt 1)), (''operation'', JStr ''delete''), (''id'', v)]))
       (\<lambda>ch. case ch of DeleteSchedule i \<Rightarrow> Inr i | _ \<Rightarrow> Inl ScheduleOperation)"

definition schema_record :: "json \<Rightarrow> schedule_error + schedule_record" where
  "schema_record v =
     rbind (decodeScheduleChange
              (JObj [(''version'', JNum (NInt 1)), (''operation'', JStr ''create''), (''schedule'', v)]))
       (\<lambda>ch. case ch of CreateSchedule r \<Rightarrow> Inr r | _ \<Rightarrow> Inl ScheduleOperation)"

text \<open>The refinement: seen identities unique, active ones seen and unique.\<close>

fun active_unique :: "string list \<Rightarrow> string list \<Rightarrow> schedule_record list \<Rightarrow> bool" where
  "active_unique seen done [] = True"
| "active_unique seen done (r # rs) =
     (sr_id r \<in> set seen \<and> sr_id r \<notin> set done \<and> active_unique seen (set_add (sr_id r) done) rs)"

definition read_schedule_state :: "json \<Rightarrow> schedule_state option" where
  "read_schedule_state v =
     (if \<not> plain_record v \<or> \<not> hasExactKeys v [''inheritedEventCount'', ''active'', ''seenIds''] then None
      else case (jget v ''inheritedEventCount'', jget v ''active'', jget v ''seenIds'') of
        (Some (JNum n), Some (JArr rs), Some (JArr ids)) \<Rightarrow>
          if \<not> isSafeInteger n \<or> num_int n < 0 then None
          else (case (map_result schema_record rs, map_result schema_id ids) of
            (Inr active, Inr seen) \<Rightarrow>
              if length (remdups seen) = length seen \<and> active_unique seen [] active
              then Some \<lparr>ss_inheritedEventCount = nat (num_int n),
                         ss_folded = \<lparr>fs_active = active, fs_seenIds = seen\<rparr>\<rparr>
              else None
          | _ \<Rightarrow> None)
      | _ \<Rightarrow> None)"

section \<open>Replay\<close>

lemma run_events_inv:
  "run schedule_event_step (open_batch no_schedules) evs = Inr b \<Longrightarrow> batch_inv (List.map_filter change_of evs) b"
proof (induction evs arbitrary: b rule: rev_induct)
  case Nil
  then show ?case by (auto simp: open_batch_def no_schedules_def batch_inv_def created_def map_filter_def)
next
  case (snoc e evs)
  from snoc.prems obtain c where c: "run schedule_event_step (open_batch no_schedules) evs = Inr c" "schedule_event_step c e = Inr b"
    by (auto simp: run_snoc rbind_Inr_iff)
  note i = snoc.IH [OF c(1)]
  have f: "List.map_filter change_of (evs @ [e]) = List.map_filter change_of evs @ (case change_of e of None \<Rightarrow> [] | Some x \<Rightarrow> [x])"
    by (simp add: map_filter_def split: option.splits)
  show ?case
  proof (cases "\<exists>d. ev_data e = ScheduleChange d")
    case True
    with c(2) obtain d ch where "ev_data e = ScheduleChange d" "decodeScheduleChange d = Inr ch" "change_step c ch = Inr b"
      by (auto simp: schedule_event_step_def rbind_Inr_iff)
    moreover from this have "batch_inv (List.map_filter change_of evs @ [ch]) b"
      by (intro change_step_inv [OF i decode_change_ok])
    moreover from calculation have "change_of e = Some ch" by (simp add: change_of_def)
    ultimately show ?thesis unfolding f by simp
  next
    case False
    with c(2) have "c = b" "change_of e = None"
      by (auto simp: schedule_event_step_def change_of_def split: event_data.splits)
    with i show ?thesis unfolding f by simp
  qed
qed

lemma fold_elim:
  assumes "foldScheduleEvents evs n = Inr fs"
  obtains b where "n \<le> length evs" "run schedule_event_step (open_batch no_schedules) (drop n evs) = Inr b"
    "fs = close_batch b" "batch_inv (List.map_filter change_of (drop n evs)) b"
  using assms run_events_inv by (auto simp: foldScheduleEvents_def rbind_Inr_iff split: if_splits)

lemma batch_active:
  assumes "batch_inv chs b"
  shows "map sr_id (fs_active (close_batch b)) = map fst (sb_active b)"
    "map (\<lambda>r. (sr_id r, r)) (fs_active (close_batch b)) = sb_active b"
proof -
  have "\<forall>x\<in>set (sb_active b). sr_id (snd x) = fst x" using assms unfolding batch_inv_def by fastforce
  then show "map sr_id (fs_active (close_batch b)) = map fst (sb_active b)"
    "map (\<lambda>r. (sr_id r, r)) (fs_active (close_batch b)) = sb_active b"
    by (auto simp: close_batch_def intro!: map_idI)
qed

lemma open_active: "distinct (map fst acc @ map sr_id rs) \<Longrightarrow>
    foldl (\<lambda>m r. map_set (sr_id r) r m) acc rs = acc @ map (\<lambda>r. (sr_id r, r)) rs"
proof (induction rs arbitrary: acc)
  case (Cons r rs)
  then have "map_set (sr_id r) r acc = acc @ [(sr_id r, r)]" by (intro update_fresh) auto
  with Cons show ?case by (simp add: Cons.IH)
qed simp

lemma open_seen: "distinct (acc @ xs) \<Longrightarrow> foldl (\<lambda>s i. set_add i s) acc xs = acc @ xs"
  by (induction xs arbitrary: acc) (auto simp: set_add_def)

lemma open_close:
  assumes "batch_inv chs b"
  shows "open_batch (close_batch b) = b"
proof -
  have "distinct (map fst (sb_active b))" "distinct (sb_seen b)" using assms unfolding batch_inv_def by blast+
  then have "foldl (\<lambda>m r. map_set (sr_id r) r m) [] (fs_active (close_batch b)) = sb_active b"
    "foldl (\<lambda>s i. set_add i s) [] (fs_seenIds (close_batch b)) = sb_seen b"
    using open_active [of "[]" "fs_active (close_batch b)"] open_seen [of "[]" "sb_seen b"] batch_active [OF assms]
    by (simp_all add: close_batch_def [of b, THEN arg_cong, of fs_seenIds])
  then show ?thesis by (simp add: open_batch_def)
qed

lemma apply_run:
  assumes "batch_inv chs b" "\<forall>e\<in>set evs. n \<le> ev_seq e"
  shows "rbind (run schedule_apply \<lparr>ss_inheritedEventCount = n, ss_folded = close_batch b\<rparr> evs) (\<lambda>st. Inr (ss_folded st))
    = rbind (run schedule_event_step b evs) (\<lambda>c. Inr (close_batch c))"
  using assms
proof (induction evs arbitrary: b chs)
  case (Cons e evs)
  show ?case
  proof (cases "\<exists>d. ev_data e = ScheduleChange d")
    case True
    then obtain d where d: "ev_data e = ScheduleChange d" by blast
    have "n \<le> ev_seq e" using Cons.prems(2) by simp
    show ?thesis
    proof (cases "decodeScheduleChange d")
      case (Inl err)
      with d \<open>n \<le> ev_seq e\<close> show ?thesis by (simp add: schedule_apply_def schedule_event_step_def)
    next
      case (Inr ch)
      show ?thesis
      proof (cases "change_step b ch")
        case (Inl err)
        with Inr d \<open>n \<le> ev_seq e\<close> show ?thesis
          by (simp add: schedule_apply_def schedule_event_step_def applyScheduleChanges_def open_close [OF Cons.prems(1)])
      next
        case step: (Inr c)
        have "batch_inv (chs @ [ch]) c"
          using Cons.prems(1) decode_change_ok [OF Inr] step by (rule change_step_inv)
        then have "rbind (run schedule_apply \<lparr>ss_inheritedEventCount = n, ss_folded = close_batch c\<rparr> evs) (\<lambda>st. Inr (ss_folded st))
            = rbind (run schedule_event_step c evs) (\<lambda>c. Inr (close_batch c))"
          using Cons.prems(2) by (intro Cons.IH) auto
        moreover have "schedule_apply \<lparr>ss_inheritedEventCount = n, ss_folded = close_batch b\<rparr> e =
            Inr \<lparr>ss_inheritedEventCount = n, ss_folded = close_batch c\<rparr>" "schedule_event_step b e = Inr c"
          using Inr step d \<open>n \<le> ev_seq e\<close>
          by (simp_all add: schedule_apply_def schedule_event_step_def applyScheduleChanges_def open_close [OF Cons.prems(1)])
        ultimately show ?thesis by simp
      qed
    qed
  next
    case False
    then have "schedule_apply \<lparr>ss_inheritedEventCount = n, ss_folded = close_batch b\<rparr> e = Inr \<lparr>ss_inheritedEventCount = n, ss_folded = close_batch b\<rparr>"
      "schedule_event_step b e = Inr b"
      by (auto simp: schedule_apply_def schedule_event_step_def split: event_data.splits)
    with Cons show ?thesis by simp
  qed
qed simp

lemma apply_inherited:
  "\<forall>e\<in>set evs. ev_seq e < n \<Longrightarrow> run schedule_apply (schedule_init n) evs = Inr (schedule_init n)"
  by (induction evs) (simp_all add: schedule_apply_def schedule_init_def)

section \<open>What the projection holds\<close>

lemma allocate_fresh: "allocate_from seen n \<notin> set seen"
  by (induction seen n rule: allocate_from.induct) (simp add: allocate_from.simps)

lemma fold_created:
  assumes "foldScheduleEvents evs n = Inr fs"
  defines "recs \<equiv> created (List.map_filter change_of (drop n evs))"
  shows "fs_seenIds fs = map sr_id recs" "distinct (fs_seenIds fs)"
    "map sr_id (fs_active fs) = filter (\<lambda>i. i \<in> sr_id ` set (fs_active fs)) (fs_seenIds fs)"
    "r \<in> set (fs_active fs) \<Longrightarrow> schedule_ok r \<and> (\<exists>r0\<in>set recs. descends r0 r)"
proof -
  obtain b where b: "fs = close_batch b" "batch_inv (List.map_filter change_of (drop n evs)) b"
    using assms(1) by (rule fold_elim)
  note a = batch_active [OF b(2)]
  have k: "fst ` set (sb_active b) = sr_id ` set (fs_active fs)"
    using a(1) b(1) by (metis list.set_map)
  have "sb_seen b = map sr_id recs" "distinct (sb_seen b)" using b(2) unfolding batch_inv_def recs_def by blast+
  then show "fs_seenIds fs = map sr_id recs" "distinct (fs_seenIds fs)" by (simp_all add: b(1) close_batch_def)
  have "map fst (sb_active b) = filter (\<lambda>i. i \<in> fst ` set (sb_active b)) (sb_seen b)"
    using b(2) unfolding batch_inv_def by blast
  moreover have "sb_seen b = fs_seenIds fs" by (simp add: b(1) close_batch_def)
  ultimately show "map sr_id (fs_active fs) = filter (\<lambda>i. i \<in> sr_id ` set (fs_active fs)) (fs_seenIds fs)"
    unfolding k a(1) [folded b(1), symmetric] by (simp only:)
  show "schedule_ok r \<and> (\<exists>r0\<in>set recs. descends r0 r)" if "r \<in> set (fs_active fs)"
    using b(2) that by (auto simp: b(1) close_batch_def batch_inv_def recs_def)
qed

text \<open>
  C31: Replaying a session's own events keeps the used reminder identities in creation order, each
  once. The active reminders stand in creation order; each is well formed and is the record created
  under its identity, a fixed-rate one with its target moved by whole intervals. The identity the
  allocator picks next has never been used.
\<close>

theorem schedule_fold_tracks_created_records:
  assumes "foldScheduleEvents evs n = Inr fs"
  defines "recs \<equiv> created (List.map_filter change_of (drop n evs))"
  shows "fs_seenIds fs = map sr_id recs \<and> distinct (fs_seenIds fs)
    \<and> map sr_id (fs_active fs) = filter (\<lambda>i. i \<in> sr_id ` set (fs_active fs)) (fs_seenIds fs)
    \<and> (\<forall>r\<in>set (fs_active fs). schedule_ok r \<and> (\<exists>r0\<in>set recs. descends r0 r))
    \<and> allocateScheduleId fs \<notin> set (fs_seenIds fs)"
  unfolding recs_def allocateScheduleId_def using fold_created [OF assms(1)] allocate_fresh by blast

lemma contiguous_seq:
  assumes "contiguous evs" "n \<le> length evs"
  shows "e \<in> set (take n evs) \<Longrightarrow> ev_seq e < n" "e \<in> set (drop n evs) \<Longrightarrow> n \<le> ev_seq e"
  using assms by (auto simp: contiguous_def in_set_conv_nth)

lemma projection_of_fold:
  assumes "contiguous evs" "n \<le> length evs"
  shows "rbind (run schedule_apply (schedule_init n) evs) (\<lambda>st. Inr (ss_folded st)) = foldScheduleEvents evs n"
proof -
  have inv: "batch_inv [] (open_batch no_schedules)" using run_events_inv [of "[]"] by simp
  have i: "schedule_init n = \<lparr>ss_inheritedEventCount = n, ss_folded = close_batch (open_batch no_schedules)\<rparr>"
    by (simp add: schedule_init_def open_batch_def close_batch_def no_schedules_def)
  have "run schedule_apply (schedule_init n) (take n evs) = Inr (schedule_init n)"
    using contiguous_seq(1) [OF assms] by (intro apply_inherited) blast
  then have "run schedule_apply (schedule_init n) (take n evs @ drop n evs) = run schedule_apply (schedule_init n) (drop n evs)"
    by (simp only: run_append rbind_simps)
  then show ?thesis
    using apply_run [OF inv, of "drop n evs" n] contiguous_seq(2) [OF assms] assms(2)
    by (simp add: foldScheduleEvents_def flip: i)
qed

text \<open>
  The incremental projection of a session's log is the full replay of its own events: it yields
  the same reminders and used identities, and where the replay throws it throws the same error.
\<close>

theorem schedule_projection_equals_replay:
  assumes "contiguous evs" "n \<le> length evs"
  shows "rbind (run schedule_apply (schedule_init n) evs) (\<lambda>st. Inr (ss_folded st)) = foldScheduleEvents evs n"
  using assms by (rule projection_of_fold)

lemma schema_record_json: "schedule_ok r \<Longrightarrow> schema_record (record_json r) = Inr r"
  using decode_schedule_json [of "CreateSchedule r"] by (simp add: schema_record_def)

lemma schema_id_str: "normalString i \<Longrightarrow> schema_id (JStr i) = Inr i"
  using decode_schedule_json [of "DeleteSchedule i"] by (simp add: schema_id_def)

lemma map_result_json: "(\<forall>x\<in>set xs. f (g x) = Inr x) \<Longrightarrow> map_result f (map g xs) = Inr xs"
  by (induction xs) simp_all

lemma active_unique_iff:
  "active_unique seen done rs \<longleftrightarrow> distinct (map sr_id rs) \<and> sr_id ` set rs \<subseteq> set seen \<and> sr_id ` set rs \<inter> set done = {}"
  by (induction rs arbitrary: "done") auto

lemma in_map_filter: "y \<in> set (List.map_filter f xs) \<longleftrightarrow> (\<exists>x\<in>set xs. f x = Some y)"
  by (auto simp: map_filter_def image_iff)

lemma in_created: "r \<in> set (created chs) \<longleftrightarrow> CreateSchedule r \<in> set chs"
  by (auto simp: created_def in_map_filter elim: created_by.elims intro: bexI [of _ "CreateSchedule r"])

lemma change_of_ok: "change_of e = Some ch \<Longrightarrow> schedule_change_ok ch"
  by (auto simp: change_of_def dest: decode_change_ok split: event_data.splits sum.splits)

text \<open>
  C34: The checkpoint of the projection of any log whose replay succeeds reads back, through its
  schema, as exactly that projection state.
\<close>

theorem schedule_checkpoint_reads_back:
  assumes "foldScheduleEvents evs n = Inr fs" "int n \<le> MAX_SAFE_INTEGER"
  shows "read_schedule_state (schedule_state_json \<lparr>ss_inheritedEventCount = n, ss_folded = fs\<rparr>)
    = Some \<lparr>ss_inheritedEventCount = n, ss_folded = fs\<rparr>"
proof -
  note f = fold_created [OF assms(1)]
  obtain b where b: "batch_inv (List.map_filter change_of (drop n evs)) b" "fs = close_batch b"
    using assms(1) by (rule fold_elim)
  have recs: "\<forall>r\<in>set (created (List.map_filter change_of (drop n evs))). schedule_ok r"
    by (auto simp: in_created in_map_filter dest!: change_of_ok)
  then have ids: "map_result schema_id (map JStr (fs_seenIds fs)) = Inr (fs_seenIds fs)"
    by (intro map_result_json) (auto simp: f(1) schedule_ok_def intro!: schema_id_str)
  have act: "map_result schema_record (map record_json (fs_active fs)) = Inr (fs_active fs)"
    using f(4) by (intro map_result_json) (simp add: schema_record_json)
  have "distinct (map sr_id (fs_active fs))" by (subst f(3)) (rule distinct_filter, rule f(2))
  moreover have "sr_id ` set (fs_active fs) \<subseteq> set (fs_seenIds fs)"
    by (subst set_map [symmetric], subst f(3)) auto
  ultimately have "active_unique (fs_seenIds fs) [] (fs_active fs)" by (simp add: active_unique_iff)
  with ids act f(2) assms(2) show ?thesis
    by (simp add: read_schedule_state_def schedule_state_json_def hasExactKeys_def num_def distinct_remdups_id)
qed

section \<open>A session with reminders\<close>

definition sample_reminders :: "session_event list" where
  "sample_reminders =
     [log_event 0 0 (ScheduleChange (schedule_json
        (CreateSchedule (EveryRecord ''schedule-1'' ''stretch'' 300 ''2025-01-01T00:00:00.000Z'')))),
      log_event 1 0 (ScheduleChange (schedule_json
        (CreateSchedule (AfterRecord ''schedule-2'' ''tea'' 90 ''2024-02-29T23:59:59.999Z'')))),
      log_event 2 0 (ScheduleChange (schedule_json (DispatchSchedule ''schedule-1'' (Some ''2025-01-01T00:12:00.000Z'')))),
      log_event 3 0 (ScheduleChange (schedule_json (DispatchSchedule ''schedule-2'' None)))]"

definition sample_folded :: folded_schedules where
  "sample_folded =
     \<lparr>fs_active = [EveryRecord ''schedule-1'' ''stretch'' 300 ''2025-01-01T00:15:00.000Z''],
      fs_seenIds = [''schedule-1'', ''schedule-2'']\<rparr>"

lemma sample_reminders_fold: "foldScheduleEvents sample_reminders 0 = Inr sample_folded"
  by code_simp

theorem schedule_fold_tracks_created_records_witness:
  "allocateScheduleId sample_folded \<notin> set (fs_seenIds sample_folded) \<and> length (fs_active sample_folded) = 1"
proof -
  have "allocateScheduleId sample_folded \<notin> set (fs_seenIds sample_folded)"
    using schedule_fold_tracks_created_records [OF sample_reminders_fold] by blast
  moreover have "length (fs_active sample_folded) = 1" by (simp add: sample_folded_def)
  ultimately show ?thesis ..
qed

theorem schedule_projection_equals_replay_witness:
  "rbind (run schedule_apply (schedule_init 0) sample_reminders) (\<lambda>st. Inr (ss_folded st)) = Inr sample_folded"
proof -
  have "contiguous sample_reminders"
    by (simp add: contiguous_def sample_reminders_def log_event_def less_Suc_eq numeral_eq_Suc)
  from schedule_projection_equals_replay [OF this, of 0] show ?thesis by (simp add: sample_reminders_fold)
qed

theorem schedule_checkpoint_reads_back_witness:
  "read_schedule_state (schedule_state_json \<lparr>ss_inheritedEventCount = 0, ss_folded = sample_folded\<rparr>)
    = Some \<lparr>ss_inheritedEventCount = 0, ss_folded = sample_folded\<rparr>"
  using schedule_checkpoint_reads_back [OF sample_reminders_fold] by (simp add: MAX_SAFE_INTEGER_def)

end
