(* ===== verification/Schedule_Create.thy ===== *)
theory Schedule_Create
  imports Schedule_Projection
begin

text \<open>
  The creation of reminders in schedule/schedule/src/domain.ts: exact calendar fields, absolute
  texts with an offset, local dates in a time zone, and the constructors of the three kinds of
  record. The time-zone data is a parameter (the \<open>Intl\<close> service of the engine). The results: calendar
  fields are accepted exactly when they name a real date; a local time resolves to the first instant
  that shows it, and is refused exactly when none does; and every record created is well formed,
  strictly future, and accepted by the replay.
\<close>

datatype input_error =
    InvalidPrompt | InvalidRule | InvalidTimeZone | NotFuture | TimeOutOfRange | FrequencyTooHigh

section \<open>Calendar input\<close>

text \<open>
  \<open>new Date(0)\<close>, its hours reset, its date and then its time set; the accessors must give every
  field back.
\<close>

definition calendarEpoch :: "calendar_parts \<Rightarrow> input_error + int" where
  "calendarEpoch p =
     (case Option.bind (setUTCHours 0 0 0 0 0) (\<lambda>t0.
           Option.bind (setUTCFullYear t0 (cp_year p) (cp_month p - 1) (cp_day p)) (\<lambda>t1.
           setUTCHours t1 (cp_hour p) (cp_minute p) (cp_second p) (cp_millisecond p))) of
        None \<Rightarrow> Inl InvalidRule
      | Some epoch \<Rightarrow> if parts_of epoch \<noteq> p then Inl InvalidRule else Inr epoch)"

definition milliseconds :: "string option \<Rightarrow> int" where
  "milliseconds v =
     (case v of None \<Rightarrow> 0 | Some s \<Rightarrow> int (read_nat (s @ replicate (3 - length s) (CHR ''0''))))"

definition futureInstant :: "int \<Rightarrow> int \<Rightarrow> input_error + string" where
  "futureInstant epoch now =
     (if \<not> isSafeInteger (NInt now) \<or> \<not> isSafeInteger (NInt epoch)
         \<or> epoch < MIN_FOUR_DIGIT_YEAR_MS \<or> epoch > MAX_FOUR_DIGIT_YEAR_MS then Inl TimeOutOfRange
      else if epoch \<le> now then Inl NotFuture
      else if \<not> UTC_INSTANT (toISOString epoch) then Inl TimeOutOfRange
      else Inr (toISOString epoch))"

text \<open>\<open>dddd-dd-dd\<close> and \<open>dd:dd:dd\<close> with an optional fraction of one to three digits.\<close>

definition take_date :: "string \<Rightarrow> ((int \<times> int \<times> int) \<times> string) option" where
  "take_date s0 =
     Option.bind (take_digits 4 s0) (\<lambda>(y, s1). Option.bind (take_char (CHR ''-'') s1) (\<lambda>s2.
     Option.bind (take_digits 2 s2) (\<lambda>(m, s3). Option.bind (take_char (CHR ''-'') s3) (\<lambda>s4.
     Option.bind (take_digits 2 s4) (\<lambda>(d, s5). Some ((y, m, d), s5))))))"

definition take_fraction :: "string \<Rightarrow> (string option \<times> string) option" where
  "take_fraction s =
     (case take_char (CHR ''.'') s of
        None \<Rightarrow> Some (None, s)
      | Some r \<Rightarrow>
          (let ds = takeWhile digit (take 3 r) in
           if ds = [] then None else Some (Some ds, drop (length ds) r)))"

definition take_time :: "string \<Rightarrow> ((int \<times> int \<times> int \<times> int) \<times> string) option" where
  "take_time s0 =
     Option.bind (take_digits 2 s0) (\<lambda>(h, s1). Option.bind (take_char (CHR '':'') s1) (\<lambda>s2.
     Option.bind (take_digits 2 s2) (\<lambda>(m, s3). Option.bind (take_char (CHR '':'') s3) (\<lambda>s4.
     Option.bind (take_digits 2 s4) (\<lambda>(s, s5). Option.bind (take_fraction s5) (\<lambda>(f, s6).
     Some ((h, m, s, milliseconds f), s6)))))))"

fun date_time :: "int \<times> int \<times> int \<Rightarrow> int \<times> int \<times> int \<times> int \<Rightarrow> calendar_parts" where
  "date_time (y, mo, d) (h, mi, s, ms) =
     \<lparr>cp_year = y, cp_month = mo, cp_day = d, cp_hour = h, cp_minute = mi, cp_second = s, cp_millisecond = ms\<rparr>"

definition clock_ok :: "calendar_parts \<Rightarrow> bool" where
  "clock_ok p \<longleftrightarrow> \<not> (cp_year p = 0 \<or> cp_hour p > 23 \<or> cp_minute p > 59 \<or> cp_second p > 59)"

text \<open>The zone: \<open>Z\<close>, or a sign with hours and minutes.\<close>

definition take_zone :: "string \<Rightarrow> (char \<times> int \<times> int) option option" where
  "take_zone s =
     (if s = ''Z'' then Some None
      else case s of
        [] \<Rightarrow> None
      | sign # s1 \<Rightarrow>
          if sign \<noteq> CHR ''+'' \<and> sign \<noteq> CHR ''-'' then None
          else Option.bind (take_digits 2 s1) (\<lambda>(h, s2). Option.bind (take_char (CHR '':'') s2) (\<lambda>s3.
               Option.bind (take_digits 2 s3) (\<lambda>(m, s4). if s4 = [] then Some (Some (sign, h, m)) else None))))"

definition offset_match :: "string \<Rightarrow> (calendar_parts \<times> (char \<times> int \<times> int) option) option" where
  "offset_match s0 =
     Option.bind (take_date s0) (\<lambda>(date, s1). Option.bind (take_char (CHR ''T'') s1) (\<lambda>s2.
     Option.bind (take_time s2) (\<lambda>(time, s3). Option.bind (take_zone s3) (\<lambda>zone.
     Some (date_time date time, zone)))))"

definition parseOffsetInstant :: "string \<Rightarrow> input_error + int" where
  "parseOffsetInstant value =
     (case offset_match value of
        None \<Rightarrow> Inl InvalidRule
      | Some (parts, zone) \<Rightarrow>
          if \<not> clock_ok parts then Inl InvalidRule
          else rbind (calendarEpoch parts) (\<lambda>localEpoch.
            case zone of
              None \<Rightarrow> Inr localEpoch
            | Some (sign, h, m) \<Rightarrow>
                if h > 23 \<or> m > 59 \<or> (sign = CHR ''-'' \<and> h = 0 \<and> m = 0) then Inl InvalidRule
                else Inr (localEpoch - (if sign = CHR ''+'' then 1 else -1) * (h * 60 + m) * 60000)))"

section \<open>Local times\<close>

text \<open>
  The engine's time-zone data: the canonical name of a selector, \<open>None\<close> where \<open>Intl\<close> throws, and the
  fields and offset name that a formatter of the zone shows for an instant.
\<close>

record intl =
  in_canonical :: "string \<Rightarrow> string option"
  in_format :: "string \<Rightarrow> int \<Rightarrow> calendar_parts \<times> string"

definition alpha :: "char \<Rightarrow> bool" where
  "alpha c \<longleftrightarrow> lower c \<or> (65 \<le> (of_char c :: nat) \<and> (of_char c :: nat) \<le> 90)"

definition zone_char :: "char \<Rightarrow> bool" where
  "zone_char c \<longleftrightarrow> alpha c \<or> digit c \<or> c \<in> {CHR ''_'', CHR ''+'', CHR ''.'', CHR ''-''}"

fun iana_tail :: "bool \<Rightarrow> bool \<Rightarrow> string \<Rightarrow> bool" where
  "iana_tail slashed fresh [] = (slashed \<and> \<not> fresh)"
| "iana_tail slashed fresh (c # cs) =
     (if c = CHR ''/'' then \<not> fresh \<and> iana_tail True True cs else zone_char c \<and> iana_tail slashed False cs)"

fun iana_zone :: "string \<Rightarrow> bool" where
  "iana_zone [] = False"
| "iana_zone (c # cs) = (alpha c \<and> iana_tail False False cs)"

definition canonicalizeTimeZone :: "intl \<Rightarrow> string \<Rightarrow> input_error + string" where
  "canonicalizeTimeZone tz value =
     (if length value = 0 \<or> js_trim value \<noteq> value \<or> (value \<noteq> ''UTC'' \<and> \<not> iana_zone value) then Inl InvalidTimeZone
      else case in_canonical tz value of
        None \<Rightarrow> Inl InvalidTimeZone
      | Some canonical \<Rightarrow>
          if canonical \<noteq> ''UTC'' \<and> \<not> iana_zone canonical then Inl InvalidTimeZone else Inr canonical)"

definition parseLocalAt :: "string \<Rightarrow> string \<Rightarrow> input_error + calendar_parts" where
  "parseLocalAt date time =
     (case (take_date date, take_time time) of
        (Some (d, []), Some (t, [])) \<Rightarrow>
          if \<not> clock_ok (date_time d t) then Inl InvalidRule
          else rbind (calendarEpoch (date_time d t)) (\<lambda>_. Inr (date_time d t))
      | _ \<Rightarrow> Inl InvalidRule)"

text \<open>The expression \<open>OFFSET_NAME\<close> and the offset in milliseconds; a bare \<open>GMT\<close> is zero.\<close>

definition offset_name :: "string \<Rightarrow> int option" where
  "offset_name s =
     (if take 3 s \<noteq> ''GMT'' then None
      else case drop 3 s of
        [] \<Rightarrow> Some 0
      | sign # s1 \<Rightarrow>
          if sign \<noteq> CHR ''+'' \<and> sign \<noteq> CHR ''-'' then None
          else Option.bind (take_digits 2 s1) (\<lambda>(h, s2). Option.bind (take_char (CHR '':'') s2) (\<lambda>s3.
               Option.bind (take_digits 2 s3) (\<lambda>(m, s4).
               Option.bind (if s4 = [] then Some 0
                            else Option.bind (take_char (CHR '':'') s4) (\<lambda>s5.
                                 Option.bind (take_digits 2 s5) (\<lambda>(sec, s6). if s6 = [] then Some sec else None)))
                 (\<lambda>sec. Some ((if sign = CHR ''-'' then -1 else 1) * (h * 3600 + m * 60 + sec) * 1000))))))"

definition localProjection :: "intl \<Rightarrow> string \<Rightarrow> int \<Rightarrow> input_error + calendar_parts \<times> int" where
  "localProjection tz zone epoch =
     (case in_format tz zone epoch of (parts, zoneName) \<Rightarrow>
       (case offset_name zoneName of
          None \<Rightarrow> Inl InvalidTimeZone
        | Some offset \<Rightarrow> Inr (parts, offset)))"

definition sample_at :: "int \<Rightarrow> int" where
  "sample_at e = min MAX_FOUR_DIGIT_YEAR_MS (max MIN_FOUR_DIGIT_YEAR_MS e)"

text \<open>One candidate: \<open>None\<close> out of range, else the instant and whether it shows the fields asked for.\<close>

definition local_candidate ::
  "intl \<Rightarrow> string \<Rightarrow> calendar_parts \<Rightarrow> int \<Rightarrow> input_error + (int \<times> bool) option" where
  "local_candidate tz zone parts candidate =
     (if candidate < MIN_FOUR_DIGIT_YEAR_MS \<or> candidate > MAX_FOUR_DIGIT_YEAR_MS then Inr None
      else rbind (localProjection tz zone candidate) (\<lambda>(p, _). Inr (Some (candidate, p = parts))))"

fun shown :: "(int \<times> bool) option list \<Rightarrow> int list" where
  "shown [] = []"
| "shown (Some (c, True) # rs) = c # shown rs"
| "shown (_ # rs) = shown rs"

definition resolveLocalInstant :: "intl \<Rightarrow> calendar_parts \<Rightarrow> string \<Rightarrow> input_error + int" where
  "resolveLocalInstant tz parts zone =
     rbind (calendarEpoch parts) (\<lambda>localEpoch.
     rbind (map_result (\<lambda>delta. rbind (localProjection tz zone (sample_at (localEpoch + delta))) (\<lambda>(_, off). Inr off))
              [-172800000, -86400000, 0, 86400000, 172800000]) (\<lambda>samples.
     let offsets = foldl (\<lambda>s x. set_add x s) [] samples in
     rbind (map_result (\<lambda>off. local_candidate tz zone parts (localEpoch - off)) offsets) (\<lambda>found.
     case sort (shown found) of
       c # _ \<Rightarrow> Inr c
     | [] \<Rightarrow> if None \<in> set found then Inl TimeOutOfRange else Inl InvalidRule)))"

section \<open>Records\<close>

text \<open>
  The clock is within the range of a \<open>Date\<close>, so a delay whose product with 1000 is not exact gives a
  target out of range in doubles as in integers.
\<close>

definition createAfterScheduleRecord :: "string \<Rightarrow> string \<Rightarrow> jsnum \<Rightarrow> int \<Rightarrow> input_error + schedule_record" where
  "createAfterScheduleRecord i prompt afterSeconds now =
     (if length (js_trim prompt) = 0 then Inl InvalidPrompt
      else if \<not> isSafeInteger afterSeconds \<or> num_int afterSeconds \<le> 0 then Inl InvalidRule
      else rbind (futureInstant (now + num_int afterSeconds * 1000) now) (\<lambda>at.
           Inr (AfterRecord i (js_trim prompt) (num_int afterSeconds) at)))"

definition at_target :: "intl \<Rightarrow> json \<Rightarrow> input_error + int" where
  "at_target tz at =
     (case at of
        JStr value \<Rightarrow> parseOffsetInstant value
      | JObj _ \<Rightarrow>
          if \<not> same_keys at [''date'', ''time'', ''time_zone''] then Inl InvalidRule
          else (case (jget at ''date'', jget at ''time'') of
            (Some (JStr date), Some (JStr time)) \<Rightarrow>
              (case jget at ''time_zone'' of
                 Some (JStr zone) \<Rightarrow>
                   rbind (parseLocalAt date time) (\<lambda>parts.
                   rbind (canonicalizeTimeZone tz zone) (\<lambda>canonical.
                   resolveLocalInstant tz parts canonical))
               | _ \<Rightarrow> Inl InvalidTimeZone)
          | _ \<Rightarrow> Inl InvalidRule)
      | _ \<Rightarrow> Inl InvalidRule)"

definition createAtScheduleRecord :: "intl \<Rightarrow> string \<Rightarrow> string \<Rightarrow> json \<Rightarrow> int \<Rightarrow> input_error + schedule_record" where
  "createAtScheduleRecord tz i prompt at now =
     (if length (js_trim prompt) = 0 then Inl InvalidPrompt
      else rbind (at_target tz at) (\<lambda>target.
           rbind (futureInstant target now) (\<lambda>s. Inr (AtRecord i (js_trim prompt) s))))"

definition createEveryScheduleRecord :: "string \<Rightarrow> string \<Rightarrow> jsnum \<Rightarrow> int \<Rightarrow> input_error + schedule_record" where
  "createEveryScheduleRecord i prompt everySeconds now =
     (if length (js_trim prompt) = 0 then Inl InvalidPrompt
      else if \<not> isSafeInteger everySeconds then Inl InvalidRule
      else if num_int everySeconds < MIN_EVERY_INTERVAL_SECONDS then Inl FrequencyTooHigh
      else rbind (futureInstant (now + num_int everySeconds * 1000) now) (\<lambda>s.
           Inr (EveryRecord i (js_trim prompt) (num_int everySeconds) s)))"

datatype create_rule = AtRule json | AfterRule jsnum | EveryRule jsnum

fun create_record :: "intl \<Rightarrow> string \<Rightarrow> string \<Rightarrow> create_rule \<Rightarrow> int \<Rightarrow> input_error + schedule_record" where
  "create_record tz i prompt (AtRule at) now = createAtScheduleRecord tz i prompt at now"
| "create_record tz i prompt (AfterRule n) now = createAfterScheduleRecord i prompt n now"
| "create_record tz i prompt (EveryRule n) now = createEveryScheduleRecord i prompt n now"

datatype schedule_timing = Scheduled | Overdue

definition scheduleView :: "schedule_record \<Rightarrow> int \<Rightarrow> schedule_record \<times> schedule_timing \<times> string" where
  "scheduleView r now =
     (r, (case date_parse (sr_scheduledAt r) of
            Some t \<Rightarrow> if now \<ge> t then Overdue else Scheduled
          | None \<Rightarrow> Scheduled),
      ''session-local'')"

section \<open>Exact calendar fields\<close>

lemma calendarEpoch_Inr: "calendarEpoch p = Inr e \<Longrightarrow> real_date p \<and> e = epoch_of p"
proof -
  assume "calendarEpoch p = Inr e"
  then have e: "parts_of e = p" "e = epoch_of p"
    by (auto simp: calendarEpoch_def setUTCHours_def setUTCFullYear_def time_clip_def make_time_def epoch_of_def
        MS_PER_DAY_def bind_eq_Some_conv split: option.splits if_splits)
  then show ?thesis using real_date_parts [of e] by simp
qed

lemma epoch_clip:
  assumes "real_date p" "0 \<le> cp_year p" "cp_year p \<le> 9999"
  shows "\<bar>epoch_of p\<bar> \<le> 8640000000000000" "\<bar>MS_PER_DAY * make_day (cp_year p) (cp_month p - 1) (cp_day p)\<bar> \<le> 8640000000000000"
proof -
  define d where "d = make_day (cp_year p) (cp_month p - 1) (cp_day p)"
  have m: "0 \<le> cp_month p - 1" "cp_month p - 1 < 12" using assms(1) by (simp_all add: real_date_def)
  have "month_start (leap (cp_year p)) (cp_month p) \<le> 366" "0 \<le> month_start (leap (cp_year p)) (cp_month p - 1)"
    using m month_start_mono [of "cp_month p" 12 "leap (cp_year p)"] month_start_mono [of 0 "cp_month p - 1" "leap (cp_year p)"]
    by (auto simp: month_start_values split: if_splits)
  then have "day_from_year (cp_year p) \<le> d" "d \<le> day_from_year (cp_year p) + 366"
    using assms(1) m by (simp_all add: d_def make_day_def Let_def real_date_def)
  moreover have "day_from_year 0 \<le> day_from_year (cp_year p)" "day_from_year (cp_year p) \<le> day_from_year 9999"
    using assms(2,3) day_from_year_mono by simp_all
  moreover have "day_from_year 0 = -719528" "day_from_year 9999 = 2932532" by (simp_all add: day_from_year_def)
  ultimately have d: "-719528 \<le> d" "d \<le> 2932898" by simp_all
  have "0 \<le> make_time (cp_hour p) (cp_minute p) (cp_second p) (cp_millisecond p)"
    "make_time (cp_hour p) (cp_minute p) (cp_second p) (cp_millisecond p) < 86400000"
    using assms(1) by (simp_all add: make_time_def real_date_def)
  with d show "\<bar>epoch_of p\<bar> \<le> 8640000000000000" by (simp add: epoch_of_def MS_PER_DAY_def flip: d_def)
  from d show "\<bar>MS_PER_DAY * make_day (cp_year p) (cp_month p - 1) (cp_day p)\<bar> \<le> 8640000000000000"
    by (simp add: MS_PER_DAY_def flip: d_def)
qed

lemma calendarEpoch_real:
  assumes "real_date p" "0 \<le> cp_year p" "cp_year p \<le> 9999"
  shows "calendarEpoch p = Inr (epoch_of p)"
proof -
  note c = epoch_clip [OF assms]
  have z: "setUTCHours 0 0 0 0 0 = Some 0" by (simp add: setUTCHours_def make_time_def time_clip_def MS_PER_DAY_def)
  have y: "setUTCFullYear 0 (cp_year p) (cp_month p - 1) (cp_day p) =
      Some (MS_PER_DAY * make_day (cp_year p) (cp_month p - 1) (cp_day p))"
    using c(2) by (simp add: setUTCFullYear_def time_clip_def)
  have h: "setUTCHours (MS_PER_DAY * make_day (cp_year p) (cp_month p - 1) (cp_day p)) (cp_hour p) (cp_minute p) (cp_second p)
      (cp_millisecond p) = Some (epoch_of p)"
    using c(1) by (simp add: setUTCHours_def time_clip_def epoch_of_def MS_PER_DAY_def)
  show ?thesis by (simp add: calendarEpoch_def z y h parts_of_epoch [OF assms(1)])
qed

section \<open>Created records\<close>

lemma futureInstant_Inr: "futureInstant e now = Inr s \<longleftrightarrow>
    \<bar>now\<bar> \<le> MAX_SAFE_INTEGER \<and> four_digit_year e \<and> now < e \<and> s = toISOString e"
proof -
  have "four_digit_year e \<longleftrightarrow> MIN_FOUR_DIGIT_YEAR_MS \<le> e \<and> e \<le> MAX_FOUR_DIGIT_YEAR_MS"
    by (simp add: four_digit_year_def)
  then show ?thesis using UTC_INSTANT_iso [of e] four_digit_safe [of e] by (auto simp: futureInstant_def)
qed

lemma digit_not_space: "digit c \<Longrightarrow> \<not> js_space c"
  by (auto simp: digit_def js_space_def)

lemma trimmed: "s \<noteq> [] \<Longrightarrow> \<not> js_space (hd s) \<Longrightarrow> \<not> js_space (last s) \<Longrightarrow> normalString s"
  by (simp add: normalString_def js_trim_def dropWhile_hd hd_rev)

lemma last_show_nat: "last (show_nat n) = digit_char (n mod 10)" "show_nat n \<noteq> []"
  by (subst show_nat.simps, simp)+

lemma normal_sequence_id: "normalString (sequence_id n)"
  by (rule trimmed) (simp_all add: sequence_id_def last_show_nat digit_not_space digit_of_char, simp add: js_space_def)

lemma allocate_sequence: "\<exists>m. allocate_from seen n = sequence_id m"
  by (induction seen n rule: allocate_from.induct) (simp add: allocate_from.simps)

lemma allocated_normal: "normalString (allocateScheduleId fs)"
  using allocate_sequence normal_sequence_id unfolding allocateScheduleId_def by metis

lemma create_record_ok:
  assumes "create_record tz i prompt rule now = Inr r" "normalString i" "\<bar>now\<bar> \<le> 8640000000000000"
  shows "schedule_ok r \<and> sr_id r = i \<and> (case date_parse (sr_scheduledAt r) of Some t \<Rightarrow> now < t | None \<Rightarrow> False)"
proof -
  have prompt: "normalString (js_trim prompt)" if "js_trim prompt \<noteq> []" using that by (rule js_trim_normal)
  have far: "k \<le> MAX_SAFE_INTEGER" if "four_digit_year (now + k)" for k
    using that assms(3) by (auto simp: four_digit_year_def MAX_FOUR_DIGIT_YEAR_MS_def MAX_SAFE_INTEGER_def)
  show ?thesis
  proof (cases rule)
    case (AfterRule n)
    with assms show ?thesis
      by (cases n) (auto simp: createAfterScheduleRecord_def rbind_Inr_iff futureInstant_Inr schedule_ok_def prompt
          canonical_instant_iff split: if_splits)
  next
    case (EveryRule n)
    with assms far [of "num_int n * 1000"] show ?thesis
      by (auto simp: createEveryScheduleRecord_def rbind_Inr_iff futureInstant_Inr schedule_ok_def prompt
          canonical_instant_iff split: if_splits)
  next
    case (AtRule v)
    with assms show ?thesis
      by (auto simp: createAtScheduleRecord_def rbind_Inr_iff futureInstant_Inr schedule_ok_def prompt
          canonical_instant_iff split: if_splits)
  qed
qed

lemma fold_snoc:
  assumes "foldScheduleEvents log n = Inr fs"
  shows "foldScheduleEvents (log @ [e]) n =
    rbind (schedule_event_step (open_batch fs) e) (\<lambda>b. Inr (close_batch b))"
proof -
  obtain b where b: "n \<le> length log" "run schedule_event_step (open_batch no_schedules) (drop n log) = Inr b"
    "fs = close_batch b" "batch_inv (List.map_filter change_of (drop n log)) b"
    using assms by (rule fold_elim)
  then show ?thesis by (simp add: foldScheduleEvents_def run_snoc open_close [OF b(4)])
qed

lemma created_accepted:
  assumes "foldScheduleEvents log n = Inr fs" "schedule_ok r" "sr_id r \<notin> set (fs_seenIds fs)"
  shows "foldScheduleEvents (log @ [log_event s t (ScheduleChange (schedule_json (CreateSchedule r)))]) n =
    Inr \<lparr>fs_active = fs_active fs @ [r], fs_seenIds = fs_seenIds fs @ [sr_id r]\<rparr>"
proof -
  obtain b where b: "fs = close_batch b" "batch_inv (List.map_filter change_of (drop n log)) b"
    using assms(1) by (rule fold_elim)
  have seen: "sr_id r \<notin> set (sb_seen b)" using assms(3) b(1) by (simp add: close_batch_def)
  have "fst ` set (sb_active b) \<subseteq> set (sb_seen b)"
    using b(2) unfolding batch_inv_def by (metis (no_types, lifting) filter_is_subset list.set_map)
  with seen have "map_set (sr_id r) r (sb_active b) = sb_active b @ [(sr_id r, r)]" by (intro update_fresh) blast
  with seen show ?thesis
    using decode_schedule_json [of "CreateSchedule r"] assms(2)
    unfolding fold_snoc [OF assms(1)] b(1) open_close [OF b(2)]
    by (simp add: schedule_event_step_def log_event_def set_add_def close_batch_def del: schedule_json.simps)
qed

text \<open>
  A reminder created under the allocated identity is due strictly after the creation time, and
  the change that records it is accepted by the replay, which appends it to the active reminders
  and its identity to the used ones.
\<close>

theorem created_reminder_is_accepted:
  assumes "foldScheduleEvents log n = Inr fs"
    and "create_record tz (allocateScheduleId fs) prompt rule now = Inr r"
    and "\<bar>now\<bar> \<le> 8640000000000000"
  shows "(case date_parse (sr_scheduledAt r) of Some target \<Rightarrow> now < target | None \<Rightarrow> False)
    \<and> foldScheduleEvents (log @ [log_event (length log) t (ScheduleChange (schedule_json (CreateSchedule r)))]) n =
        Inr \<lparr>fs_active = fs_active fs @ [r], fs_seenIds = fs_seenIds fs @ [allocateScheduleId fs]\<rparr>"
proof -
  have r: "schedule_ok r" "sr_id r = allocateScheduleId fs"
    "case date_parse (sr_scheduledAt r) of Some target \<Rightarrow> now < target | None \<Rightarrow> False"
    using create_record_ok [OF assms(2) allocated_normal assms(3)] by auto
  moreover have "sr_id r \<notin> set (fs_seenIds fs)" by (simp add: r(2) allocateScheduleId_def allocate_fresh)
  ultimately show ?thesis using created_accepted [OF assms(1)] by simp
qed

definition sample_created :: schedule_record where
  "sample_created = AfterRecord ''schedule-3'' ''tea'' 90 ''2025-01-01T00:01:30.000Z''"

theorem created_reminder_is_accepted_witness:
  "foldScheduleEvents (sample_reminders @ [log_event 4 0 (ScheduleChange (schedule_json (CreateSchedule sample_created)))]) 0
    = Inr \<lparr>fs_active = fs_active sample_folded @ [sample_created],
           fs_seenIds = [''schedule-1'', ''schedule-2'', ''schedule-3'']\<rparr>"
proof -
  have "create_record tz (allocateScheduleId sample_folded) '' tea '' (AfterRule (NInt 90)) 1735689600000 = Inr sample_created" for tz
    by code_simp
  moreover have "\<bar>1735689600000 :: int\<bar> \<le> 8640000000000000" by simp
  ultimately have "(case date_parse (sr_scheduledAt sample_created) of Some target \<Rightarrow> 1735689600000 < target | None \<Rightarrow> False)
    \<and> foldScheduleEvents (sample_reminders @ [log_event (length sample_reminders) 0 (ScheduleChange (schedule_json (CreateSchedule sample_created)))]) 0 =
        Inr \<lparr>fs_active = fs_active sample_folded @ [sample_created], fs_seenIds = fs_seenIds sample_folded @ [allocateScheduleId sample_folded]\<rparr>"
    by (intro created_reminder_is_accepted [OF sample_reminders_fold])
  then
  have "foldScheduleEvents (sample_reminders @ [log_event (length sample_reminders) 0 (ScheduleChange (schedule_json (CreateSchedule sample_created)))]) 0
    = Inr \<lparr>fs_active = fs_active sample_folded @ [sample_created],
           fs_seenIds = fs_seenIds sample_folded @ [allocateScheduleId sample_folded]\<rparr>"
    by blast
  moreover have "length sample_reminders = 4" "fs_seenIds sample_folded @ [allocateScheduleId sample_folded] = [''schedule-1'', ''schedule-2'', ''schedule-3'']"
    by code_simp+
  ultimately show ?thesis by (simp only:)
qed

section \<open>Local times resolve to the first instant that shows them\<close>

lemma map_result_Some: "(\<And>x. x \<in> set xs \<Longrightarrow> f x = Inr (g x)) \<Longrightarrow> map_result f xs = Inr (map g xs)"
  by (induction xs) simp_all

lemma set_foldl_add: "set (foldl (\<lambda>s x. set_add x s) acc xs) = set acc \<union> set xs"
  by (induction xs arbitrary: acc) auto

lemma in_shown: "c \<in> set (shown rs) \<longleftrightarrow> Some (c, True) \<in> set rs"
  by (induction rs rule: shown.induct) auto

lemma sort_head:
  assumes "sort xs = c # rest"
  shows "c \<in> set xs" "x \<in> set xs \<Longrightarrow> c \<le> (x :: int)"
proof -
  have "sorted (c # rest)" "set (c # rest) = set xs" by (simp_all flip: assms)
  then show "c \<in> set xs" "x \<in> set xs \<Longrightarrow> c \<le> x" by auto
qed

lemma sample_at_range: "four_digit_year (sample_at e)"
  by (auto simp: sample_at_def four_digit_year_def MIN_FOUR_DIGIT_YEAR_MS_def MAX_FOUR_DIGIT_YEAR_MS_def)

lemma parts_inject: "parts_of a = parts_of b \<longleftrightarrow> a = b"
  by (metis epoch_of_parts)

text \<open>
  The time-zone service on one zone: the fields are those of the instant moved by the zone's offset,
  and the offset name denotes that offset.
\<close>

definition zone_shows :: "intl \<Rightarrow> string \<Rightarrow> (int \<Rightarrow> int) \<Rightarrow> bool" where
  "zone_shows tz zone off \<longleftrightarrow>
     (\<forall>e. four_digit_year e \<longrightarrow>
        fst (in_format tz zone e) = parts_of (e + off e) \<and> offset_name (snd (in_format tz zone e)) = Some (off e))"

lemma projection_shows: "zone_shows tz zone off \<Longrightarrow> four_digit_year e \<Longrightarrow>
    localProjection tz zone e = Inr (parts_of (e + off e), off e)"
  by (auto simp: zone_shows_def localProjection_def split: prod.splits)

lemma candidate_shows:
  assumes "zone_shows tz zone off"
  shows "local_candidate tz zone parts c = Inr (if four_digit_year c then Some (c, parts_of (c + off c) = parts) else None)"
  using projection_shows [OF assms, of c] by (auto simp: local_candidate_def four_digit_year_def)

lemma resolve_candidates:
  assumes z: "zone_shows tz zone off" and p: "calendarEpoch parts = Inr e"
  defines "offs \<equiv> (\<lambda>d. off (sample_at (e + d))) ` {-172800000, -86400000, 0, 86400000, 172800000}"
  shows "case resolveLocalInstant tz parts zone of
      Inr c \<Rightarrow> four_digit_year c \<and> parts_of (c + off c) = parts \<and> e - c \<in> offs
        \<and> (\<forall>x. four_digit_year x \<longrightarrow> parts_of (x + off x) = parts \<longrightarrow> e - x \<in> offs \<longrightarrow> c \<le> x)
    | Inl err \<Rightarrow> \<forall>x. four_digit_year x \<longrightarrow> parts_of (x + off x) = parts \<longrightarrow> e - x \<notin> offs"
proof -
  define ds where "ds = [-172800000, -86400000, 0, 86400000, 172800000 :: int]"
  define os where "os = foldl (\<lambda>s x. set_add x s) [] (map (\<lambda>d. off (sample_at (e + d))) ds)"
  define cand where "cand = (\<lambda>o'. let c = e - o' in if four_digit_year c then Some (c, parts_of (c + off c) = parts) else None)"
  have s: "map_result (\<lambda>d. rbind (localProjection tz zone (sample_at (e + d))) (\<lambda>(_, o'). Inr o')) ds
      = Inr (map (\<lambda>d. off (sample_at (e + d))) ds)"
    by (rule map_result_Some) (simp add: projection_shows [OF z sample_at_range])
  have f: "map_result (\<lambda>o'. local_candidate tz zone parts (e - o')) os = Inr (map cand os)"
    by (rule map_result_Some) (simp add: candidate_shows [OF z] cand_def Let_def)
  have os: "set os = offs" unfolding os_def set_foldl_add ds_def offs_def by auto
  have found: "c \<in> set (shown (map cand os)) \<longleftrightarrow> four_digit_year c \<and> parts_of (c + off c) = parts \<and> e - c \<in> offs" for c
    unfolding in_shown os [symmetric]
    by (auto simp: cand_def Let_def split: if_splits intro!: image_eqI [of _ _ "e - c"])
  have r: "resolveLocalInstant tz parts zone =
      (case sort (shown (map cand os)) of c # _ \<Rightarrow> Inr c
       | [] \<Rightarrow> if None \<in> set (map cand os) then Inl TimeOutOfRange else Inl InvalidRule)"
    using p s f unfolding resolveLocalInstant_def ds_def [symmetric] by (simp add: Let_def os_def)
  show ?thesis
  proof (cases "sort (shown (map cand os))")
    case Nil
    then have "shown (map cand os) = []" by (metis set_empty set_sort)
    with found have "\<not> (four_digit_year x \<and> parts_of (x + off x) = parts \<and> e - x \<in> offs)" for x
      by (metis empty_iff list.set(1))
    with r Nil show ?thesis by simp
  next
    case (Cons c rest)
    with sort_head [OF Cons] found r show ?thesis by simp
  qed
qed

text \<open>
  C32: For a zone whose offsets are less than a day and change at most once within two days of the
  local time, a local time resolves to the first instant at which the zone shows it, also where the
  clocks are put back and it is shown twice; it is refused only when no instant of the years 1 to
  9999 shows it.
\<close>

theorem local_time_resolves_to_first_instant:
  assumes "zone_shows tz zone off"
    and "calendarEpoch parts = Inr e"
    and "\<forall>x. \<bar>off x\<bar> < 86400000"
    and "\<forall>x. e - 172800000 \<le> x \<and> x \<le> e + 172800000 \<longrightarrow> off x = (if x < switch then before else after)"
  shows "case resolveLocalInstant tz parts zone of
      Inr c \<Rightarrow> four_digit_year c \<and> fst (in_format tz zone c) = parts
        \<and> (\<forall>x. four_digit_year x \<and> fst (in_format tz zone x) = parts \<longrightarrow> c \<le> x)
    | Inl err \<Rightarrow> \<forall>x. four_digit_year x \<longrightarrow> fst (in_format tz zone x) \<noteq> parts"
proof -
  define offs where "offs = (\<lambda>d. off (sample_at (e + d))) ` {-172800000, -86400000, 0, 86400000, 172800000}"
  have disp: "fst (in_format tz zone x) = parts_of (x + off x)" if "four_digit_year x" for x
    using assms(1) that by (simp add: zone_shows_def)
  have parts: "parts = parts_of e" using calendarEpoch_Inr [OF assms(2)] by (simp add: parts_of_epoch)
  have sampled: "e - x \<in> offs" if x: "four_digit_year x" "parts_of (x + off x) = parts" for x
  proof -
    have ex: "e - x = off x" using x(2) by (simp add: parts parts_inject)
    moreover have "\<bar>off x\<bar> < 86400000" using assms(3) by blast
    ultimately have w: "e - 86400000 < x" "x < e + 86400000" by linarith+
    then have lo: "e - 172800000 \<le> sample_at (e + -172800000)" "sample_at (e + -172800000) \<le> x"
      "sample_at (e + -172800000) \<le> e + 172800000"
      and hi: "x \<le> sample_at (e + 172800000)" "sample_at (e + 172800000) \<le> e + 172800000" "e - 172800000 \<le> sample_at (e + 172800000)"
      using x(1) by (auto simp: sample_at_def four_digit_year_def)
    have "off x = off (sample_at (e + -172800000)) \<or> off x = off (sample_at (e + 172800000))"
      using assms(4) w lo hi by auto
    with ex show ?thesis by (auto simp: offs_def)
  qed
  show ?thesis
  proof (cases "resolveLocalInstant tz parts zone")
    case (Inl err)
    with resolve_candidates [OF assms(1,2), folded offs_def] sampled disp show ?thesis by simp
  next
    case (Inr c)
    with resolve_candidates [OF assms(1,2), folded offs_def] sampled disp show ?thesis by auto
  qed
qed

text \<open>A zone two hours ahead until 2024-10-27T01:00Z and one hour ahead from then on.\<close>

definition sample_offset :: "int \<Rightarrow> int" where
  "sample_offset e = (if e < 1729990800000 then 7200000 else 3600000)"

definition sample_intl :: intl where
  "sample_intl =
     \<lparr>in_canonical = Some,
      in_format = (\<lambda>_ e. (parts_of (e + sample_offset e), if e < 1729990800000 then ''GMT+02:00'' else ''GMT+01:00''))\<rparr>"

definition sample_local :: calendar_parts where
  "sample_local = date_time (2024, 10, 27) (2, 30, 0, 0)"

theorem local_time_resolves_to_first_instant_witness:
  "resolveLocalInstant sample_intl sample_local ''Europe/Paris'' = Inr 1729989000000
   \<and> fst (in_format sample_intl ''Europe/Paris'' 1729989000000) = sample_local
   \<and> fst (in_format sample_intl ''Europe/Paris'' 1729992600000) = sample_local"
proof -
  have n: "offset_name ''GMT+02:00'' = Some 7200000" "offset_name ''GMT+01:00'' = Some 3600000" by code_simp+
  have z: "zone_shows sample_intl ''Europe/Paris'' sample_offset"
    by (simp add: zone_shows_def sample_intl_def sample_offset_def n)
  have e: "calendarEpoch sample_local = Inr 1729996200000" by code_simp
  have o: "\<forall>x. \<bar>sample_offset x\<bar> < 86400000" by (simp add: sample_offset_def)
  have s: "\<forall>x. 1729996200000 - 172800000 \<le> x \<and> x \<le> 1729996200000 + 172800000 \<longrightarrow>
      sample_offset x = (if x < 1729990800000 then 7200000 else 3600000)"
    by (simp add: sample_offset_def)
  have l: "sample_local = parts_of 1729996200000" using calendarEpoch_Inr [OF e] parts_of_epoch by metis
  have "local_candidate sample_intl ''Europe/Paris'' sample_local c =
      Inr (if four_digit_year c then Some (c, c + sample_offset c = 1729996200000) else None)" for c
    by (simp add: candidate_shows [OF z] l parts_inject)
  then have r: "resolveLocalInstant sample_intl sample_local ''Europe/Paris'' = Inr 1729989000000"
    by (simp add: resolveLocalInstant_def e projection_shows [OF z sample_at_range])
      (simp add: sample_at_def MIN_FOUR_DIGIT_YEAR_MS_def MAX_FOUR_DIGIT_YEAR_MS_def sample_offset_def set_add_def
        four_digit_year_def)
  with local_time_resolves_to_first_instant [OF z e o s]
  have "fst (in_format sample_intl ''Europe/Paris'' 1729989000000) = sample_local" by simp
  moreover have "fst (in_format sample_intl ''Europe/Paris'' 1729992600000) = sample_local" by code_simp
  ultimately show ?thesis using r by blast
qed

end
