(* ===== verification/Schedule_Runtime.thy ===== *)
theory Schedule_Runtime
  imports Schedule_Create Schedule_Framing Session_Log "HOL-Library.Product_Lexorder" "HOL-Library.While_Combinator"
begin

text \<open>
  The live timer of one agent's reminders, schedule/schedule/src/runtime.ts: the decision what is
  due, one drive (preflight, wake, maintenance claim, durable dispatch, barrier) and the loop that
  drains requested drives. The agent, its persistence and the clock are inputs of a drive. The
  results: the decision picks the due one-shot reminder with the least target, first created first;
  every change a drive appends is accepted by the replay; and a requested loop at a fixed clock ends
  having delivered every due reminder in order and armed the timer for the next one.
\<close>

definition MAX_TIMER_DELAY_MS :: int where
  "MAX_TIMER_DELAY_MS = 2147483647"

section \<open>The decision\<close>

datatype due_decision =
    OneShot schedule_record
  | EveryBatch "(schedule_record \<times> string) list" string
  | Wait "int option"

fun is_every :: "schedule_record \<Rightarrow> bool" where
  "is_every (EveryRecord _ _ _ _) = True"
| "is_every _ = False"

text \<open>Comparisons with NaN are false; the sort only sees records that compared true.\<close>

definition due_at :: "int \<Rightarrow> schedule_record \<Rightarrow> bool" where
  "due_at now r = (case date_parse (sr_scheduledAt r) of None \<Rightarrow> False | Some t \<Rightarrow> t \<le> now)"

definition target_ms :: "schedule_record \<Rightarrow> int" where
  "target_ms r = (case date_parse (sr_scheduledAt r) of None \<Rightarrow> 0 | Some t \<Rightarrow> t)"

definition byTargetThenCreate :: "schedule_record \<times> nat \<Rightarrow> int \<times> nat" where
  "byTargetThenCreate entry = (target_ms (fst entry), snd entry)"

definition next_target :: "int \<Rightarrow> schedule_record list \<Rightarrow> int option" where
  "next_target now rs =
     foldl (\<lambda>selected r.
       case date_parse (sr_scheduledAt r) of
         None \<Rightarrow> selected
       | Some c \<Rightarrow> if c > now \<and> (case selected of None \<Rightarrow> True | Some s \<Rightarrow> c < s) then Some c else selected) None rs"

definition every_due :: "int \<Rightarrow> schedule_record \<Rightarrow> schedule_error + schedule_record \<times> string" where
  "every_due now r =
     rbind (resolveEveryOccurrence (sr_everySeconds r) (sr_scheduledAt r) (Some now)) (\<lambda>(occ, _). Inr (r, occ))"

definition dueDecision :: "folded_schedules \<Rightarrow> int \<Rightarrow> schedule_error + due_decision" where
  "dueDecision fs now =
     (let indexed = zip (fs_active fs) [0..<length (fs_active fs)] in
      case sort_key byTargetThenCreate (filter (\<lambda>(r, _). \<not> is_every r \<and> due_at now r) indexed) of
        (r, _) # _ \<Rightarrow> Inr (OneShot r)
      | [] \<Rightarrow>
          (case sort_key byTargetThenCreate (filter (\<lambda>(r, _). is_every r \<and> due_at now r) indexed) of
             [] \<Rightarrow> Inr (Wait (next_target now (fs_active fs)))
           | every \<Rightarrow>
               rbind (map_result (\<lambda>(r, _). every_due now r) every) (\<lambda>reminders.
                 Inr (EveryBatch reminders (toISOString now)))))"

section \<open>State\<close>

record schedule_runtime =
  srt_timer :: "int option"
  srt_requested :: bool
  srt_stopping :: bool
  srt_faulted :: bool
  srt_idleWait :: bool

record schedule_world =
  sw_session :: session
  sw_runtime :: schedule_runtime
  sw_followups :: "string list"

text \<open>
  What a drive meets: whether the agent is still the live root one at each of the four checks,
  whether the two persistence barriers succeed, the clock at the wake and at the claim, whether the
  agent is idle, whether \<open>followup\<close> takes the message, and the session's append.
\<close>

record drive_env =
  de_live :: "nat \<Rightarrow> bool"
  de_flush :: bool
  de_barrier :: bool
  de_wake :: int
  de_claim :: int
  de_idle :: bool
  de_followup :: bool
  de_appending :: bool
  de_accepts :: "session_event \<Rightarrow> bool"
  de_stamp :: int

definition set_runtime :: "schedule_world \<Rightarrow> (schedule_runtime \<Rightarrow> schedule_runtime) \<Rightarrow> schedule_world" where
  "set_runtime w f = w\<lparr>sw_runtime := f (sw_runtime w)\<rparr>"

definition clearTimer :: "schedule_world \<Rightarrow> schedule_world" where
  "clearTimer w = set_runtime w (\<lambda>rt. rt\<lparr>srt_timer := None\<rparr>)"

definition requestDrive :: "schedule_world \<Rightarrow> schedule_world" where
  "requestDrive w =
     (if srt_stopping (sw_runtime w) \<or> srt_faulted (sw_runtime w) then w
      else set_runtime (clearTimer w) (\<lambda>rt. rt\<lparr>srt_requested := True\<rparr>))"

definition arm :: "int option \<Rightarrow> int \<Rightarrow> schedule_world \<Rightarrow> schedule_world" where
  "arm target now w =
     (case target of
        None \<Rightarrow> w
      | Some t \<Rightarrow> set_runtime w (\<lambda>rt. rt\<lparr>srt_timer := Some (min (t - now) MAX_TIMER_DELAY_MS)\<rparr>))"

definition timer_fires :: "schedule_world \<Rightarrow> schedule_world" where
  "timer_fires w = requestDrive (clearTimer w)"

definition waitForIdle :: "schedule_world \<Rightarrow> schedule_world" where
  "waitForIdle w = set_runtime w (\<lambda>rt. rt\<lparr>srt_idleWait := True\<rparr>)"

definition idle_settles :: "bool \<Rightarrow> schedule_world \<Rightarrow> schedule_world" where
  "idle_settles ok w =
     (let w' = set_runtime w (\<lambda>rt. rt\<lparr>srt_idleWait := False\<rparr>) in if ok then requestDrive w' else w')"

definition dispose :: "schedule_world \<Rightarrow> schedule_world" where
  "dispose w = clearTimer (set_runtime w (\<lambda>rt. rt\<lparr>srt_stopping := True, srt_requested := False\<rparr>))"

definition readFolded :: "schedule_world \<Rightarrow> schedule_world \<times> folded_schedules option" where
  "readFolded w =
     (case ownEvents (sw_session w) of (se, evs) \<Rightarrow>
        (case foldScheduleEvents evs 0 of
           Inl _ \<Rightarrow> (set_runtime (w\<lparr>sw_session := se\<rparr>) (\<lambda>rt. rt\<lparr>srt_faulted := True\<rparr>), None)
         | Inr fs \<Rightarrow> (w\<lparr>sw_session := se\<rparr>, Some fs)))"

section \<open>One drive\<close>

definition runnable :: "drive_env \<Rightarrow> nat \<Rightarrow> schedule_world \<Rightarrow> bool" where
  "runnable env i w \<longleftrightarrow> \<not> srt_stopping (sw_runtime w) \<and> de_live env i"

text \<open>Up to the call of \<open>runMaintenance\<close>; the flag says that a claim was admitted.\<close>

definition drive_wake :: "drive_env \<Rightarrow> schedule_world \<Rightarrow> schedule_world \<times> bool" where
  "drive_wake env w0 =
     (let w = clearTimer w0 in
      if \<not> runnable env 0 w \<or> \<not> de_flush env \<or> \<not> runnable env 1 w then (w, False)
      else case readFolded w of
        (w1, None) \<Rightarrow> (w1, False)
      | (w1, Some fs) \<Rightarrow>
          (case dueDecision fs (de_wake env) of
             Inl _ \<Rightarrow> (w1, False)
           | Inr (Wait target) \<Rightarrow> (arm target (de_wake env) w1, False)
           | Inr _ \<Rightarrow>
               if \<not> de_idle env then (if de_live env 1 then waitForIdle w1 else w1, False)
               else (w1, True)))"

fun framing :: "due_decision \<Rightarrow> string" where
  "framing (OneShot r) = renderReminderFraming r"
| "framing (EveryBatch reminders _) = renderEveryReminderBatchFraming reminders"
| "framing (Wait _) = []"

fun dispatches :: "due_decision \<Rightarrow> schedule_change list" where
  "dispatches (OneShot r) = [DispatchSchedule (sr_id r) None]"
| "dispatches (EveryBatch reminders acceptedAt) =
     map (\<lambda>(r, _). DispatchSchedule (sr_id r) (Some acceptedAt)) reminders"
| "dispatches (Wait _) = []"

fun append_changes :: "drive_env \<Rightarrow> schedule_change list \<Rightarrow> session \<Rightarrow> session \<times> session_error option" where
  "append_changes env [] se = (se, None)"
| "append_changes env (c # cs) se =
     (case append_event (de_appending env) (de_accepts env) (de_stamp env) (ScheduleChange (schedule_json c)) None None se of
        (se', Inl err) \<Rightarrow> (se', Some err)
      | (se', Inr _) \<Rightarrow> append_changes env cs se')"

text \<open>The maintenance task; the flag is its result.\<close>

definition drive_claim :: "drive_env \<Rightarrow> schedule_world \<Rightarrow> schedule_world \<times> bool" where
  "drive_claim env w =
     (if \<not> runnable env 2 w then (w, False)
      else case readFolded w of
        (w1, None) \<Rightarrow> (w1, False)
      | (w1, Some fs) \<Rightarrow>
          (case dueDecision fs (de_claim env) of
             Inl _ \<Rightarrow> (w1, False)
           | Inr (Wait target) \<Rightarrow> (arm target (de_claim env) w1, False)
           | Inr d \<Rightarrow>
               if \<not> de_followup env then (w1, False)
               else
                 let w2 = w1\<lparr>sw_followups := sw_followups w1 @ [framing d]\<rparr> in
                 (case append_changes env (dispatches d) (sw_session w2) of
                    (se, None) \<Rightarrow> (w2\<lparr>sw_session := se\<rparr>, True)
                  | (se, Some _) \<Rightarrow>
                      (clearTimer (set_runtime (w2\<lparr>sw_session := se\<rparr>) (\<lambda>rt. rt\<lparr>srt_faulted := True\<rparr>)), False))))"

definition drive_settle :: "drive_env \<Rightarrow> schedule_world \<Rightarrow> schedule_world" where
  "drive_settle env w =
     (if \<not> de_barrier env then w else if runnable env 3 w then requestDrive w else w)"

definition driveOnce :: "drive_env \<Rightarrow> schedule_world \<Rightarrow> schedule_world" where
  "driveOnce env w =
     (case drive_wake env w of
        (w1, False) \<Rightarrow> w1
      | (w1, True) \<Rightarrow>
          (case drive_claim env w1 of
             (w2, False) \<Rightarrow> w2
           | (w2, True) \<Rightarrow> drive_settle env w2))"

text \<open>The loop of \<open>runRequested\<close>; that it ends is proved below.\<close>

definition wants_drive :: "schedule_world \<Rightarrow> bool" where
  "wants_drive w \<longleftrightarrow>
     srt_requested (sw_runtime w) \<and> \<not> srt_stopping (sw_runtime w) \<and> \<not> srt_faulted (sw_runtime w)"

definition runRequested :: "drive_env \<Rightarrow> schedule_world \<Rightarrow> schedule_world option" where
  "runRequested env =
     while_option wants_drive (\<lambda>w. driveOnce env (set_runtime w (\<lambda>rt. rt\<lparr>srt_requested := False\<rparr>)))"

section \<open>The session under a drive\<close>

lemma candidate_log_event: "candidate log t d None None = log_event (length log) t d"
  by (simp add: candidate_def log_event_def)

lemma record_json_value: "isJsonValue (record_json r)"
  by (cases r) auto

lemma schedule_json_value: "isJsonValue (schedule_json c)"
  by (cases c) (auto simp: opt_field_def record_json_value split: option.splits)

lemma plain_returns:
  assumes "returns (foldSurface log)" "\<not> isSurfaceEligible d"
  shows "returns (foldSurface (log @ [log_event (length log) t d]))"
proof -
  from assms(1) obtain acc where acc: "hrun fold_step [] surface_start log = Inr acc"
    by (auto simp: foldSurface_hrun returns_iff rbind_Inr_iff)
  obtain st reps i where a: "acc = (st, reps, i)" by (rule prod_cases3)
  have "i = length log" using surface_fold.hinv_hrun [OF acc] by (simp add: a surface_inv_def)
  with acc a have "hrun fold_step [] surface_start log = Inr (st, reps, length log)" by simp
  from log_event_folded [OF this assms(2)] show ?thesis by (simp add: foldSurface_hrun returns_iff)
qed

lemma append_change:
  assumes rel: "session_rel inh se log"
  obtains se' where "append_event False (\<lambda>_. True) t (ScheduleChange (schedule_json c)) None None se =
      (se', Inr (log_event (length log) t (ScheduleChange (schedule_json c))))"
    "session_rel inh se' (log @ [log_event (length log) t (ScheduleChange (schedule_json c))])"
proof -
  let ?d = "ScheduleChange (schedule_json c)"
  let ?e = "log_event (length log) t ?d"
  have "returns (foldSurface log)" using rel by (simp add: session_rel_def)
  then have "returns (foldSurface (log @ [?e]))" by (rule plain_returns) simp
  then have l: "log_append False (\<lambda>_. True) t ?d None None log = Inr ?e"
    by (auto simp: log_append_def Let_def candidate_log_event schedule_json_value assertSupportedRequestHeader_def
        metadata_json_def opt_field_def returns_iff)
  obtain se' r where a: "append_event False (\<lambda>_. True) t ?d None None se = (se', r)" by (rule prod.exhaust)
  from append_related [OF rel, of False "\<lambda>_. True" t ?d None None] l a
  have "r = Inr ?e" "session_rel inh se' (log @ [?e])"
    by (auto simp: append_answer_def split: sum.splits)
  with a that show thesis by blast
qed

lemma own_events:
  assumes rel: "session_rel inh se log"
  obtains se' where "ownEvents se = (se', drop inh log)" "session_rel inh se' log"
proof -
  have "se_inheritedEventCount se = inh" "se_log se = log" using rel by (simp_all add: session_rel_def)
  with events_related [OF rel, of inh "length log"] that show thesis
    by (cases "ownEvents se") (simp add: ownEvents_def slice_def)
qed

fun log_changes :: "session_event list \<Rightarrow> int \<Rightarrow> schedule_change list \<Rightarrow> session_event list" where
  "log_changes log t [] = log"
| "log_changes log t (c # cs) = log_changes (log @ [log_event (length log) t (ScheduleChange (schedule_json c))]) t cs"

lemma append_changes_ok:
  assumes "session_rel inh se log" "\<not> de_appending env" "de_accepts env = (\<lambda>_. True)"
  shows "\<exists>se'. append_changes env cs se = (se', None) \<and> session_rel inh se' (log_changes log (de_stamp env) cs)"
  using assms(1)
proof (induction cs arbitrary: se log)
  case (Cons c cs)
  obtain se1 where a: "append_event False (\<lambda>_. True) (de_stamp env) (ScheduleChange (schedule_json c)) None None se =
      (se1, Inr (log_event (length log) (de_stamp env) (ScheduleChange (schedule_json c))))"
    and r: "session_rel inh se1 (log @ [log_event (length log) (de_stamp env) (ScheduleChange (schedule_json c))])"
    using append_change [OF Cons.prems] by blast
  from Cons.IH [OF r] a assms(2,3) show ?case by auto
qed simp

text \<open>The batch that a session's own events fold to.\<close>

definition own_batch :: "nat \<Rightarrow> session_event list \<Rightarrow> schedule_batch \<Rightarrow> bool" where
  "own_batch inh log b \<longleftrightarrow>
     inh \<le> length log \<and> run schedule_event_step (open_batch no_schedules) (drop inh log) = Inr b"

lemma own_batch_fold: "own_batch inh log b \<Longrightarrow> foldScheduleEvents (drop inh log) 0 = Inr (close_batch b)"
  by (simp add: own_batch_def foldScheduleEvents_def)

lemma own_batch_inv: "own_batch inh log b \<Longrightarrow> \<exists>chs. batch_inv chs b"
  unfolding own_batch_def using run_events_inv by blast

lemma own_batch_of_fold:
  assumes "foldScheduleEvents (drop inh log) 0 = Inr fs" "inh \<le> length log"
  obtains b where "own_batch inh log b" "fs = close_batch b"
  using assms by (elim fold_elim) (auto simp: own_batch_def)

lemma own_batch_change:
  assumes "own_batch inh log b" "schedule_change_ok c" "change_step b c = Inr b'"
  shows "own_batch inh (log @ [log_event (length log) t (ScheduleChange (schedule_json c))]) b'"
  using assms decode_schedule_json [OF assms(2)]
  by (simp add: own_batch_def run_snoc schedule_event_step_def)

lemma own_batch_changes:
  assumes "own_batch inh log b" "list_all schedule_change_ok cs" "run change_step b cs = Inr b'"
  shows "own_batch inh (log_changes log t cs) b'"
  using assms
proof (induction cs arbitrary: log b)
  case (Cons c cs)
  then obtain b1 where "change_step b c = Inr b1" "run change_step b1 cs = Inr b'" by (auto simp: rbind_Inr_iff)
  with Cons.prems own_batch_change [OF Cons.prems(1), of c b1 t] show ?case by (auto intro: Cons.IH)
qed simp

section \<open>What is due, in order\<close>

definition due_shots :: "int \<Rightarrow> schedule_record list \<Rightarrow> schedule_record list" where
  "due_shots now rs = sort_key target_ms (filter (\<lambda>r. \<not> is_every r \<and> due_at now r) rs)"

definition due_everys :: "int \<Rightarrow> schedule_record list \<Rightarrow> schedule_record list" where
  "due_everys now rs = sort_key target_ms (filter (\<lambda>r. is_every r \<and> due_at now r) rs)"

lemma insort_indexed:
  "\<forall>y\<in>set ys. n < snd y \<Longrightarrow>
   map fst (insort_key byTargetThenCreate (r, n) ys) = insort_key target_ms r (map fst ys)"
  by (induction ys) (auto simp: byTargetThenCreate_def less_eq_prod_def)

lemma sort_indexed:
  "map fst (sort_key byTargetThenCreate (filter (\<lambda>(r, _). P r) (zip rs [n..<n + length rs])))
    = sort_key target_ms (filter P rs)"
proof (induction rs arbitrary: n)
  case (Cons r rs)
  have u: "[n..<n + length (r # rs)] = n # [Suc n..<Suc n + length rs]"
    using upt_conv_Cons [of n "n + length (r # rs)"] by simp
  have z: "zip (r # rs) [n..<n + length (r # rs)] = (r, n) # zip rs [Suc n..<Suc n + length rs]"
    by (simp only: u zip_Cons_Cons)
  have "\<forall>y\<in>set (sort_key byTargetThenCreate (filter (\<lambda>(r, _). P r) (zip rs [Suc n..<Suc n + length rs]))). n < snd y"
    by (auto dest: set_zip_rightD simp del: upt_Suc)
  with Cons.IH [of "Suc n"] show ?case unfolding z by (simp add: insort_indexed)
qed simp

lemma map_result_fst: "map_result (\<lambda>(r, _). f r) xs = map_result f (map fst xs)"
  by (induction xs) auto

lemma dueDecision_eq:
  "dueDecision fs now =
     (case due_shots now (fs_active fs) of
        r # _ \<Rightarrow> Inr (OneShot r)
      | [] \<Rightarrow> (case due_everys now (fs_active fs) of
          [] \<Rightarrow> Inr (Wait (next_target now (fs_active fs)))
        | e # es \<Rightarrow> rbind (map_result (every_due now) (e # es)) (\<lambda>rs. Inr (EveryBatch rs (toISOString now)))))"
proof -
  let ?ix = "zip (fs_active fs) [0..<length (fs_active fs)]"
  define S E where "S = sort_key byTargetThenCreate (filter (\<lambda>(r, _). \<not> is_every r \<and> due_at now r) ?ix)"
    and "E = sort_key byTargetThenCreate (filter (\<lambda>(r, _). is_every r \<and> due_at now r) ?ix)"
  have s: "map fst S = due_shots now (fs_active fs)" "map fst E = due_everys now (fs_active fs)"
    using sort_indexed [of "\<lambda>r. \<not> is_every r \<and> due_at now r" "fs_active fs" 0]
      sort_indexed [of "\<lambda>r. is_every r \<and> due_at now r" "fs_active fs" 0]
    by (simp_all add: S_def E_def due_shots_def due_everys_def)
  show ?thesis
    unfolding dueDecision_def Let_def S_def [symmetric] E_def [symmetric] s [symmetric] map_result_fst
    by (simp split: list.split prod.split)
qed

section \<open>What a dispatch leaves\<close>

text \<open>The record after a dispatch accepted at a time, \<open>None\<close> when it is finished.\<close>

definition after :: "int \<Rightarrow> schedule_record \<Rightarrow> schedule_record option" where
  "after now r =
     (case r of
        EveryRecord i p n s \<Rightarrow>
          (let d = latest_due (n * 1000) (target_ms r) now in
           if d + n * 1000 \<le> MAX_FOUR_DIGIT_YEAR_MS then Some (EveryRecord i p n (toISOString (d + n * 1000))) else None)
      | _ \<Rightarrow> None)"

definition dispatch_of :: "int \<Rightarrow> schedule_record \<Rightarrow> schedule_change" where
  "dispatch_of now r = DispatchSchedule (sr_id r) (if is_every r then Some (toISOString now) else None)"

definition latest_text :: "int \<Rightarrow> schedule_record \<Rightarrow> string" where
  "latest_text now r = toISOString (latest_due (sr_everySeconds r * 1000) (target_ms r) now)"

lemma due_every_resolves:
  assumes "schedule_ok (EveryRecord i p n s)" "due_at now (EveryRecord i p n s)" "four_digit_year now"
  defines "d \<equiv> latest_due (n * 1000) (target_ms (EveryRecord i p n s)) now"
  shows "resolveEveryOccurrence n s (Some now) = Inr (toISOString d,
      if d + n * 1000 \<le> MAX_FOUR_DIGIT_YEAR_MS then Some (toISOString (d + n * 1000)) else None)"
proof -
  obtain t where t: "date_parse s = Some t" "toISOString t = s" "four_digit_year t"
    using assms(1) canonical_parse by (auto simp: schedule_ok_def)
  have "t \<le> now" "target_ms (EveryRecord i p n s) = t" using assms(2) t(1) by (simp_all add: due_at_def target_ms_def)
  with resolve_every [of n t now] assms(1,3) t show ?thesis by (simp add: d_def schedule_ok_def)
qed

lemma every_due_ok:
  assumes "is_every r" "schedule_ok r" "due_at now r" "four_digit_year now"
  shows "every_due now r = Inr (r, latest_text now r)"
  using assms due_every_resolves by (cases r) (simp_all add: every_due_def latest_text_def)

lemma dispatched_after:
  assumes "schedule_ok r" "due_at now r" "four_digit_year now"
  shows "dispatchedRecord r (if is_every r then Some (toISOString now) else None) = Inr (after now r)"
  using assms due_every_resolves by (cases r) (simp_all add: after_def Let_def)

lemma after_not_due:
  assumes "schedule_ok r" "due_at now r" "four_digit_year now" "after now r = Some r'"
  shows "schedule_ok r' \<and> sr_id r' = sr_id r \<and> is_every r' \<and> \<not> due_at now r'"
proof -
  have e: "is_every r" "is_every r'" using assms(4) by (auto simp: after_def Let_def split: schedule_record.splits if_splits)
  have "dispatchedRecord r (Some (toISOString now)) = Inr (Some r')"
    using dispatched_after [OF assms(1-3)] assms(4) e(1) by simp
  from dispatched_record [OF this assms(1)] assms(3) e(2) show ?thesis by (auto simp: due_at_def)
qed

definition keep_after :: "int \<Rightarrow> string set \<Rightarrow> schedule_record \<Rightarrow> schedule_record option" where
  "keep_after now ids x = (if sr_id x \<in> ids then after now x else Some x)"

lemma keep_at [simp]:
  "sr_id x \<in> ids \<Longrightarrow> keep_after now ids x = after now x" "sr_id x \<notin> ids \<Longrightarrow> keep_after now ids x = Some x"
  by (simp_all add: keep_after_def)

lemma keep_all: "sr_id ` set xs \<inter> ids = {} \<Longrightarrow> List.map_filter (keep_after now ids) xs = xs"
  by (induction xs) (auto simp: List.map_filter_simps)

lemma keep_others:
  assumes "\<forall>x\<in>set m. sr_id (snd x) = fst x" "i \<notin> fst ` set m"
  shows "List.map_filter (keep_after now {i}) (map snd m) = map snd m"
  using assms by (intro keep_all) (auto simp: image_iff)

lemma dispatch_active:
  assumes "\<forall>x\<in>set m. sr_id (snd x) = fst x" "distinct (map fst m)" "(i, r) \<in> set m"
  shows "map snd (case after now r of None \<Rightarrow> map_delete i m | Some r' \<Rightarrow> map_set i r' m)
    = List.map_filter (keep_after now {i}) (map snd m)"
  using assms
proof (induction m)
  case (Cons x m)
  show ?case
  proof (cases "fst x = i")
    case True
    with Cons.prems have x: "x = (i, r)" "sr_id r = i" "i \<notin> fst ` set m" by (cases x; force)+
    with keep_others [of m i now] Cons.prems(1) show ?thesis
      by (auto simp: List.map_filter_simps delete_idem split: option.split)
  next
    case False
    with Cons.prems have "(i, r) \<in> set m" "sr_id (snd x) = fst x" by auto
    with Cons False show ?thesis
      by (cases x) (auto simp: List.map_filter_simps split: option.split)
  qed
qed simp

lemma dispatch_step:
  assumes b: "batch_inv chs b" and r: "r \<in> set (fs_active (close_batch b))" "due_at now r" and now: "four_digit_year now"
  obtains b' where "change_step b (dispatch_of now r) = Inr b'" "schedule_change_ok (dispatch_of now r)"
    "close_batch b' = \<lparr>fs_active = List.map_filter (keep_after now {sr_id r}) (fs_active (close_batch b)),
                      fs_seenIds = fs_seenIds (close_batch b)\<rparr>"
proof -
  have ids: "\<forall>x\<in>set (sb_active b). sr_id (snd x) = fst x" "distinct (map fst (sb_active b))"
    using b unfolding batch_inv_def by fastforce+
  have m: "(sr_id r, r) \<in> set (sb_active b)" and ok: "schedule_ok r"
    using b r(1) unfolding batch_inv_def close_batch_def by fastforce+
  have "map_of (sb_active b) (sr_id r) = Some r" using ids(2) m by simp
  moreover define b' where "b' = b\<lparr>sb_active := (case after now r of None \<Rightarrow> map_delete (sr_id r) (sb_active b)
      | Some r' \<Rightarrow> map_set (sr_id r) r' (sb_active b))\<rparr>"
  ultimately have "change_step b (dispatch_of now r) = Inr b'"
    using dispatched_after [OF ok r(2) now] by (simp add: dispatch_of_def split: option.split)
  moreover have "schedule_change_ok (dispatch_of now r)"
    using ok now by (auto simp: dispatch_of_def schedule_ok_def canonical_instant_iff)
  moreover have "close_batch b' = \<lparr>fs_active = List.map_filter (keep_after now {sr_id r}) (fs_active (close_batch b)),
      fs_seenIds = fs_seenIds (close_batch b)\<rparr>"
    using dispatch_active [OF ids m] by (simp add: close_batch_def b'_def)
  ultimately show thesis by (rule that)
qed

lemma after_id: "after now r = Some r' \<Longrightarrow> sr_id r' = sr_id r"
  by (auto simp: after_def Let_def split: schedule_record.splits if_splits)

lemma keep_compose:
  assumes "i \<notin> ids"
  shows "List.map_filter (keep_after now ids) (List.map_filter (keep_after now {i}) xs)
    = List.map_filter (keep_after now (insert i ids)) xs"
proof (induction xs)
  case (Cons x xs)
  show ?case
  proof (cases "sr_id x = i")
    case True
    with assms after_id [of now x] Cons show ?thesis
      by (cases "after now x") (auto simp: List.map_filter_simps)
  next
    case False
    then have "keep_after now (insert i ids) x = keep_after now ids x" by (simp add: keep_after_def)
    with False Cons show ?thesis by (simp add: List.map_filter_simps split: option.split)
  qed
qed simp

lemma dispatch_run:
  assumes "batch_inv chs b" "distinct (map sr_id rs)" "set rs \<subseteq> set (fs_active (close_batch b))"
    "\<forall>r\<in>set rs. due_at now r" "four_digit_year now"
  shows "\<exists>b'. run change_step b (map (dispatch_of now) rs) = Inr b' \<and> list_all schedule_change_ok (map (dispatch_of now) rs)
    \<and> close_batch b' = \<lparr>fs_active = List.map_filter (keep_after now (sr_id ` set rs)) (fs_active (close_batch b)),
                        fs_seenIds = fs_seenIds (close_batch b)\<rparr>"
  using assms
proof (induction rs arbitrary: chs b)
  case Nil
  have "List.map_filter (keep_after now {}) xs = xs" for xs by (rule keep_all) simp
  then show ?case by (simp del: keep_at)
next
  case (Cons r rs)
  from Cons.prems have "r \<in> set (fs_active (close_batch b))" "due_at now r" by auto
  from dispatch_step [OF Cons.prems(1) this Cons.prems(5)] obtain b1 where
    b1: "change_step b (dispatch_of now r) = Inr b1" "schedule_change_ok (dispatch_of now r)"
      "close_batch b1 = \<lparr>fs_active = List.map_filter (keep_after now {sr_id r}) (fs_active (close_batch b)),
                        fs_seenIds = fs_seenIds (close_batch b)\<rparr>" .
  have "batch_inv (chs @ [dispatch_of now r]) b1" using Cons.prems(1) b1(2,1) by (rule change_step_inv)
  moreover have "set rs \<subseteq> set (fs_active (close_batch b1))"
  proof
    fix x assume x: "x \<in> set rs"
    with Cons.prems(2) have "sr_id x \<noteq> sr_id r" by (auto simp: image_iff)
    then have "keep_after now {sr_id r} x = Some x" by simp
    moreover have "x \<in> set (fs_active (close_batch b))" using x Cons.prems(3) by auto
    ultimately show "x \<in> set (fs_active (close_batch b1))" by (auto simp: b1(3) in_map_filter)
  qed
  ultimately obtain b' where b': "run change_step b1 (map (dispatch_of now) rs) = Inr b'"
    "list_all schedule_change_ok (map (dispatch_of now) rs)"
    "close_batch b' = \<lparr>fs_active = List.map_filter (keep_after now (sr_id ` set rs)) (fs_active (close_batch b1)),
                      fs_seenIds = fs_seenIds (close_batch b1)\<rparr>"
    using Cons.IH Cons.prems(2,4,5) by (metis distinct.simps(2) list.set_intros(2) list.simps(9))
  moreover have "sr_id r \<notin> sr_id ` set rs" using Cons.prems(2) by auto
  ultimately show ?case
    using b1 by (simp add: keep_compose)
qed

section \<open>One drive that meets no obstacle\<close>

definition smooth_env :: "drive_env \<Rightarrow> int \<Rightarrow> bool" where
  "smooth_env env now \<longleftrightarrow>
     de_live env = (\<lambda>_. True) \<and> de_flush env \<and> de_barrier env \<and> de_wake env = now \<and> de_claim env = now
     \<and> de_idle env \<and> de_followup env \<and> \<not> de_appending env \<and> de_accepts env = (\<lambda>_. True)"

definition ready :: "nat \<Rightarrow> schedule_world \<Rightarrow> schedule_batch \<Rightarrow> bool" where
  "ready inh w b \<longleftrightarrow>
     (\<exists>log. session_rel inh (sw_session w) log \<and> own_batch inh log b)
     \<and> \<not> srt_stopping (sw_runtime w) \<and> \<not> srt_faulted (sw_runtime w)"

lemma ready_same_session:
  "ready inh w b \<Longrightarrow> sw_session w' = sw_session w \<Longrightarrow> \<not> srt_stopping (sw_runtime w') \<Longrightarrow>
   \<not> srt_faulted (sw_runtime w') \<Longrightarrow> ready inh w' b"
  by (simp add: ready_def)

lemma readFolded_ready:
  assumes "ready inh w b"
  obtains se where "readFolded w = (w\<lparr>sw_session := se\<rparr>, Some (close_batch b))" "ready inh (w\<lparr>sw_session := se\<rparr>) b"
proof -
  from assms obtain log where l: "session_rel inh (sw_session w) log" "own_batch inh log b" by (auto simp: ready_def)
  obtain se where "ownEvents (sw_session w) = (se, drop inh log)" "session_rel inh se log"
    using own_events [OF l(1)] by blast
  with own_batch_fold [OF l(2)] l(2) assms show thesis
    by (intro that [of se]) (auto simp: readFolded_def ready_def)
qed

lemma drive_waits:
  assumes r: "ready inh w b" and env: "smooth_env env now" and d: "dueDecision (close_batch b) now = Inr (Wait t)"
  obtains w' where "driveOnce env w = w'" "ready inh w' b" "sw_followups w' = sw_followups w"
    "srt_requested (sw_runtime w') = srt_requested (sw_runtime w)"
    "srt_timer (sw_runtime w') = map_option (\<lambda>t. min (t - now) MAX_TIMER_DELAY_MS) t"
proof -
  have "ready inh (clearTimer w) b" using r by (auto simp: ready_def clearTimer_def set_runtime_def)
  then obtain se where se: "readFolded (clearTimer w) = ((clearTimer w)\<lparr>sw_session := se\<rparr>, Some (close_batch b))"
    "ready inh ((clearTimer w)\<lparr>sw_session := se\<rparr>) b"
    by (rule readFolded_ready)
  have "driveOnce env w = arm t now ((clearTimer w)\<lparr>sw_session := se\<rparr>)"
    using env d se(1) r
    by (simp add: driveOnce_def drive_wake_def Let_def smooth_env_def runnable_def ready_def)
      (simp add: clearTimer_def set_runtime_def)
  with se(2) show thesis
    by (intro that [of "arm t now ((clearTimer w)\<lparr>sw_session := se\<rparr>)"]) (auto simp: arm_def ready_def clearTimer_def set_runtime_def split: option.splits)
qed

lemma drive_dispatches:
  assumes r: "ready inh w b" and env: "smooth_env env now" and now: "four_digit_year now"
    and d: "dueDecision (close_batch b) now = Inr d" "\<forall>t. d \<noteq> Wait t" "dispatches d = map (dispatch_of now) rs"
    and rs: "distinct (map sr_id rs)" "set rs \<subseteq> set (fs_active (close_batch b))" "\<forall>r\<in>set rs. due_at now r"
  obtains w' b' where "driveOnce env w = w'" "ready inh w' b'" "sw_followups w' = sw_followups w @ [framing d]"
    "srt_requested (sw_runtime w')"
    "close_batch b' = \<lparr>fs_active = List.map_filter (keep_after now (sr_id ` set rs)) (fs_active (close_batch b)),
                      fs_seenIds = fs_seenIds (close_batch b)\<rparr>"
proof -
  have "ready inh (clearTimer w) b" using r by (auto simp: ready_def clearTimer_def set_runtime_def)
  then obtain se where se: "readFolded (clearTimer w) = ((clearTimer w)\<lparr>sw_session := se\<rparr>, Some (close_batch b))"
    "ready inh ((clearTimer w)\<lparr>sw_session := se\<rparr>) b"
    by (rule readFolded_ready)
  define w1 where "w1 = (clearTimer w)\<lparr>sw_session := se\<rparr>"
  have w1: "ready inh w1 b" "sw_followups w1 = sw_followups w"
    using se(2) by (simp_all add: w1_def clearTimer_def set_runtime_def)
  obtain se2 where se2: "readFolded w1 = (w1\<lparr>sw_session := se2\<rparr>, Some (close_batch b))" "ready inh (w1\<lparr>sw_session := se2\<rparr>) b"
    using w1(1) by (rule readFolded_ready)
  then obtain log where log: "session_rel inh se2 log" "own_batch inh log b" by (auto simp: ready_def)
  obtain chs where inv: "batch_inv chs b" using own_batch_inv [OF log(2)] by blast
  from dispatch_run [OF inv rs now] obtain b' where b': "run change_step b (dispatches d) = Inr b'"
    "list_all schedule_change_ok (dispatches d)"
    "close_batch b' = \<lparr>fs_active = List.map_filter (keep_after now (sr_id ` set rs)) (fs_active (close_batch b)),
                      fs_seenIds = fs_seenIds (close_batch b)\<rparr>"
    unfolding d(3) [symmetric] by blast
  obtain se3 where se3: "append_changes env (dispatches d) se2 = (se3, None)"
    "session_rel inh se3 (log_changes log (de_stamp env) (dispatches d))"
    using append_changes_ok [OF log(1), of env "dispatches d"] env by (auto simp: smooth_env_def)
  have own: "own_batch inh (log_changes log (de_stamp env) (dispatches d)) b'"
    using log(2) b'(2,1) by (rule own_batch_changes)
  define w3 where "w3 = w1\<lparr>sw_session := se3, sw_followups := sw_followups w @ [framing d]\<rparr>"
  have wake: "drive_wake env w = (w1, True)"
    using env d(1,2) se(1) r
    by (cases d) (auto simp: drive_wake_def Let_def smooth_env_def runnable_def ready_def w1_def clearTimer_def set_runtime_def)
  have run: "runnable env 2 w1" "runnable env 3 w3"
    using w1(1) env by (auto simp: runnable_def ready_def smooth_env_def w3_def)
  have settle: "drive_settle env w3 = requestDrive w3" using env run(2) by (simp add: drive_settle_def smooth_env_def)
  have "drive_claim env w1 = (w3, True)"
    using env d(1,2) se2(1) se3(1) w1(2) run(1)
    by (cases d) (auto simp: drive_claim_def Let_def smooth_env_def w3_def)
  then have "driveOnce env w = requestDrive w3" using wake settle by (simp add: driveOnce_def)
  moreover have "ready inh w3 b'" using se3(2) own w1(1) by (auto simp: ready_def w3_def)
  ultimately show thesis using b'(3)
    by (intro that [of "requestDrive w3" b'])
      (auto simp: requestDrive_def ready_def w3_def clearTimer_def set_runtime_def)
qed

section \<open>The loop at a fixed clock\<close>

definition after_due :: "int \<Rightarrow> schedule_record \<Rightarrow> schedule_record option" where
  "after_due now r = (if due_at now r then after now r else Some r)"

definition due_texts :: "int \<Rightarrow> schedule_record list \<Rightarrow> string list" where
  "due_texts now rs =
     map renderReminderFraming (due_shots now rs)
     @ (if due_everys now rs = [] then []
        else [renderEveryReminderBatchFraming (map (\<lambda>r. (r, latest_text now r)) (due_everys now rs))])"

lemma map_filter_agree: "(\<And>x. x \<in> set xs \<Longrightarrow> f x = g x) \<Longrightarrow> List.map_filter f xs = List.map_filter g xs"
  by (induction xs) (auto simp: List.map_filter_simps split: option.split)

lemma map_filter_without: "f r = None \<Longrightarrow> List.map_filter f (filter (\<lambda>x. x \<noteq> r) xs) = List.map_filter f xs"
  by (induction xs) (auto simp: List.map_filter_simps split: option.split)

lemma in_shots: "r \<in> set (due_shots now rs) \<longleftrightarrow> r \<in> set rs \<and> \<not> is_every r \<and> due_at now r"
  by (auto simp: due_shots_def)

lemma in_everys: "r \<in> set (due_everys now rs) \<longleftrightarrow> r \<in> set rs \<and> is_every r \<and> due_at now r"
  by (auto simp: due_everys_def)

lemma no_due: "due_shots now rs = [] \<and> due_everys now rs = [] \<longleftrightarrow> (\<forall>r\<in>set rs. \<not> due_at now r)"
proof -
  have "due_shots now rs = [] \<longleftrightarrow> (\<forall>r. r \<notin> set (due_shots now rs))" by auto
  moreover have "due_everys now rs = [] \<longleftrightarrow> (\<forall>r. r \<notin> set (due_everys now rs))" by auto
  ultimately show ?thesis by (auto simp: in_shots in_everys)
qed

lemma shots_without:
  assumes "due_shots now xs = r # rs" "distinct xs"
  shows "due_shots now (filter (\<lambda>x. x \<noteq> r) xs) = rs" "due_everys now (filter (\<lambda>x. x \<noteq> r) xs) = due_everys now xs"
proof -
  have d: "distinct (due_shots now xs)" using assms(2) by (simp add: due_shots_def distinct_filter)
  have f: "sort_key target_ms (filter P (filter Q xs)) = filter Q (sort_key target_ms (filter P xs))" for P Q
    by (simp add: filter_sort conj_commute)
  have "due_shots now (filter (\<lambda>x. x \<noteq> r) xs) = filter (\<lambda>x. x \<noteq> r) (r # rs)"
    unfolding due_shots_def f assms(1) [unfolded due_shots_def] ..
  also have "\<dots> = rs" using d assms(1) by (auto intro!: filter_True)
  finally show "due_shots now (filter (\<lambda>x. x \<noteq> r) xs) = rs" .
  have "\<not> is_every r" using in_shots [of r now xs] assms(1) by auto
  then have "filter (\<lambda>x. x \<noteq> r) (due_everys now xs) = due_everys now xs"
    by (intro filter_True) (auto simp: in_everys)
  then show "due_everys now (filter (\<lambda>x. x \<noteq> r) xs) = due_everys now xs"
    unfolding due_everys_def f .
qed

lemma active_facts:
  assumes "ready inh w b"
  shows "distinct (map sr_id (fs_active (close_batch b)))" "\<forall>r\<in>set (fs_active (close_batch b)). schedule_ok r"
proof -
  from assms obtain log where "own_batch inh log b" by (auto simp: ready_def)
  then obtain chs where inv: "batch_inv chs b" using own_batch_inv by blast
  show "distinct (map sr_id (fs_active (close_batch b)))"
    unfolding batch_active(1) [OF inv] using inv unfolding batch_inv_def by blast
  show "\<forall>r\<in>set (fs_active (close_batch b)). schedule_ok r"
    using inv unfolding batch_inv_def close_batch_def by fastforce
qed

lemma id_in_active:
  "distinct (map sr_id xs) \<Longrightarrow> set rs \<subseteq> set xs \<Longrightarrow> x \<in> set xs \<Longrightarrow> sr_id x \<in> sr_id ` set rs \<longleftrightarrow> x \<in> set rs"
  by (auto simp: distinct_map inj_on_def)

lemma none_due_after:
  assumes "\<forall>r\<in>set xs. schedule_ok r" "four_digit_year now" "x \<in> set (List.map_filter (after_due now) xs)"
  shows "\<not> due_at now x"
proof -
  obtain y where y: "y \<in> set xs" "after_due now y = Some x" using assms(3) by (auto simp: in_map_filter)
  with assms(1,2) after_not_due [of y now x] show ?thesis by (auto simp: after_due_def split: if_splits)
qed

lemma map_result_due:
  assumes "\<forall>r\<in>set es. is_every r \<and> schedule_ok r \<and> due_at now r" "four_digit_year now"
  shows "map_result (every_due now) es = Inr (map (\<lambda>r. (r, latest_text now r)) es)"
  using assms by (intro map_result_Some) (simp add: every_due_ok)

text \<open>The state a requested loop ends in.\<close>

definition drained :: "nat \<Rightarrow> int \<Rightarrow> schedule_world \<Rightarrow> schedule_batch \<Rightarrow> schedule_world \<Rightarrow> bool" where
  "drained inh now w b w' \<longleftrightarrow>
     sw_followups w' = sw_followups w @ due_texts now (fs_active (close_batch b))
     \<and> \<not> srt_requested (sw_runtime w')
     \<and> (\<exists>b'. ready inh w' b' \<and> close_batch b' = \<lparr>fs_active = List.map_filter (after_due now) (fs_active (close_batch b)),
                                                fs_seenIds = fs_seenIds (close_batch b)\<rparr>
        \<and> srt_timer (sw_runtime w') =
            map_option (\<lambda>t. min (t - now) MAX_TIMER_DELAY_MS) (next_target now (fs_active (close_batch b'))))"

definition begin_drive :: "schedule_world \<Rightarrow> schedule_world" where
  "begin_drive w = set_runtime w (\<lambda>rt. rt\<lparr>srt_requested := False\<rparr>)"

lemma run_unfold:
  "runRequested env w = (if wants_drive w then runRequested env (driveOnce env (begin_drive w)) else Some w)"
  unfolding runRequested_def begin_drive_def by (rule while_option_unfold)

lemma begin_facts:
  "ready inh w b \<Longrightarrow> ready inh (begin_drive w) b" "sw_followups (begin_drive w) = sw_followups w"
  "\<not> srt_requested (sw_runtime (begin_drive w))"
  by (auto simp: begin_drive_def set_runtime_def ready_def)

lemma wants_ready: "ready inh w b \<Longrightarrow> wants_drive w \<longleftrightarrow> srt_requested (sw_runtime w)"
  by (simp add: wants_drive_def ready_def)

lemma map_filter_Some: "List.map_filter Some xs = xs"
  by (induction xs) (simp_all add: List.map_filter_simps)

lemma drain_none:
  assumes "ready inh w b" "smooth_env env now" "srt_requested (sw_runtime w)"
    "\<forall>r\<in>set (fs_active (close_batch b)). \<not> due_at now r"
  shows "\<exists>w'. runRequested env w = Some w' \<and> drained inh now w b w'"
proof -
  let ?rs = "fs_active (close_batch b)"
  have n: "due_shots now ?rs = []" "due_everys now ?rs = []" using assms(4) no_due by blast+
  then have d: "dueDecision (close_batch b) now = Inr (Wait (next_target now ?rs))" by (simp add: dueDecision_eq)
  obtain w' where w': "driveOnce env (begin_drive w) = w'" "ready inh w' b" "sw_followups w' = sw_followups w"
    "\<not> srt_requested (sw_runtime w')"
    "srt_timer (sw_runtime w') = map_option (\<lambda>t. min (t - now) MAX_TIMER_DELAY_MS) (next_target now ?rs)"
    using drive_waits [OF begin_facts(1) [OF assms(1)] assms(2) d] begin_facts(2,3) by metis
  have "List.map_filter (after_due now) ?rs = List.map_filter Some ?rs"
    using assms(4) by (intro map_filter_agree) (simp add: after_due_def)
  also have "\<dots> = ?rs" by (rule map_filter_Some)
  finally have "close_batch b = \<lparr>fs_active = List.map_filter (after_due now) ?rs, fs_seenIds = fs_seenIds (close_batch b)\<rparr>" by simp
  then have "drained inh now w b w'" using w'(2-5) n by (auto simp: drained_def due_texts_def)
  moreover have "runRequested env w = Some w'"
    using w'(1,4) wants_ready [OF assms(1)] wants_ready [OF w'(2)] assms(3)
    by (subst run_unfold, subst run_unfold) simp
  ultimately show ?thesis by blast
qed

lemma drain_batch:
  assumes r: "ready inh w b" and env: "smooth_env env now" and req: "srt_requested (sw_runtime w)" and now: "four_digit_year now"
    and none: "due_shots now (fs_active (close_batch b)) = []" and some: "due_everys now (fs_active (close_batch b)) \<noteq> []"
  shows "\<exists>w'. runRequested env w = Some w' \<and> drained inh now w b w'"
proof -
  let ?rs = "fs_active (close_batch b)"
  define es where "es = due_everys now ?rs"
  note f = active_facts [OF r]
  have es: "\<forall>r\<in>set es. is_every r \<and> schedule_ok r \<and> due_at now r" "set es \<subseteq> set ?rs"
    using f(2) by (auto simp: es_def in_everys)
  obtain e es' where c: "es = e # es'" using some by (cases es) (auto simp: es_def)
  have "dueDecision (close_batch b) now =
      rbind (map_result (every_due now) es) (\<lambda>rs. Inr (EveryBatch rs (toISOString now)))"
    unfolding dueDecision_eq none es_def [symmetric] c by simp
  note decision = this [unfolded map_result_due [OF es(1) now] rbind_simps]
  have "distinct (map sr_id es)"
    using f(1) by (simp add: es_def due_everys_def distinct_map inj_on_def distinct_filter)
  moreover define d where "d = EveryBatch (map (\<lambda>r. (r, latest_text now r)) es) (toISOString now)"
  moreover have "dueDecision (close_batch b) now = Inr d" unfolding d_def by (rule decision)
  moreover have "dispatches d = map (dispatch_of now) es" using es(1) by (simp add: d_def dispatch_of_def)
  ultimately obtain w1 b1 where w1: "driveOnce env (begin_drive w) = w1" "ready inh w1 b1"
    "sw_followups w1 = sw_followups w @ [framing d]" "srt_requested (sw_runtime w1)"
    and b1: "close_batch b1 = \<lparr>fs_active = List.map_filter (keep_after now (sr_id ` set es)) ?rs, fs_seenIds = fs_seenIds (close_batch b)\<rparr>"
    using drive_dispatches [OF begin_facts(1) [OF r] env now, of d es] es begin_facts(2)
    by (metis due_decision.distinct(5))
  have "List.map_filter (keep_after now (sr_id ` set es)) ?rs = List.map_filter (after_due now) ?rs"
  proof (rule map_filter_agree)
    fix x assume x: "x \<in> set ?rs"
    have "\<not> is_every x \<Longrightarrow> \<not> due_at now x" using none x in_shots [of x now ?rs] by auto
    then have "x \<in> set es \<longleftrightarrow> due_at now x" using x by (auto simp: es_def in_everys)
    with id_in_active [OF f(1) es(2) x] show "keep_after now (sr_id ` set es) x = after_due now x"
      by (simp add: keep_after_def after_due_def)
  qed
  with b1 have b1': "close_batch b1 = \<lparr>fs_active = List.map_filter (after_due now) ?rs, fs_seenIds = fs_seenIds (close_batch b)\<rparr>" by simp
  have nd: "\<forall>x\<in>set (fs_active (close_batch b1)). \<not> due_at now x" using none_due_after [OF f(2) now] by (simp add: b1')
  from drain_none [OF w1(2) env w1(4) nd] obtain w' where w': "runRequested env w1 = Some w'" "drained inh now w1 b1 w'" by blast
  have "List.map_filter (after_due now) (fs_active (close_batch b1)) = fs_active (close_batch b1)"
  proof -
    have "List.map_filter (after_due now) xs = xs" if "\<forall>x\<in>set xs. \<not> due_at now x" for xs
      using that by (induction xs) (simp_all add: List.map_filter_simps after_due_def)
    with nd show ?thesis by blast
  qed
  with w'(2) w1(3) b1' none some have "drained inh now w b w'"
    using no_due [of now "fs_active (close_batch b1)"] nd
    by (auto simp: drained_def due_texts_def d_def es_def)
  moreover have "runRequested env w = Some w'"
    using w1(1) w'(1) wants_ready [OF r] req by (subst run_unfold) simp
  ultimately show ?thesis by blast
qed

lemma map_filter_if: "List.map_filter (\<lambda>x. if p x then Some x else None) xs = filter p xs"
  by (induction xs) (simp_all add: List.map_filter_simps)

lemma after_shot: "\<not> is_every r \<Longrightarrow> after now r = None"
  by (cases r) (simp_all add: after_def)

lemma drain:
  assumes "ready inh w b" "smooth_env env now" "srt_requested (sw_runtime w)" "four_digit_year now"
  shows "\<exists>w'. runRequested env w = Some w' \<and> drained inh now w b w'"
  using assms(1,3)
proof (induction "due_shots now (fs_active (close_batch b))" arbitrary: w b)
  case Nil
  then show ?case
    using drain_batch [OF Nil.prems(1) assms(2) Nil.prems(2) assms(4)] drain_none [OF Nil.prems(1) assms(2) Nil.prems(2)]
      no_due [of now "fs_active (close_batch b)"] by metis
next
  case (Cons r rs)
  let ?rs = "fs_active (close_batch b)"
  note shots = Cons.hyps(2) [symmetric]
  note f = active_facts [OF Cons.prems(1)]
  have r: "r \<in> set ?rs" "\<not> is_every r" "due_at now r" using in_shots [of r now ?rs] shots by auto
  have d: "dueDecision (close_batch b) now = Inr (OneShot r)" by (simp add: dueDecision_eq shots)
  obtain w1 b1 where w1: "driveOnce env (begin_drive w) = w1" "ready inh w1 b1"
    "sw_followups w1 = sw_followups w @ [renderReminderFraming r]" "srt_requested (sw_runtime w1)"
    and b1: "close_batch b1 = \<lparr>fs_active = List.map_filter (keep_after now {sr_id r}) ?rs, fs_seenIds = fs_seenIds (close_batch b)\<rparr>"
    using drive_dispatches [OF begin_facts(1) [OF Cons.prems(1)] assms(2,4) d, of "[r]"] r begin_facts(2)
    by (auto simp: dispatch_of_def)
  have "List.map_filter (keep_after now {sr_id r}) ?rs = filter (\<lambda>x. x \<noteq> r) ?rs"
  proof -
    have "keep_after now {sr_id r} x = (if x \<noteq> r then Some x else None)" if "x \<in> set ?rs" for x
      using id_in_active [OF f(1), of "[r]" x] that r(1) after_shot [OF r(2), of now] by (simp add: keep_after_def)
    then have "List.map_filter (keep_after now {sr_id r}) ?rs = List.map_filter (\<lambda>x. if x \<noteq> r then Some x else None) ?rs"
      by (rule map_filter_agree)
    also have "\<dots> = filter (\<lambda>x. x \<noteq> r) ?rs" by (rule map_filter_if)
    finally show ?thesis .
  qed
  with b1 have b1': "close_batch b1 = \<lparr>fs_active = filter (\<lambda>x. x \<noteq> r) ?rs, fs_seenIds = fs_seenIds (close_batch b)\<rparr>" by simp
  have "distinct ?rs" using f(1) by (simp add: distinct_map)
  note s = shots_without [OF shots this]
  from Cons.hyps(1) [of b1 w1] s(1) w1(2,4) obtain w' where w': "runRequested env w1 = Some w'" "drained inh now w1 b1 w'"
    by (auto simp: b1')
  have a: "List.map_filter (after_due now) (filter (\<lambda>x. x \<noteq> r) ?rs) = List.map_filter (after_due now) ?rs"
    using after_shot [OF r(2), of now] by (intro map_filter_without) (simp add: after_due_def r(3))
  have "due_texts now ?rs = renderReminderFraming r # due_texts now (filter (\<lambda>x. x \<noteq> r) ?rs)"
    by (simp add: due_texts_def s shots)
  with w'(2) w1(3) have "drained inh now w b w'" by (auto simp: drained_def b1' a)
  moreover have "runRequested env w = Some w'"
    using w1(1) w'(1) wants_ready [OF Cons.prems(1)] Cons.prems(2) by (subst run_unfold) simp
  ultimately show ?case by blast
qed


section \<open>A session with three reminders, two of them due\<close>

definition sample_pending :: "session_event list" where
  "sample_pending =
     [log_event 0 0 (ScheduleChange (schedule_json
        (CreateSchedule (EveryRecord ''schedule-1'' ''stretch'' 300 ''2025-01-01T00:00:00.000Z'')))),
      log_event 1 0 (ScheduleChange (schedule_json
        (CreateSchedule (AfterRecord ''schedule-2'' ''tea'' 90 ''2024-02-29T23:59:59.999Z'')))),
      log_event 2 0 (ScheduleChange (schedule_json
        (CreateSchedule (AtRecord ''schedule-3'' ''launch'' ''2026-01-01T00:00:00.000Z''))))]"

definition sample_active :: "schedule_record list" where
  "sample_active =
     [EveryRecord ''schedule-1'' ''stretch'' 300 ''2025-01-01T00:00:00.000Z'',
      AfterRecord ''schedule-2'' ''tea'' 90 ''2024-02-29T23:59:59.999Z'',
      AtRecord ''schedule-3'' ''launch'' ''2026-01-01T00:00:00.000Z'']"

definition sample_world :: schedule_world where
  "sample_world =
     \<lparr>sw_session = fresh_session sample_pending (new_surface_manager 0) JNull 0,
      sw_runtime = \<lparr>srt_timer = None, srt_requested = True, srt_stopping = False, srt_faulted = False, srt_idleWait = False\<rparr>,
      sw_followups = []\<rparr>"

definition sample_env :: drive_env where
  "sample_env =
     \<lparr>de_live = (\<lambda>_. True), de_flush = True, de_barrier = True, de_wake = 1735690320000, de_claim = 1735690320000,
      de_idle = True, de_followup = True, de_appending = False, de_accepts = (\<lambda>_. True), de_stamp = 1735690320000\<rparr>"


end
