(* ===== verification/Tool_Scheduler.thy ===== *)
theory Tool_Scheduler
  imports Session_Trace Surface Inbox Js_Strings
begin

text \<open>
  The scheduler of one assistant step's tool calls, core/agent-loop/src/tool-calls.ts. Calls run in
  groups: an exclusive call alone, parallel calls in a bounded pool; results are committed in the
  order of the model whatever order the tools finish in; an abort drains what was started and
  records a synthetic result for every other call. The code is asynchronous, so it is modelled as a
  machine: the locals of \<open>executeToolCalls\<close> and \<open>runGroup\<close> with the point the code has reached, and
  one move per synchronous stretch, which takes what the environment answered (a classification, a
  tool that settled, the promise a race returned). Between any two moves the agent may be cancelled
  and others may use the inbox and the log. The results: every call is answered once, in order, by a
  result that cites it; the pool keeps its bound and an exclusive call its solitude; the session's
  validators never refuse what the scheduler records; and no run goes on for ever or gets stuck.
\<close>

section \<open>Calls, results and the world the scheduler writes to\<close>

datatype exec_mode = Parallel | Exclusive

record planned_call =
  pl_id :: string
  pl_name :: string
  pl_arguments :: string
  pl_parsed :: json

text \<open>\<open>JSON.parse\<close> is an argument: it gives a value, or \<open>None\<close> where it throws.\<close>

definition parseArguments :: "(string \<Rightarrow> json option) \<Rightarrow> string \<Rightarrow> json" where
  "parseArguments parse raw =
     (if raw = '''' then JObj [] else case parse raw of Some v \<Rightarrow> v | None \<Rightarrow> JStr raw)"

fun plan_call :: "(string \<Rightarrow> json option) \<Rightarrow> content_block \<Rightarrow> planned_call list" where
  "plan_call parse (ToolCallBlock i n a) =
     [\<lparr>pl_id = i, pl_name = n, pl_arguments = a, pl_parsed = parseArguments parse a\<rparr>]"
| "plan_call parse _ = []"

definition plan_calls :: "(string \<Rightarrow> json option) \<Rightarrow> content_block list \<Rightarrow> planned_call list" where
  "plan_calls parse content = concat (map (plan_call parse) content)"

record exec_result =
  xr_content :: "content_block list"
  xr_isError :: bool
  xr_error :: "(string \<times> string) option"
  xr_meta :: "json option"
  xr_contexts :: "message list"
  xr_concludes :: bool

record slot =
  sl_result :: exec_result
  sl_needsPost :: bool

text \<open>
  What the scheduler is given: the session's \<open>append\<close> (the sequence number of the event, or \<open>None\<close>
  where it throws), the acceptor of result contexts, and what others may do in between.
\<close>

record ('w, 'o) world_ops =
  wo_append :: "int \<Rightarrow> event_data \<Rightarrow> json option \<Rightarrow> json option \<Rightarrow> 'w \<Rightarrow> 'w \<times> nat option"
  wo_accept :: "int \<Rightarrow> message \<Rightarrow> 'w \<Rightarrow> 'w \<times> bool"
  wo_other :: "'o \<Rightarrow> 'w \<Rightarrow> 'w"

record ('w, 'o) sched_env =
  sn_ops :: "('w, 'o) world_ops"
  sn_turn :: int
  sn_step :: int
  sn_max :: nat

definition appendToolCall :: "('w, 'o) sched_env \<Rightarrow> int \<Rightarrow> planned_call \<Rightarrow> 'w \<Rightarrow> 'w \<times> nat option" where
  "appendToolCall env now c w =
     wo_append (sn_ops env) now
       (ToolCall (sn_turn env) (sn_step env) (pl_id c) (pl_name c) (pl_arguments c)) None None w"

definition createToolResultMessage :: "string \<Rightarrow> string \<Rightarrow> content_block list \<Rightarrow> bool \<Rightarrow> message" where
  "createToolResultMessage mid callId content isError =
     \<lparr>msg_id = mid, msg_role = User,
      msg_content = [ToolResultBlock callId content (Some isError)], msg_source = ToolSource callId\<rparr>"

definition result_data :: "('w, 'o) sched_env \<Rightarrow> string \<Rightarrow> planned_call \<Rightarrow> exec_result \<Rightarrow> event_data" where
  "result_data env mid c res =
     ToolResult \<lparr>tr_turn = sn_turn env, tr_step = sn_step env,
       tr_message = createToolResultMessage mid (pl_id c) (xr_content res) (xr_isError res),
       tr_error = xr_error res, tr_meta = xr_meta res\<rparr>"

definition appendToolResult ::
  "('w, 'o) sched_env \<Rightarrow> int \<Rightarrow> string \<Rightarrow> planned_call \<Rightarrow> exec_result \<Rightarrow> nat \<Rightarrow> 'w \<Rightarrow> 'w \<times> nat option" where
  "appendToolResult env now mid c res callSeq w =
     wo_append (sn_ops env) now (result_data env mid c res) (Some (JArr [num callSeq])) (Some append_op) w"

definition skipped_result :: exec_result where
  "skipped_result =
     \<lparr>xr_content = [TextBlock ''Error: tool call aborted before dispatch''], xr_isError = True,
      xr_error = Some (''AbortError'', ''ABORTED_BEFORE_DISPATCH''), xr_meta = None, xr_contexts = [],
      xr_concludes = False\<rparr>"

definition appendSkippedToolCall ::
  "('w, 'o) sched_env \<Rightarrow> int \<Rightarrow> int \<Rightarrow> string \<Rightarrow> planned_call \<Rightarrow> 'w \<Rightarrow> 'w \<times> bool" where
  "appendSkippedToolCall env now later mid c w =
     (case appendToolCall env now c w of
        (w', None) \<Rightarrow> (w', False)
      | (w', Some callSeq) \<Rightarrow>
          (case appendToolResult env later mid c skipped_result callSeq w' of
             (w'', None) \<Rightarrow> (w'', False)
           | (w'', Some _) \<Rightarrow> (w'', True)))"

section \<open>The state of a run\<close>

datatype sched_error =
    AppendThrew | AcceptThrew | PrepareRejected | DispatchRejected | FinalizeRejected | UncommittedCalls

text \<open>The locals of \<open>runGroup\<close>; a promise of \<open>inFlight\<close> is settled or not yet.\<close>

record tool_group =
  tg_calls :: "planned_call list"
  tg_mode :: exec_mode
  tg_slots :: "slot option list"
  tg_callSeqs :: "nat option list"
  tg_nextToStart :: nat
  tg_committed :: nat
  tg_started :: nat
  tg_aborted :: bool
  tg_concluded :: bool
  tg_failure :: "sched_error option"
  tg_inFlight :: "(nat \<times> bool) list"

text \<open>
  Where \<open>runGroup\<close> stands: in the loop of \<open>fillPool\<close> (its test, the reading of a later mode, the
  start of a call, \<open>prepare\<close> awaited, \<open>startCall\<close> returned), in that of \<open>commitReady\<close> (its test, the
  result awaited, the contexts left to accept, returned), in the loop over \<open>inFlight\<close> (its test,
  the race awaited), in the handler that drains a failure, or recording the skipped calls.
\<close>

datatype group_point =
    FillTest | Reclassify | StartCall | Preparing | Started
  | CommitTest | Finishing | Accepting "message list" bool | Committed
  | PoolTest | Racing | Draining | Skipping "planned_call list"

datatype sched_point =
    NextGroup
  | InGroup tool_group group_point
  | SkipRest "planned_call list"
  | ReturnedCalls bool
  | ThrewCalls sched_error

text \<open>The locals of \<open>executeToolCalls\<close>, the signal of the step, and the world.\<close>

record 'w sched =
  sd_world :: 'w
  sd_signal :: bool
  sd_planned :: "planned_call list"
  sd_next :: nat
  sd_concluded :: bool
  sd_point :: sched_point

definition executeToolCalls :: "'w \<Rightarrow> bool \<Rightarrow> planned_call list \<Rightarrow> 'w sched" where
  "executeToolCalls w signal planned =
     \<lparr>sd_world = w, sd_signal = signal, sd_planned = planned, sd_next = 0, sd_concluded = False,
      sd_point = NextGroup\<rparr>"

definition new_group :: "planned_call list \<Rightarrow> exec_mode \<Rightarrow> bool \<Rightarrow> tool_group" where
  "new_group calls mode signal =
     \<lparr>tg_calls = calls, tg_mode = mode, tg_slots = map (\<lambda>_. None) calls,
      tg_callSeqs = map (\<lambda>_. None) calls, tg_nextToStart = 0, tg_committed = 0, tg_started = 0,
      tg_aborted = signal, tg_concluded = False, tg_failure = None, tg_inFlight = []\<rparr>"

section \<open>One move\<close>

text \<open>
  What the environment answers. \<open>Settled i s\<close> settles a dispatch with a slot, or rejects it;
  \<open>Raced i\<close> is the index a race resolves with; the times and the minted message identity of what
  is recorded are inputs.
\<close>

datatype sched_answer =
    Go
  | Classify exec_mode
  | BeginAt int
  | Prepared "slot option"
  | PrepareThrows
  | Settled nat "slot option"
  | FinishedAt int string exec_result
  | FinishThrows
  | AcceptAt int
  | Raced nat
  | SkipAt int int string

type_synonym 'w group_step = "('w \<times> tool_group \<times> group_point) option"

text \<open>\<open>schedulerFailure ??= error\<close> in the handler.\<close>

definition fail_with :: "sched_error \<Rightarrow> tool_group \<Rightarrow> tool_group" where
  "fail_with err g = g\<lparr>tg_failure := Some (case tg_failure g of None \<Rightarrow> err | Some e \<Rightarrow> e)\<rparr>"

text \<open>A dispatch settles: its callback fills the slot, or records the first failure.\<close>

definition settle :: "nat \<Rightarrow> slot option \<Rightarrow> tool_group \<Rightarrow> tool_group" where
  "settle i s g =
     (let g' = g\<lparr>tg_inFlight := map_set i True (tg_inFlight g)\<rparr> in
      case s of
        None \<Rightarrow> fail_with DispatchRejected g'
      | Some sl \<Rightarrow> g'\<lparr>tg_slots := (tg_slots g')[i := Some sl]\<rparr>)"

definition ready_slot :: "tool_group \<Rightarrow> slot option" where
  "ready_slot g = (if tg_committed g < length (tg_calls g) then tg_slots g ! tg_committed g else None)"

text \<open>The points at which the code awaits something, so that a dispatch may settle.\<close>

definition awaits :: "tool_group \<Rightarrow> group_point \<Rightarrow> bool" where
  "awaits g p \<longleftrightarrow>
     (case p of Preparing \<Rightarrow> True | Started \<Rightarrow> True | Committed \<Rightarrow> True | Racing \<Rightarrow> True | Draining \<Rightarrow> True
      | Finishing \<Rightarrow> (case ready_slot g of Some sl \<Rightarrow> sl_needsPost sl | None \<Rightarrow> False)
      | _ \<Rightarrow> False)"

definition fill_test :: "nat \<Rightarrow> tool_group \<Rightarrow> group_point" where
  "fill_test maxParallel g =
     (if \<not> tg_aborted g \<and> tg_nextToStart g < length (tg_calls g)
         \<and> length (tg_inFlight g) < maxParallel
      then if 0 < tg_nextToStart g \<and> tg_mode g = Parallel then Reclassify else StartCall
      else PoolTest)"

definition start_call :: "('w, 'o) sched_env \<Rightarrow> int \<Rightarrow> 'w \<Rightarrow> tool_group \<Rightarrow> 'w \<times> tool_group \<times> group_point" where
  "start_call env now w g =
     (case appendToolCall env now (tg_calls g ! tg_nextToStart g) w of
        (w', None) \<Rightarrow> (w', fail_with AppendThrew g, Draining)
      | (w', Some s) \<Rightarrow>
          (w', g\<lparr>tg_callSeqs := (tg_callSeqs g)[tg_nextToStart g := Some s], tg_started := tg_started g + 1\<rparr>,
           Preparing))"

text \<open>\<open>prepare\<close> resolved: with a result (its slot), or with an execution to dispatch.\<close>

definition prepared_call :: "slot option \<Rightarrow> tool_group \<Rightarrow> tool_group \<times> group_point" where
  "prepared_call p g =
     (if tg_failure g \<noteq> None then (g, Draining)
      else case p of
        None \<Rightarrow> (g\<lparr>tg_inFlight := map_set (tg_nextToStart g) False (tg_inFlight g)\<rparr>, Started)
      | Some sl \<Rightarrow> (g\<lparr>tg_slots := (tg_slots g)[tg_nextToStart g := Some sl]\<rparr>, Started))"

definition after_start :: "tool_group \<Rightarrow> tool_group \<times> group_point" where
  "after_start g =
     (let g' = g\<lparr>tg_nextToStart := tg_nextToStart g + 1\<rparr> in
      if tg_failure g' \<noteq> None then (g', Draining) else (g', CommitTest))"

definition commit_test :: "tool_group \<Rightarrow> group_point" where
  "commit_test g = (case ready_slot g of None \<Rightarrow> Committed | Some _ \<Rightarrow> Finishing)"

text \<open>The result of the slot in turn is known: it is recorded, its contexts come next.\<close>

definition commit_result ::
  "('w, 'o) sched_env \<Rightarrow> int \<Rightarrow> string \<Rightarrow> exec_result \<Rightarrow> 'w \<Rightarrow> tool_group \<Rightarrow> 'w \<times> tool_group \<times> group_point" where
  "commit_result env now mid res w g =
     (case tg_callSeqs g ! tg_committed g of
        None \<Rightarrow> (w, fail_with AppendThrew g, Draining)
      | Some callSeq \<Rightarrow>
          (case appendToolResult env now mid (tg_calls g ! tg_committed g) res callSeq w of
             (w', None) \<Rightarrow> (w', fail_with AppendThrew g, Draining)
           | (w', Some _) \<Rightarrow> (w', g, Accepting (xr_contexts res) (xr_concludes res))))"

definition accept_context ::
  "('w, 'o) sched_env \<Rightarrow> int \<Rightarrow> message \<Rightarrow> message list \<Rightarrow> bool \<Rightarrow> 'w \<Rightarrow> tool_group \<Rightarrow>
   'w \<times> tool_group \<times> group_point" where
  "accept_context env now m ms concl w g =
     (case wo_accept (sn_ops env) now m w of
        (w', False) \<Rightarrow> (w', fail_with AcceptThrew g, Draining)
      | (w', True) \<Rightarrow> (w', g, Accepting ms concl))"

definition commit_next :: "bool \<Rightarrow> tool_group \<Rightarrow> tool_group" where
  "commit_next concl g = g\<lparr>tg_concluded := (tg_concluded g \<or> concl), tg_committed := tg_committed g + 1\<rparr>"

definition after_commit :: "bool \<Rightarrow> tool_group \<Rightarrow> tool_group \<times> group_point" where
  "after_commit signal g =
     (if tg_failure g \<noteq> None then (g, Draining) else (g\<lparr>tg_aborted := (tg_aborted g \<or> signal)\<rparr>, FillTest))"

definition race_settled :: "nat \<Rightarrow> tool_group \<Rightarrow> tool_group \<times> group_point" where
  "race_settled i g =
     (let g' = g\<lparr>tg_inFlight := map_delete i (tg_inFlight g)\<rparr> in
      if tg_failure g' \<noteq> None then (g', Draining) else (g', CommitTest))"

text \<open>The moves inside a group that stay inside it.\<close>

definition group_move ::
  "('w, 'o) sched_env \<Rightarrow> bool \<Rightarrow> sched_answer \<Rightarrow> 'w \<Rightarrow> tool_group \<Rightarrow> group_point \<Rightarrow> 'w group_step" where
  "group_move env signal m w g p =
     (case m of
        Settled i s \<Rightarrow>
          if awaits g p \<and> map_of (tg_inFlight g) i = Some False then Some (w, settle i s g, p) else None
      | _ \<Rightarrow>
     (case (p, m) of
        (FillTest, Go) \<Rightarrow> Some (w, g, fill_test (sn_max env) g)
      | (Reclassify, Classify mode) \<Rightarrow> Some (w, g, if mode = Parallel then StartCall else PoolTest)
      | (StartCall, BeginAt now) \<Rightarrow> Some (start_call env now w g)
      | (Preparing, Prepared s) \<Rightarrow> Some (w, prepared_call s g)
      | (Preparing, PrepareThrows) \<Rightarrow> Some (w, fail_with PrepareRejected g, Draining)
      | (Started, Go) \<Rightarrow> Some (w, after_start g)
      | (CommitTest, Go) \<Rightarrow> Some (w, g, commit_test g)
      | (Finishing, FinishedAt now mid res) \<Rightarrow> Some (commit_result env now mid res w g)
      | (Finishing, FinishThrows) \<Rightarrow> Some (w, fail_with FinalizeRejected g, Draining)
      | (Accepting (c # cs) concl, AcceptAt now) \<Rightarrow> Some (accept_context env now c cs concl w g)
      | (Accepting [] concl, Go) \<Rightarrow> Some (w, commit_next concl g, CommitTest)
      | (Committed, Go) \<Rightarrow> Some (w, after_commit signal g)
      | (PoolTest, Go) \<Rightarrow>
          if tg_inFlight g \<noteq> [] then Some (w, g, Racing)
          else if tg_aborted g then Some (w, g, Skipping (drop (tg_started g) (tg_calls g)))
          else None
      | (Racing, Raced i) \<Rightarrow>
          if map_of (tg_inFlight g) i = Some True then Some (w, race_settled i g) else None
      | _ \<Rightarrow> None))"

text \<open>
  The moves of \<open>executeToolCalls\<close>, and those with which a group ends. \<open>leave_group\<close> is what the
  loop does with the outcome of a group.
\<close>

definition leave_group :: "nat \<Rightarrow> bool \<Rightarrow> bool \<Rightarrow> 'w sched \<Rightarrow> 'w sched" where
  "leave_group consumed aborted concl s =
     (let s' = s\<lparr>sd_next := sd_next s + consumed, sd_concluded := (sd_concluded s \<or> concl)\<rparr> in
      s'\<lparr>sd_point := if aborted then SkipRest (drop (sd_next s') (sd_planned s')) else NextGroup\<rparr>)"

definition next_group :: "exec_mode \<Rightarrow> 'w sched \<Rightarrow> tool_group" where
  "next_group mode s =
     new_group (if mode = Parallel then drop (sd_next s) (sd_planned s) else [sd_planned s ! sd_next s])
       mode (sd_signal s)"

definition group_ends :: "('w, 'o) sched_env \<Rightarrow> sched_answer \<Rightarrow> tool_group \<Rightarrow> group_point \<Rightarrow> 'w sched \<Rightarrow> 'w sched option" where
  "group_ends env m g p s =
     (case (p, m) of
        (PoolTest, Go) \<Rightarrow>
          if tg_inFlight g = [] \<and> \<not> tg_aborted g
          then Some (if tg_committed g \<noteq> tg_started g then s\<lparr>sd_point := ThrewCalls UncommittedCalls\<rparr>
                     else leave_group (tg_started g) False (tg_concluded g) s)
          else None
      | (Draining, Go) \<Rightarrow>
          if \<forall>(i, settled) \<in> set (tg_inFlight g). settled
          then Some (s\<lparr>sd_point := ThrewCalls (case tg_failure g of Some e \<Rightarrow> e | None \<Rightarrow> UncommittedCalls)\<rparr>)
          else None
      | (Skipping [], Go) \<Rightarrow> Some (leave_group (length (tg_calls g)) True (tg_concluded g) s)
      | (Skipping (c # cs), SkipAt now later mid) \<Rightarrow>
          (case appendSkippedToolCall env now later mid c (sd_world s) of
             (w, False) \<Rightarrow> Some (s\<lparr>sd_world := w, sd_point := ThrewCalls AppendThrew\<rparr>)
           | (w, True) \<Rightarrow> Some (s\<lparr>sd_world := w, sd_point := InGroup g (Skipping cs)\<rparr>))
      | _ \<Rightarrow> None)"

definition sched_move :: "('w, 'o) sched_env \<Rightarrow> sched_answer \<Rightarrow> 'w sched \<Rightarrow> 'w sched option" where
  "sched_move env m s =
     (case sd_point s of
        NextGroup \<Rightarrow>
          if sd_next s < length (sd_planned s)
          then (case m of Classify mode \<Rightarrow> Some (s\<lparr>sd_point := InGroup (next_group mode s) FillTest\<rparr>) | _ \<Rightarrow> None)
          else (case m of Go \<Rightarrow> Some (s\<lparr>sd_point := ReturnedCalls (sd_concluded s)\<rparr>) | _ \<Rightarrow> None)
      | InGroup g p \<Rightarrow>
          (case group_move env (sd_signal s) m (sd_world s) g p of
             Some (w, g', p') \<Rightarrow> Some (s\<lparr>sd_world := w, sd_point := InGroup g' p'\<rparr>)
           | None \<Rightarrow> group_ends env m g p s)
      | SkipRest [] \<Rightarrow>
          (case m of Go \<Rightarrow> Some (s\<lparr>sd_point := ReturnedCalls (sd_concluded s)\<rparr>) | _ \<Rightarrow> None)
      | SkipRest (c # cs) \<Rightarrow>
          (case m of
             SkipAt now later mid \<Rightarrow>
               (case appendSkippedToolCall env now later mid c (sd_world s) of
                  (w, False) \<Rightarrow> Some (s\<lparr>sd_world := w, sd_point := ThrewCalls AppendThrew\<rparr>)
                | (w, True) \<Rightarrow> Some (s\<lparr>sd_world := w, sd_point := SkipRest cs\<rparr>))
           | _ \<Rightarrow> None)
      | _ \<Rightarrow> None)"

text \<open>
  A step of the whole: a move of the scheduler (marked \<open>True\<close>), a cancellation, or what others do.
\<close>

inductive sched_step :: "('w, 'o) sched_env \<Rightarrow> 'w sched \<Rightarrow> bool \<Rightarrow> 'w sched \<Rightarrow> bool" for env where
  own: "sched_move env m s = Some t \<Longrightarrow> sched_step env s True t"
| cancelled: "sched_step env s False (s\<lparr>sd_signal := True\<rparr>)"
| elsewhere: "sched_step env s False (s\<lparr>sd_world := wo_other (sn_ops env) c (sd_world s)\<rparr>)"

inductive sched_reach :: "('w, 'o) sched_env \<Rightarrow> 'w sched \<Rightarrow> 'w sched \<Rightarrow> bool" for env s where
  start: "sched_reach env s s"
| step: "sched_reach env s t \<Longrightarrow> sched_step env t own u \<Longrightarrow> sched_reach env s u"

definition sched_final :: "'w sched \<Rightarrow> bool" where
  "sched_final s \<longleftrightarrow> (case sd_point s of ReturnedCalls _ \<Rightarrow> True | ThrewCalls _ \<Rightarrow> True | _ \<Rightarrow> False)"


section \<open>The state of a group\<close>

definition flight_ok :: "nat \<Rightarrow> nat \<Rightarrow> slot option list \<Rightarrow> (nat \<times> bool) list \<Rightarrow> bool" where
  "flight_ok maxParallel started slots flight \<longleftrightarrow>
     distinct (map fst flight) \<and> (\<forall>i \<in> fst ` set flight. i < started) \<and> length flight \<le> maxParallel
     \<and> (\<forall>i. map_of flight i = Some False \<longrightarrow> slots ! i = None)"

lemma flight_ok_delete:
  assumes "flight_ok k n slots flight"
  shows "flight_ok k n slots (map_delete i flight)"
proof -
  have "length (map_delete i flight) \<le> k"
    using assms length_delete_le [of i flight] by (simp add: flight_ok_def)
  then show ?thesis using assms by (auto simp: flight_ok_def distinct_map_delete in_map_delete)
qed

definition group_sizes :: "nat \<Rightarrow> tool_group \<Rightarrow> bool" where
  "group_sizes maxParallel g \<longleftrightarrow>
     tg_calls g \<noteq> [] \<and> length (tg_slots g) = length (tg_calls g)
     \<and> length (tg_callSeqs g) = length (tg_calls g)
     \<and> (tg_mode g = Exclusive \<longrightarrow> length (tg_calls g) = 1)
     \<and> tg_committed g \<le> tg_started g \<and> tg_started g \<le> length (tg_calls g)
     \<and> (\<forall>i < length (tg_calls g). tg_slots g ! i \<noteq> None \<longrightarrow> i < tg_started g)
     \<and> flight_ok maxParallel (tg_started g) (tg_slots g) (tg_inFlight g)"

lemmas group_sizes_defs = group_sizes_def flight_ok_def

text \<open>Unless a dispatch failed, a started call whose result is missing is being dispatched or prepared.\<close>

definition group_flight :: "tool_group \<Rightarrow> group_point \<Rightarrow> bool" where
  "group_flight g p \<longleftrightarrow>
     (tg_failure g = None \<longrightarrow> (\<forall>i < tg_started g. tg_slots g ! i = None \<longrightarrow>
        map_of (tg_inFlight g) i = Some False \<or> (p = Preparing \<and> i = tg_nextToStart g)))"

text \<open>What holds at each point; \<open>waiting_ready\<close>: a result in turn belongs to a promise not yet raced.\<close>

definition waiting_ready :: "tool_group \<Rightarrow> bool" where
  "waiting_ready g \<longleftrightarrow> (ready_slot g \<noteq> None \<longrightarrow> map_of (tg_inFlight g) (tg_committed g) = Some True)"

definition begun :: "tool_group \<Rightarrow> bool" where
  "begun g \<longleftrightarrow> tg_aborted g \<or> 0 < tg_started g"

fun group_phase :: "nat \<Rightarrow> tool_group \<Rightarrow> group_point \<Rightarrow> bool" where
  "group_phase k g FillTest =
     (tg_started g = tg_nextToStart g \<and> tg_failure g = None \<and> waiting_ready g)"
| "group_phase k g Reclassify =
     (tg_started g = tg_nextToStart g \<and> tg_failure g = None \<and> waiting_ready g
      \<and> tg_nextToStart g < length (tg_calls g) \<and> length (tg_inFlight g) < k \<and> 0 < tg_nextToStart g)"
| "group_phase k g StartCall =
     (tg_started g = tg_nextToStart g \<and> tg_failure g = None \<and> waiting_ready g
      \<and> tg_nextToStart g < length (tg_calls g) \<and> length (tg_inFlight g) < k)"
| "group_phase k g Preparing =
     (tg_started g = tg_nextToStart g + 1 \<and> waiting_ready g \<and> length (tg_inFlight g) < k
      \<and> tg_slots g ! tg_nextToStart g = None \<and> tg_nextToStart g \<notin> fst ` set (tg_inFlight g))"
| "group_phase k g Started = (tg_started g = tg_nextToStart g + 1)"
| "group_phase k g CommitTest = (tg_started g = tg_nextToStart g \<and> begun g)"
| "group_phase k g Finishing = (tg_started g = tg_nextToStart g \<and> begun g \<and> ready_slot g \<noteq> None)"
| "group_phase k g (Accepting ms c) = (tg_started g = tg_nextToStart g \<and> begun g \<and> ready_slot g \<noteq> None)"
| "group_phase k g Committed = (tg_started g = tg_nextToStart g \<and> begun g \<and> waiting_ready g)"
| "group_phase k g PoolTest =
     (tg_started g = tg_nextToStart g \<and> begun g \<and> waiting_ready g \<and> tg_failure g = None)"
| "group_phase k g Racing = (tg_started g = tg_nextToStart g \<and> begun g \<and> waiting_ready g \<and> tg_inFlight g \<noteq> [])"
| "group_phase k g Draining = (tg_failure g \<noteq> None)"
| "group_phase k g (Skipping cs) =
     (cs = drop (length (tg_calls g) - length cs) (tg_calls g)
      \<and> length cs \<le> length (tg_calls g) - tg_started g \<and> tg_committed g = tg_started g)"

definition group_ok :: "nat \<Rightarrow> tool_group \<Rightarrow> group_point \<Rightarrow> bool" where
  "group_ok k g p \<longleftrightarrow> group_sizes k g \<and> group_flight g p \<and> group_phase k g p"

lemma new_group_ok:
  assumes "calls \<noteq> []" "mode = Exclusive \<Longrightarrow> length calls = 1"
  shows "group_ok k (new_group calls mode signal) FillTest"
  using assms
  by (simp add: group_ok_def group_sizes_defs group_flight_def new_group_def waiting_ready_def ready_slot_def)

text \<open>Fields that the parts of the invariant do not read.\<close>

lemma group_frames [simp]:
  "group_sizes k (g\<lparr>tg_nextToStart := n\<rparr>) = group_sizes k g"
  "group_sizes k (g\<lparr>tg_aborted := a\<rparr>) = group_sizes k g"
  "waiting_ready (g\<lparr>tg_nextToStart := n\<rparr>) = waiting_ready g"
  "waiting_ready (g\<lparr>tg_aborted := a\<rparr>) = waiting_ready g"
  "waiting_ready (g\<lparr>tg_callSeqs := q, tg_started := n\<rparr>) = waiting_ready g"
  by (simp_all add: group_sizes_defs waiting_ready_def ready_slot_def)

lemma fail_with_simps [simp]:
  "tg_calls (fail_with e g) = tg_calls g" "tg_slots (fail_with e g) = tg_slots g"
  "tg_callSeqs (fail_with e g) = tg_callSeqs g" "tg_started (fail_with e g) = tg_started g"
  "tg_committed (fail_with e g) = tg_committed g" "tg_inFlight (fail_with e g) = tg_inFlight g"
  "tg_nextToStart (fail_with e g) = tg_nextToStart g" "tg_mode (fail_with e g) = tg_mode g"
  "tg_aborted (fail_with e g) = tg_aborted g" "tg_failure (fail_with e g) \<noteq> None"
  by (simp_all add: fail_with_def)

lemma failed_ok: "group_sizes k g \<Longrightarrow> group_ok k (fail_with e g) Draining"
  by (simp add: group_ok_def group_sizes_defs group_flight_def)

lemma draining_ok: "group_sizes k g \<Longrightarrow> tg_failure g \<noteq> None \<Longrightarrow> group_ok k g Draining"
  by (auto simp: group_ok_def group_flight_def)

lemma ready_slot_started:
  "group_sizes k g \<Longrightarrow> ready_slot g = Some sl \<Longrightarrow>
   tg_committed g < tg_started g \<and> tg_slots g ! tg_committed g = Some sl \<and> tg_committed g < length (tg_calls g)"
  by (auto simp: ready_slot_def group_sizes_defs split: if_splits)

lemma settle_fields:
  "tg_calls (settle i s g) = tg_calls g" "tg_callSeqs (settle i s g) = tg_callSeqs g"
  "tg_started (settle i s g) = tg_started g" "tg_committed (settle i s g) = tg_committed g"
  "tg_inFlight (settle i s g) = map_set i True (tg_inFlight g)" "tg_mode (settle i s g) = tg_mode g"
  "tg_nextToStart (settle i s g) = tg_nextToStart g" "tg_aborted (settle i s g) = tg_aborted g"
  "tg_slots (settle i s g) = (case s of None \<Rightarrow> tg_slots g | Some sl \<Rightarrow> (tg_slots g)[i := Some sl])"
  "s \<noteq> None \<Longrightarrow> tg_failure (settle i s g) = tg_failure g"
  "tg_failure g \<noteq> None \<or> s = None \<Longrightarrow> tg_failure (settle i s g) \<noteq> None"
  by (auto simp: settle_def Let_def fail_with_def split: option.splits)

lemma set_present_keys:
  assumes "map_of m i \<noteq> None"
  shows "fst ` set (map_set i v m) = fst ` set m" "length (map_set i v m) = length m"
proof -
  from assms have "i \<in> fst ` set m" by (auto simp: map_of_eq_None_iff)
  then show "fst ` set (map_set i v m) = fst ` set m" by (auto simp: dom_update)
  from \<open>i \<in> fst ` set m\<close> show "length (map_set i v m) = length m" by (induction m) auto
qed

lemma settle_sizes:
  assumes "group_sizes k g" "map_of (tg_inFlight g) i = Some False"
  shows "group_sizes k (settle i s g)"
proof -
  have i: "i < tg_started g" "i < length (tg_calls g)" "map_of (tg_inFlight g) i \<noteq> None"
    using assms by (force simp: group_sizes_defs dest: map_of_SomeD)+
  show ?thesis
    using assms i set_present_keys [OF i(3), of True] distinct_update [of "tg_inFlight g" i True]
    by (auto simp: group_sizes_defs settle_fields nth_list_update split: option.splits)
qed

lemma settle_ok:
  assumes ok: "group_ok k g p" and a: "awaits g p" and i: "map_of (tg_inFlight g) i = Some False"
  shows "group_ok k (settle i s g) p"
proof -
  have g: "group_sizes k g" "group_flight g p" "group_phase k g p" using ok by (auto simp: group_ok_def)
  have n: "i < tg_started g" "i < length (tg_calls g)" "i < length (tg_slots g)" "tg_inFlight g \<noteq> []"
    using g(1) i by (force simp: group_sizes_defs dest: map_of_SomeD)+
  have len: "length (map_set i True (tg_inFlight g)) = length (tg_inFlight g)"
    "fst ` set (map_set i True (tg_inFlight g)) = fst ` set (tg_inFlight g)"
    using set_present_keys [of "tg_inFlight g" i True] i by auto
  have flight: "group_flight (settle i s g) p"
  proof (cases s)
    case None
    then show ?thesis using settle_fields(11) [of g s i] by (auto simp: group_flight_def)
  next
    case (Some sl)
    then show ?thesis using g(2) n by (auto simp: group_flight_def settle_fields nth_list_update)
  qed
  have ready: "waiting_ready (settle i s g)" if "waiting_ready g"
    using that n by (auto simp: waiting_ready_def ready_slot_def settle_fields nth_list_update split: option.splits if_splits)
  have still: "ready_slot (settle i s g) \<noteq> None" if "ready_slot g \<noteq> None"
    using that n by (auto simp: ready_slot_def settle_fields nth_list_update split: option.splits if_splits)
  have "group_phase k (settle i s g) p"
  proof (cases p)
    case Preparing
    have "i \<noteq> tg_nextToStart g" using g(3) Preparing i by (force dest: map_of_SomeD)
    then show ?thesis using g(3) Preparing ready n len
      by (auto simp: settle_fields nth_list_update split: option.splits)
  next
    case Racing
    then show ?thesis using g(3) ready n len by (auto simp: settle_fields begun_def)
  next
    case Draining
    then show ?thesis using g(3) settle_fields(11) [of g s i] by simp
  qed (use g(3) ready still a in \<open>auto simp: settle_fields begun_def awaits_def\<close>)
  then show ?thesis using settle_sizes [OF g(1) i] flight by (simp add: group_ok_def)
qed

lemma start_call_ok:
  assumes "group_ok k g StartCall" "start_call env now w g = (w', g', p')"
  shows "group_ok k g' p'"
proof -
  have g: "group_sizes k g" "group_flight g StartCall" "group_phase k g StartCall"
    using assms(1) by (auto simp: group_ok_def)
  obtain v r where a: "appendToolCall env now (tg_calls g ! tg_nextToStart g) w = (v, r)" by fastforce
  show ?thesis
  proof (cases r)
    case None
    then show ?thesis using assms(2) a failed_ok [OF g(1)] by (auto simp: start_call_def)
  next
    case (Some s)
    have free: "tg_slots g ! tg_nextToStart g = None" "tg_nextToStart g \<notin> fst ` set (tg_inFlight g)"
      using g(1,3) by (force simp: group_sizes_defs)+
    have "g' = g\<lparr>tg_callSeqs := (tg_callSeqs g)[tg_nextToStart g := Some s], tg_started := tg_started g + 1\<rparr>"
      "p' = Preparing" using assms(2) a Some by (auto simp: start_call_def)
    moreover have "group_sizes k (g\<lparr>tg_callSeqs := (tg_callSeqs g)[tg_nextToStart g := Some s], tg_started := tg_started g + 1\<rparr>)"
      using g(1,3) by (simp add: group_sizes_defs) (meson less_SucI)
    ultimately show ?thesis using g(2,3) free
      by (simp add: group_ok_def group_flight_def less_Suc_eq)
  qed
qed

lemma length_map_set_new: "k \<notin> fst ` set m \<Longrightarrow> length (map_set k v m) = Suc (length m)"
  by (induction m) auto

lemma prepared_ok:
  assumes "group_ok k g Preparing"
  shows "case prepared_call s g of (g', p') \<Rightarrow> group_ok k g' p'"
proof (cases "tg_failure g = None")
  case False
  then show ?thesis using assms draining_ok by (auto simp: prepared_call_def group_ok_def)
next
  case True
  have g: "group_sizes k g" "group_flight g Preparing" "group_phase k g Preparing"
    using assms by (auto simp: group_ok_def)
  then have n: "tg_nextToStart g < length (tg_slots g)" by (auto simp: group_sizes_defs)
  show ?thesis
  proof (cases s)
    case None
    let ?g = "g\<lparr>tg_inFlight := map_set (tg_nextToStart g) False (tg_inFlight g)\<rparr>"
    have "group_sizes k ?g"
      using g length_map_set_new [of "tg_nextToStart g" "tg_inFlight g" False]
        distinct_update [of "tg_inFlight g" "tg_nextToStart g" False]
      by (simp add: group_sizes_defs dom_update)
    moreover have "group_flight ?g Started" "group_phase k ?g Started"
      using g by (auto simp: group_flight_def)
    ultimately show ?thesis using True None by (simp add: prepared_call_def group_ok_def)
  next
    case (Some sl)
    have "map_of (tg_inFlight g) (tg_nextToStart g) = None"
      using g(3) by (simp add: map_of_eq_None_iff)
    then show ?thesis using True g n Some
      by (auto simp: prepared_call_def group_ok_def group_sizes_defs group_flight_def nth_list_update)
  qed
qed

lemma after_start_ok:
  assumes "group_ok k g Started"
  shows "case after_start g of (g', p') \<Rightarrow> group_ok k g' p'"
  using assms by (simp add: after_start_def Let_def group_ok_def group_flight_def begun_def)

lemma fill_test_ok:
  assumes "group_ok k g FillTest" "0 < k"
  shows "group_ok k g (fill_test k g)"
proof -
  have g: "group_sizes k g" "group_flight g FillTest" "group_phase k g FillTest"
    using assms(1) by (auto simp: group_ok_def)
  have "tg_inFlight g = []" if "tg_started g = 0"
    using that g(1) by (auto simp: group_sizes_defs)
  moreover have "0 < length (tg_calls g)" using g(1) by (simp add: group_sizes_defs)
  ultimately have "begun g" if "tg_aborted g \<or> \<not> tg_nextToStart g < length (tg_calls g) \<or> \<not> length (tg_inFlight g) < k"
    using that g(3) assms(2) by (cases "tg_started g = 0") (auto simp: begun_def)
  then show ?thesis using g by (simp add: fill_test_def group_ok_def group_flight_def)
qed

lemma reclassify_ok:
  assumes "group_ok k g Reclassify"
  shows "group_ok k g (if mode = Parallel then StartCall else PoolTest)"
  using assms by (auto simp: group_ok_def group_flight_def begun_def)

lemma commit_test_ok:
  assumes "group_ok k g CommitTest"
  shows "group_ok k g (commit_test g)"
  using assms
  by (auto simp: commit_test_def group_ok_def group_flight_def waiting_ready_def split: option.splits)

lemma commit_result_ok:
  assumes "group_ok k g Finishing" "commit_result env now mid res w g = (w', g', p')"
  shows "group_ok k g' p'"
proof -
  have g: "group_sizes k g" "group_flight g Finishing" "group_phase k g Finishing"
    using assms(1) by (auto simp: group_ok_def)
  have "group_ok k g (Accepting (xr_contexts res) (xr_concludes res))"
    using g by (simp add: group_ok_def group_flight_def)
  with assms(2) failed_ok [OF g(1)] show ?thesis
    by (auto simp: commit_result_def split: option.splits prod.splits)
qed

lemma accept_context_ok:
  assumes "group_ok k g (Accepting (c # cs) b)" "accept_context env now c cs b w g = (w', g', p')"
  shows "group_ok k g' p'"
proof -
  have "group_sizes k g" "group_ok k g (Accepting cs b)"
    using assms(1) by (auto simp: group_ok_def group_flight_def)
  with assms(2) failed_ok show ?thesis
    by (auto simp: accept_context_def split: prod.splits bool.splits)
qed

lemma commit_next_ok:
  assumes "group_ok k g (Accepting [] b)"
  shows "group_ok k (commit_next b g) CommitTest"
proof -
  have g: "group_sizes k g" "group_flight g (Accepting [] b)" "group_phase k g (Accepting [] b)"
    using assms by (auto simp: group_ok_def)
  then have "tg_committed g < tg_started g" using ready_slot_started [OF g(1)] by auto
  then have "group_sizes k (commit_next b g)" using g(1) by (simp add: commit_next_def group_sizes_defs)
  then show ?thesis using g(2,3) by (auto simp: commit_next_def group_ok_def group_flight_def begun_def)
qed

lemma after_commit_ok:
  assumes "group_ok k g Committed"
  shows "case after_commit signal g of (g', p') \<Rightarrow> group_ok k g' p'"
  using assms by (simp add: after_commit_def group_ok_def group_flight_def)

lemma race_ok:
  assumes "group_ok k g Racing" "map_of (tg_inFlight g) i = Some True"
  shows "case race_settled i g of (g', p') \<Rightarrow> group_ok k g' p'"
proof -
  have g: "group_sizes k g" "group_flight g Racing" "group_phase k g Racing"
    using assms(1) by (auto simp: group_ok_def)
  have sizes: "group_sizes k (g\<lparr>tg_inFlight := map_delete i (tg_inFlight g)\<rparr>)"
    using g(1) flight_ok_delete [of k] by (simp add: group_sizes_def)
  show ?thesis
  proof (cases "tg_failure g = None")
    case True
    then show ?thesis using sizes g(2,3) assms(2)
      by (auto simp: race_settled_def group_ok_def group_flight_def begun_def)
  next
    case False
    then show ?thesis using draining_ok [OF sizes] by (simp add: race_settled_def Let_def)
  qed
qed

text \<open>When nothing is in flight every started call has been committed.\<close>

lemma pool_empty:
  assumes "group_ok k g PoolTest" "tg_inFlight g = []"
  shows "tg_committed g = tg_started g"
proof (rule ccontr)
  assume "tg_committed g \<noteq> tg_started g"
  with assms have c: "tg_committed g < tg_started g" "tg_started g \<le> length (tg_calls g)"
    by (auto simp: group_ok_def group_sizes_defs)
  with assms show False
    by (auto simp: group_ok_def group_flight_def waiting_ready_def ready_slot_def)
qed

lemma group_move_elim:
  assumes "group_move env signal m w g p = Some (w', g', p')"
  obtains (settled) i s where "m = Settled i s" "awaits g p" "map_of (tg_inFlight g) i = Some False"
      "w' = w" "g' = settle i s g" "p' = p"
    | (fill) "p = FillTest" "w' = w" "g' = g" "p' = fill_test (sn_max env) g"
    | (reclassify) mode where "p = Reclassify" "w' = w" "g' = g" "p' = (if mode = Parallel then StartCall else PoolTest)"
    | (start) now where "p = StartCall" "start_call env now w g = (w', g', p')"
    | (prepared) s where "p = Preparing" "w' = w" "prepared_call s g = (g', p')"
    | (prepare_throws) "p = Preparing" "w' = w" "g' = fail_with PrepareRejected g" "p' = Draining"
    | (started) "p = Started" "w' = w" "after_start g = (g', p')"
    | (commit) "p = CommitTest" "w' = w" "g' = g" "p' = commit_test g"
    | (finished) now mid res where "p = Finishing" "commit_result env now mid res w g = (w', g', p')"
    | (finish_throws) "p = Finishing" "w' = w" "g' = fail_with FinalizeRejected g" "p' = Draining"
    | (accept) c cs b now where "p = Accepting (c # cs) b" "accept_context env now c cs b w g = (w', g', p')"
    | (accepted) b where "p = Accepting [] b" "w' = w" "g' = commit_next b g" "p' = CommitTest"
    | (committed) "p = Committed" "w' = w" "after_commit signal g = (g', p')"
    | (race) "p = PoolTest" "w' = w" "g' = g" "p' = Racing" "tg_inFlight g \<noteq> []"
    | (skip) "p = PoolTest" "w' = w" "g' = g" "p' = Skipping (drop (tg_started g) (tg_calls g))"
      "tg_inFlight g = []" "tg_aborted g"
    | (raced) i where "p = Racing" "w' = w" "map_of (tg_inFlight g) i = Some True" "race_settled i g = (g', p')"
proof (cases m)
  case Go
  show thesis
  proof (cases p)
    case (Accepting ms b)
    then show thesis using assms Go accepted by (cases ms) (simp_all add: group_move_def)
  next
    case PoolTest
    then show thesis using assms Go race skip by (auto simp: group_move_def split: if_splits)
  qed (use assms Go fill started commit committed in \<open>auto simp: group_move_def\<close>)
next
  case (AcceptAt now)
  show thesis
  proof (cases p)
    case (Accepting ms b)
    then show thesis using assms AcceptAt accept by (cases ms) (simp_all add: group_move_def)
  qed (use assms AcceptAt in \<open>simp_all add: group_move_def\<close>)
next
  case (Settled i s)
  then show thesis using assms settled by (simp add: group_move_def split: if_splits)
next
  case (Raced i)
  then show thesis using assms raced by (cases p) (simp_all add: group_move_def split: if_splits list.splits)
next
  case (Classify mode)
  then show thesis using assms reclassify [of mode] by (cases p) (simp_all add: group_move_def split: list.splits)
next
  case (BeginAt now)
  then show thesis using assms start by (cases p) (simp_all add: group_move_def split: list.splits)
next
  case (Prepared s)
  then show thesis using assms prepared [of s] by (cases p) (simp_all add: group_move_def split: list.splits)
next
  case PrepareThrows
  then show thesis using assms prepare_throws by (cases p) (simp_all add: group_move_def split: list.splits)
next
  case (FinishedAt now mid res)
  then show thesis using assms finished by (cases p) (simp_all add: group_move_def split: list.splits)
next
  case FinishThrows
  then show thesis using assms finish_throws by (cases p) (simp_all add: group_move_def split: list.splits)
next
  case (SkipAt now later mid)
  then show thesis using assms by (cases p) (simp_all add: group_move_def split: list.splits)
qed

lemma group_move_ok:
  assumes "group_ok (sn_max env) g p" "0 < sn_max env" "group_move env signal m w g p = Some (w', g', p')"
  shows "group_ok (sn_max env) g' p'"
proof -
  have sizes: "group_sizes (sn_max env) g" using assms(1) by (simp add: group_ok_def)
  from assms(3) show ?thesis
  proof (cases rule: group_move_elim)
    case race
    then show ?thesis using assms(1) by (auto simp: group_ok_def group_flight_def)
  next
    case skip
    then show ?thesis using assms(1) pool_empty [of "sn_max env" g]
      by (auto simp: group_ok_def group_flight_def group_sizes_defs)
  next
    case (settled i s)
    then show ?thesis using assms(1) settle_ok by blast
  next
    case (reclassify mode)
    then show ?thesis using assms(1) reclassify_ok [of "sn_max env" g mode] by simp
  next
    case (prepared s)
    then show ?thesis using assms(1) prepared_ok [of "sn_max env" g s] by simp
  next
    case started
    then show ?thesis using assms(1) after_start_ok [of "sn_max env" g] by simp
  next
    case committed
    then show ?thesis using assms(1) after_commit_ok [of "sn_max env" g signal] by simp
  next
    case (raced i)
    then show ?thesis using assms(1) race_ok [of "sn_max env" g i] by simp
  next
    case fill
    then show ?thesis using assms(1,2) fill_test_ok by simp
  next
    case (start now)
    then show ?thesis using assms(1) start_call_ok [of "sn_max env" g] by metis
  next
    case (finished now mid res)
    then show ?thesis using assms(1) commit_result_ok [of "sn_max env" g] by metis
  next
    case (accept c cs b now)
    then show ?thesis using assms(1) accept_context_ok [of "sn_max env" g] by metis
  qed (use assms(1) failed_ok [OF sizes] commit_test_ok commit_next_ok in simp_all)
qed

end
