(* ===== verification/Tool_Calls.thy ===== *)
theory Tool_Calls
  imports Tool_Scheduler
begin

text \<open>
  What the scheduler of tool calls guarantees. Its contract with the world it writes to is the
  locale \<open>tool_world\<close>: an append puts one event at the end of the log or changes nothing, and neither
  the acceptor of contexts nor anyone else records calls or results. Under that contract the calls
  and the results it records stand in the order of the model, each result citing its own call. The
  locale \<open>guarded_world\<close> adds a world that refuses exactly what the session's validators refuse; then
  nothing the scheduler records is ever refused. Both are interpreted on an agent's inbox over its
  session log.
\<close>

section \<open>What a log says about tool calls\<close>

definition quiet :: "session_event \<Rightarrow> bool" where
  "quiet e \<longleftrightarrow> plain_data (ev_data e)
     \<or> (case ev_data e of ToolResult _ \<Rightarrow> ev_surfaceOp e \<noteq> Some append_op | _ \<Rightarrow> False)"

definition is_start :: "session_event \<Rightarrow> bool" where
  "is_start e \<longleftrightarrow> (case ev_data e of ToolCall _ _ _ _ _ \<Rightarrow> True | _ \<Rightarrow> False)"

definition is_answer :: "session_event \<Rightarrow> bool" where
  "is_answer e \<longleftrightarrow> (case ev_data e of ToolResult _ \<Rightarrow> ev_surfaceOp e = Some append_op | _ \<Rightarrow> False)"

text \<open>Sequence number and payload of each call; citation, position and call id of each result.\<close>

definition tool_starts :: "session_event list \<Rightarrow> (nat \<times> event_data) list" where
  "tool_starts log = map (\<lambda>e. (ev_seq e, ev_data e)) (filter is_start log)"

definition answer_view :: "session_event \<Rightarrow> json option \<times> int \<times> int \<times> string option" where
  "answer_view e = (case ev_data e of
     ToolResult r \<Rightarrow> (ev_sources e, tr_turn r, tr_step r, result_call (tr_message r))
   | _ \<Rightarrow> (None, 0, 0, None))"

definition tool_answers :: "session_event list \<Rightarrow> (json option \<times> int \<times> int \<times> string option) list" where
  "tool_answers log = map answer_view (filter is_answer log)"

definition call_data :: "('w, 'o) sched_env \<Rightarrow> planned_call \<Rightarrow> event_data" where
  "call_data env c = ToolCall (sn_turn env) (sn_step env) (pl_id c) (pl_name c) (pl_arguments c)"

definition call_answer :: "('w, 'o) sched_env \<Rightarrow> nat \<Rightarrow> planned_call \<Rightarrow> json option \<times> int \<times> int \<times> string option" where
  "call_answer env s c = (Some (JArr [num s]), sn_turn env, sn_step env, Some (pl_id c))"

text \<open>The first \<open>k\<close> calls are recorded, in order, and the first \<open>j\<close> of them answered, in order.\<close>

definition recorded :: "('w, 'o) sched_env \<Rightarrow> planned_call list \<Rightarrow> session_event list \<Rightarrow> nat \<Rightarrow> nat \<Rightarrow> bool" where
  "recorded env planned log k j \<longleftrightarrow>
     j \<le> k \<and> k \<le> length planned \<and> (\<forall>e \<in> set log. quiet e \<or> is_start e \<or> is_answer e)
     \<and> map snd (tool_starts log) = map (call_data env) (take k planned)
     \<and> tool_answers log = map2 (call_answer env) (take j (map fst (tool_starts log))) (take j planned)"

lemma tool_append [simp]:
  "tool_starts (xs @ ys) = tool_starts xs @ tool_starts ys"
  "tool_answers (xs @ ys) = tool_answers xs @ tool_answers ys"
  by (simp_all add: tool_starts_def tool_answers_def)

lemma quiet_views:
  "quiet e \<Longrightarrow> \<not> is_start e" "quiet e \<Longrightarrow> \<not> is_answer e"
  by (cases "ev_data e"; auto simp: quiet_def is_start_def is_answer_def)+

lemma quiet_list:
  assumes "\<forall>e \<in> set qs. quiet e"
  shows "tool_starts qs = []" "tool_answers qs = []"
  using assms quiet_views by (auto simp: tool_starts_def tool_answers_def filter_empty_conv)

lemma recorded_quiet: "recorded env planned log k j \<Longrightarrow> \<forall>e \<in> set qs. quiet e \<Longrightarrow> recorded env planned (log @ qs) k j"
  by (auto simp: recorded_def quiet_list)

lemma recorded_length: "recorded env planned log k j \<Longrightarrow> length (tool_starts log) = k"
  by (auto simp: recorded_def dest!: arg_cong [where f = length])

lemma call_event:
  assumes "ev_data e = call_data env c"
  shows "tool_starts [e] = [(ev_seq e, call_data env c)]" "tool_answers [e] = []"
  using assms by (simp_all add: tool_starts_def tool_answers_def is_start_def is_answer_def call_data_def)

lemma recorded_call:
  assumes "recorded env planned log k j" "k < length planned" "ev_data e = call_data env (planned ! k)"
  shows "recorded env planned (log @ [e]) (Suc k) j"
proof -
  have "is_start e" using assms(3) by (simp add: is_start_def call_data_def)
  with assms recorded_length [OF assms(1)] show ?thesis
    by (simp add: recorded_def call_event take_Suc_conv_app_nth)
qed

lemma recorded_result:
  assumes "recorded env planned log k j" "j < k" "is_answer e" "\<not> is_start e"
    "answer_view e = call_answer env (fst (tool_starts log ! j)) (planned ! j)"
  shows "recorded env planned (log @ [e]) k (Suc j)"
proof -
  have "j < length planned" "j < length (tool_starts log)"
    using assms(1,2) recorded_length [OF assms(1)] by (auto simp: recorded_def)
  moreover have "tool_starts [e] = []" "tool_answers [e] = [answer_view e]"
    using assms(3,4) by (simp_all add: tool_starts_def tool_answers_def)
  ultimately show ?thesis using assms
    by (simp add: recorded_def take_Suc_conv_app_nth nth_append)
qed

section \<open>The invariant of a run\<close>

fun starts_at :: "tool_group \<Rightarrow> group_point \<Rightarrow> nat" where
  "starts_at g (Skipping cs) = length (tg_calls g) - length cs"
| "starts_at g _ = tg_started g"

fun answers_at :: "tool_group \<Rightarrow> group_point \<Rightarrow> nat \<Rightarrow> bool" where
  "answers_at g (Skipping cs) j = (j = length (tg_calls g) - length cs)"
| "answers_at g (Accepting _ _) j = (j = Suc (tg_committed g))"
| "answers_at g Draining j = True"
| "answers_at g _ j = (j = tg_committed g)"

definition group_recorded ::
  "('w, 'o) sched_env \<Rightarrow> planned_call list \<Rightarrow> nat \<Rightarrow> session_event list \<Rightarrow> tool_group \<Rightarrow> group_point \<Rightarrow> bool" where
  "group_recorded env planned nxt ext g p \<longleftrightarrow>
     (\<exists>rest. drop nxt planned = tg_calls g @ rest)
     \<and> (\<exists>j. answers_at g p j \<and> recorded env planned ext (nxt + starts_at g p) (nxt + j))
     \<and> (\<forall>i < tg_started g. tg_callSeqs g ! i = Some (fst (tool_starts ext ! (nxt + i))) \<or> (\<exists>cs. p = Skipping cs))
     \<and> tg_failure g \<noteq> Some UncommittedCalls"

definition sched_ok :: "('w, 'o) sched_env \<Rightarrow> session_event list \<Rightarrow> 'w sched \<Rightarrow> bool" where
  "sched_ok env ext s \<longleftrightarrow>
     sd_next s \<le> length (sd_planned s)
     \<and> (case sd_point s of
          NextGroup \<Rightarrow> recorded env (sd_planned s) ext (sd_next s) (sd_next s)
        | InGroup g p \<Rightarrow> group_ok (sn_max env) g p \<and> group_recorded env (sd_planned s) (sd_next s) ext g p
        | SkipRest cs \<Rightarrow>
            length cs \<le> length (sd_planned s) \<and> cs = drop (length (sd_planned s) - length cs) (sd_planned s)
            \<and> recorded env (sd_planned s) ext (length (sd_planned s) - length cs) (length (sd_planned s) - length cs)
        | ReturnedCalls _ \<Rightarrow> recorded env (sd_planned s) ext (length (sd_planned s)) (length (sd_planned s))
        | ThrewCalls err \<Rightarrow> err \<noteq> UncommittedCalls \<and> (\<exists>k j. recorded env (sd_planned s) ext k j))"

lemma sched_ok_world [simp]:
  "sched_ok env ext (s\<lparr>sd_world := w\<rparr>) = sched_ok env ext s"
  "sched_ok env ext (s\<lparr>sd_signal := b\<rparr>) = sched_ok env ext s"
  by (simp_all add: sched_ok_def cong: sched_point.case_cong)

lemma sched_ok_quiet:
  assumes "sched_ok env ext s" "\<forall>e \<in> set qs. quiet e"
  shows "sched_ok env (ext @ qs) s"
proof -
  have "recorded env pl (ext @ qs) k j" if "recorded env pl ext k j" for pl k j
    using that assms(2) by (rule recorded_quiet)
  then show ?thesis using assms
    by (cases "sd_point s") (fastforce simp: sched_ok_def group_recorded_def quiet_list)+
qed

lemma recorded_move:
  assumes "group_recorded env planned nxt ext g p"
    and "tg_calls g' = tg_calls g" "tg_started g' = tg_started g" "tg_callSeqs g' = tg_callSeqs g"
    and "tg_failure g' \<noteq> Some UncommittedCalls" "starts_at g' p' = starts_at g p"
    and "\<And>j. answers_at g p j \<Longrightarrow> answers_at g' p' j" "\<And>cs. p = Skipping cs \<Longrightarrow> \<exists>cs. p' = Skipping cs"
  shows "group_recorded env planned nxt ext g' p'"
  using assms unfolding group_recorded_def by auto

lemma group_call_at:
  assumes "drop nxt planned = calls @ rest" "i < length calls"
  shows "nxt + i < length planned \<and> planned ! (nxt + i) = calls ! i"
proof -
  have "length planned - nxt = length calls + length rest"
    using arg_cong [OF assms(1), of length] by simp
  then have "nxt + i < length planned" using assms(2) by linarith
  moreover have "planned ! (nxt + i) = drop nxt planned ! i" using \<open>nxt + i < length planned\<close> by simp
  ultimately show ?thesis using assms by (simp add: nth_append)
qed

lemma suffix_head:
  assumes "c # cs = drop (length xs - length (c # cs)) xs" "length (c # cs) \<le> length xs"
  shows "length xs - length (c # cs) < length xs" "xs ! (length xs - length (c # cs)) = c"
    "cs = drop (length xs - length cs) xs" "length xs - length cs = Suc (length xs - length (c # cs))"
proof -
  let ?i = "length xs - length (c # cs)"
  show i: "?i < length xs" using assms(2) by simp
  show s: "length xs - length cs = Suc ?i" using assms(2) by simp
  have "c # cs = xs ! ?i # drop (Suc ?i) xs" using assms(1) Cons_nth_drop_Suc [OF i] by simp
  then show "xs ! ?i = c" "cs = drop (length xs - length cs) xs" unfolding s by simp_all
qed

lemma failed_recorded:
  assumes "group_recorded env planned nxt ext g p" "e \<noteq> UncommittedCalls" "\<And>cs. p \<noteq> Skipping cs"
  shows "group_recorded env planned nxt ext (fail_with e g) Draining"
proof -
  have "starts_at g p = tg_started g" using assms(3) by (cases p) auto
  with assms show ?thesis
    by (intro recorded_move [OF assms(1)]) (auto simp: fail_with_def group_recorded_def split: option.splits)
qed

lemma settled_recorded:
  assumes "group_recorded env planned nxt ext g p" "awaits g p"
  shows "group_recorded env planned nxt ext (settle i sl g) p"
proof (rule recorded_move [OF assms(1)])
  show "tg_failure (settle i sl g) \<noteq> Some UncommittedCalls"
    using assms(1) by (auto simp: settle_def Let_def fail_with_def group_recorded_def split: option.splits)
qed (use assms(2) in \<open>cases p; simp add: settle_fields awaits_def\<close>)+

text \<open>How a move goes: inside a group, out of it, or in the outer loop.\<close>

lemma group_ends_elim:
  assumes "group_ends env m g p s = Some t"
  obtains (unfinished) "p = PoolTest" "tg_inFlight g = []" "tg_committed g \<noteq> tg_started g"
      "t = s\<lparr>sd_point := ThrewCalls UncommittedCalls\<rparr>"
    | (finished) "p = PoolTest" "tg_inFlight g = []" "\<not> tg_aborted g" "tg_committed g = tg_started g"
      "t = leave_group (tg_started g) False (tg_concluded g) s"
    | (drained) "p = Draining"
      "t = s\<lparr>sd_point := ThrewCalls (case tg_failure g of Some e \<Rightarrow> e | None \<Rightarrow> UncommittedCalls)\<rparr>"
    | (skipped) "p = Skipping []" "t = leave_group (length (tg_calls g)) True (tg_concluded g) s"
    | (skip_threw) c cs now later mid w where "p = Skipping (c # cs)"
      "appendSkippedToolCall env now later mid c (sd_world s) = (w, False)"
      "t = s\<lparr>sd_world := w, sd_point := ThrewCalls AppendThrew\<rparr>"
    | (skip) c cs now later mid w where "p = Skipping (c # cs)"
      "appendSkippedToolCall env now later mid c (sd_world s) = (w, True)"
      "t = s\<lparr>sd_world := w, sd_point := InGroup g (Skipping cs)\<rparr>"
proof (cases p)
  case PoolTest
  then show thesis using assms unfinished finished
    by (cases m) (auto simp: group_ends_def split: if_splits)
next
  case Draining
  then show thesis using assms drained by (cases m) (simp_all add: group_ends_def split: if_splits)
next
  case (Skipping cs)
  then show thesis using assms skipped skip skip_threw
    by (cases cs; cases m) (auto simp: group_ends_def split: prod.splits bool.splits)
qed (use assms in \<open>simp_all add: group_ends_def split: sched_answer.splits\<close>)

lemma sched_move_elim:
  assumes "sched_move env m s = Some t"
  obtains (enter) mode where "sd_point s = NextGroup" "sd_next s < length (sd_planned s)"
      "t = s\<lparr>sd_point := InGroup (next_group mode s) FillTest\<rparr>"
    | (returned) "sd_point s = NextGroup" "length (sd_planned s) \<le> sd_next s"
      "t = s\<lparr>sd_point := ReturnedCalls (sd_concluded s)\<rparr>"
    | (inside) g p w g' p' where "sd_point s = InGroup g p"
      "group_move env (sd_signal s) m (sd_world s) g p = Some (w, g', p')"
      "t = s\<lparr>sd_world := w, sd_point := InGroup g' p'\<rparr>"
    | (ends) g p where "sd_point s = InGroup g p" "group_ends env m g p s = Some t"
    | (rest_done) "sd_point s = SkipRest []" "t = s\<lparr>sd_point := ReturnedCalls (sd_concluded s)\<rparr>"
    | (rest_threw) c cs now later mid w where "sd_point s = SkipRest (c # cs)"
      "appendSkippedToolCall env now later mid c (sd_world s) = (w, False)"
      "t = s\<lparr>sd_world := w, sd_point := ThrewCalls AppendThrew\<rparr>"
    | (rest) c cs now later mid w where "sd_point s = SkipRest (c # cs)"
      "appendSkippedToolCall env now later mid c (sd_world s) = (w, True)"
      "t = s\<lparr>sd_world := w, sd_point := SkipRest cs\<rparr>"
proof (cases "sd_point s")
  case NextGroup
  then show thesis using assms enter returned
    by (cases m) (auto simp: sched_move_def split: if_splits)
next
  case (InGroup g p)
  then show thesis using assms inside ends
    by (auto simp: sched_move_def split: option.splits)
next
  case (SkipRest cs)
  then show thesis using assms rest_done rest rest_threw
    by (cases cs; cases m) (auto simp: sched_move_def split: prod.splits bool.splits)
qed (use assms in \<open>simp_all add: sched_move_def\<close>)

section \<open>No run goes on for ever, none gets stuck\<close>

fun point_weight :: "group_point \<Rightarrow> nat" where
  "point_weight Preparing = 20" | "point_weight Started = 10" | "point_weight CommitTest = 9"
| "point_weight Finishing = 8" | "point_weight (Accepting _ _) = 7" | "point_weight Committed = 7"
| "point_weight FillTest = 6" | "point_weight Reclassify = 5" | "point_weight StartCall = 4"
| "point_weight PoolTest = 3" | "point_weight Racing = 2" | "point_weight Draining = 1"
| "point_weight (Skipping _) = 0"

definition unsettled :: "(nat \<times> bool) list \<Rightarrow> nat" where
  "unsettled flight = length (filter (\<lambda>(i, settled). \<not> settled) flight)"

definition group_rank :: "nat \<Rightarrow> tool_group \<Rightarrow> group_point \<Rightarrow> nat" where
  "group_rank remaining g p =
     (case p of
        Skipping cs \<Rightarrow> 2 + 2 * length cs + 2 * (remaining - length (tg_calls g))
      | _ \<Rightarrow> 5 * remaining + 20 * (remaining - tg_started g) + 5 * (remaining - tg_committed g)
             + 8 * length (tg_inFlight g) + unsettled (tg_inFlight g) + point_weight p)"

fun contexts_left :: "group_point \<Rightarrow> nat" where
  "contexts_left (Accepting cs _) = length cs"
| "contexts_left _ = 0"

definition sched_rank :: "'w sched \<Rightarrow> nat \<times> nat" where
  "sched_rank s =
     (let remaining = length (sd_planned s) - sd_next s in
      case sd_point s of
        NextGroup \<Rightarrow> (30 * remaining + 7, 0)
      | InGroup g p \<Rightarrow> (group_rank remaining g p, contexts_left p)
      | SkipRest cs \<Rightarrow> (1 + 2 * length cs, 0)
      | _ \<Rightarrow> (0, 0))"

lemma unsettled_simps [simp]:
  "unsettled [] = 0" "unsettled ((i, b) # m) = (if b then 0 else 1) + unsettled m"
  by (simp_all add: unsettled_def)

lemma unsettled_settle:
  "map_of m i = Some False \<Longrightarrow> unsettled m = Suc (unsettled (map_set i True m))"
  by (induction m) auto

lemma unsettled_new: "i \<notin> fst ` set m \<Longrightarrow> unsettled (map_set i False m) = Suc (unsettled m)"
  by (induction m) auto

lemma unsettled_delete: "unsettled (map_delete i m) \<le> unsettled m"
  by (induction m) auto

lemma length_delete_present: "map_of m i \<noteq> None \<Longrightarrow> length (map_delete i m) < length m"
proof (induction m)
  case (Cons a m)
  then show ?case using length_delete_le [of i m] by (cases a) auto
qed simp

lemma group_move_rank:
  assumes ok: "group_ok (sn_max env) g p" and n: "length (tg_calls g) \<le> remaining"
    and mv: "group_move env signal m w g p = Some (w', g', p')"
  shows "group_rank remaining g' p' < group_rank remaining g p
    \<or> (group_rank remaining g' p' = group_rank remaining g p \<and> contexts_left p' < contexts_left p)"
proof -
  have sz: "tg_started g \<le> length (tg_calls g)" "tg_committed g \<le> tg_started g"
    using ok by (auto simp: group_ok_def group_sizes_def)
  from mv show ?thesis
  proof (cases rule: group_move_elim)
    case (settled i s)
    have "length (map_set i True (tg_inFlight g)) = length (tg_inFlight g)"
      using settled(3) by (simp add: set_present_keys)
    moreover have "p \<noteq> Skipping cs" for cs using settled(2) by (auto simp: awaits_def)
    ultimately show ?thesis using settled unsettled_settle [OF settled(3)]
      by (cases p) (auto simp: group_rank_def settle_fields)
  next
    case fill
    then show ?thesis by (simp add: group_rank_def fill_test_def)
  next
    case (reclassify mode)
    then show ?thesis by (simp add: group_rank_def)
  next
    case (start now)
    have "tg_started g < length (tg_calls g)" using ok start(1) by (simp add: group_ok_def)
    with start n show ?thesis
      by (auto simp: group_rank_def start_call_def split: prod.splits option.splits)
  next
    case (prepared s)
    have "tg_nextToStart g \<notin> fst ` set (tg_inFlight g)" using ok prepared(1) by (simp add: group_ok_def)
    with prepared show ?thesis
      by (auto simp: group_rank_def prepared_call_def length_map_set_new unsettled_new
          split: if_splits option.splits)
  next
    case started
    then show ?thesis by (auto simp: group_rank_def after_start_def Let_def split: if_splits)
  next
    case commit
    then show ?thesis by (auto simp: group_rank_def commit_test_def split: option.splits)
  next
    case (finished now mid res)
    then show ?thesis by (auto simp: group_rank_def commit_result_def split: prod.splits option.splits)
  next
    case (accept c cs b now)
    then show ?thesis by (auto simp: group_rank_def accept_context_def split: prod.splits bool.splits)
  next
    case (accepted b)
    then have "tg_committed g < tg_started g" using ok ready_slot_started [of "sn_max env" g] by (auto simp: group_ok_def)
    with accepted sz n show ?thesis by (simp add: group_rank_def commit_next_def)
  next
    case committed
    then show ?thesis by (auto simp: group_rank_def after_commit_def split: if_splits)
  next
    case skip
    with sz n show ?thesis by (simp add: group_rank_def)
  next
    case (raced i)
    have "length (map_delete i (tg_inFlight g)) < length (tg_inFlight g)"
      using raced(3) by (simp add: length_delete_present)
    with raced unsettled_delete [of i "tg_inFlight g"] show ?thesis
      by (auto simp: group_rank_def race_settled_def Let_def split: if_splits)
  qed (simp_all add: group_rank_def)
qed

lemma settled_or_not: "m \<noteq> [] \<Longrightarrow> \<exists>i b. map_of m i = Some b"
  by (cases m) auto

definition group_can ::
  "('w, 'o) sched_env \<Rightarrow> bool \<Rightarrow> tool_group \<Rightarrow> group_point \<Rightarrow> 'w sched \<Rightarrow> sched_answer \<Rightarrow> bool" where
  "group_can env signal g p s m \<longleftrightarrow>
     group_move env signal m (sd_world s) g p \<noteq> None \<or> group_ends env m g p s \<noteq> None"

lemma group_progress:
  assumes "group_ok (sn_max env) g p"
  shows "\<exists>m. group_can env signal g p s m"
proof (cases p)
  case (Accepting cs b)
  have "group_can env signal g p s (case cs of [] \<Rightarrow> Go | _ \<Rightarrow> AcceptAt 0)"
    by (cases cs) (simp_all add: Accepting group_can_def group_move_def)
  then show ?thesis by blast
next
  case Racing
  with assms settled_or_not obtain i b where "map_of (tg_inFlight g) i = Some b"
    by (fastforce simp: group_ok_def)
  then have "group_can env signal g p s (if b then Raced i else Settled i None)"
    by (cases b) (simp_all add: Racing group_can_def group_move_def awaits_def)
  then show ?thesis by blast
next
  case Draining
  show ?thesis
  proof (cases "\<forall>(i, settled) \<in> set (tg_inFlight g). settled")
    case True
    then have "group_can env signal g p s Go" by (simp add: Draining group_can_def group_ends_def)
    then show ?thesis by blast
  next
    case False
    then obtain i where i: "(i, False) \<in> set (tg_inFlight g)" by auto
    then have "map_of (tg_inFlight g) i = Some False"
      using assms by (auto simp: group_ok_def group_sizes_defs)
    then have "group_can env signal g p s (Settled i None)"
      by (simp add: Draining group_can_def group_move_def awaits_def)
    then show ?thesis by blast
  qed
next
  case (Skipping cs)
  have "group_can env signal g p s (case cs of [] \<Rightarrow> Go | _ \<Rightarrow> SkipAt 0 0 [])"
    by (cases cs) (simp_all add: Skipping group_can_def group_ends_def split: prod.splits bool.splits)
  then show ?thesis by blast
next
  case PoolTest
  then have "group_can env signal g p s Go" by (simp add: group_can_def group_move_def group_ends_def)
  then show ?thesis by blast
next
  case Reclassify
  then have "group_can env signal g p s (Classify Parallel)" by (simp add: group_can_def group_move_def)
  then show ?thesis by blast
next
  case StartCall
  then have "group_can env signal g p s (BeginAt 0)" by (simp add: group_can_def group_move_def)
  then show ?thesis by blast
next
  case Preparing
  then have "group_can env signal g p s PrepareThrows" by (simp add: group_can_def group_move_def)
  then show ?thesis by blast
next
  case Finishing
  then have "group_can env signal g p s FinishThrows" by (simp add: group_can_def group_move_def)
  then show ?thesis by blast
next
  case FillTest
  then have "group_can env signal g p s Go" by (simp add: group_can_def group_move_def)
  then show ?thesis by blast
next
  case Started
  then have "group_can env signal g p s Go" by (simp add: group_can_def group_move_def)
  then show ?thesis by blast
next
  case CommitTest
  then have "group_can env signal g p s Go" by (simp add: group_can_def group_move_def)
  then show ?thesis by blast
next
  case Committed
  then have "group_can env signal g p s Go" by (simp add: group_can_def group_move_def)
  then show ?thesis by blast
qed

lemma sched_progress:
  assumes "sched_ok env ext s" "\<not> sched_final s"
  shows "\<exists>m. sched_move env m s \<noteq> None"
proof (cases "sd_point s")
  case NextGroup
  have "sched_move env (if sd_next s < length (sd_planned s) then Classify Parallel else Go) s \<noteq> None"
    using NextGroup by (simp add: sched_move_def)
  then show ?thesis by blast
next
  case (InGroup g p)
  with assms(1) have "group_ok (sn_max env) g p" by (simp add: sched_ok_def)
  from group_progress [OF this] obtain m where "group_can env (sd_signal s) g p s m" by blast
  with InGroup have "sched_move env m s \<noteq> None" by (auto simp: sched_move_def group_can_def split: option.splits)
  then show ?thesis by blast
next
  case (SkipRest cs)
  have "sched_move env (case cs of [] \<Rightarrow> Go | _ \<Rightarrow> SkipAt 0 0 []) s \<noteq> None"
    using SkipRest by (cases cs) (simp_all add: sched_move_def split: prod.splits bool.splits)
  then show ?thesis by blast
qed (use assms(2) in \<open>simp_all add: sched_final_def\<close>)

lemma sched_move_rank:
  assumes ok: "sched_ok env ext s" and mv: "sched_move env m s = Some t"
  shows "(sched_rank t, sched_rank s) \<in> less_than <*lex*> less_than"
  using mv
proof (cases rule: sched_move_elim)
  case (enter mode)
  have "length (tg_calls (next_group mode s)) \<le> length (sd_planned s) - sd_next s"
    using enter(2) by (auto simp: next_group_def new_group_def)
  then show ?thesis using enter
    by (simp add: sched_rank_def group_rank_def next_group_def new_group_def)
next
  case (inside g p w g' p')
  from ok inside(1) obtain rest where g: "group_ok (sn_max env) g p"
    "drop (sd_next s) (sd_planned s) = tg_calls g @ rest"
    by (auto simp: sched_ok_def group_recorded_def)
  have "length (tg_calls g) \<le> length (sd_planned s) - sd_next s"
    using arg_cong [OF g(2), of length] by simp
  from group_move_rank [OF g(1) this inside(2)] inside(1,3) show ?thesis
    by (auto simp: sched_rank_def)
next
  case (ends g p)
  from ok ends(1) obtain rest where g: "group_ok (sn_max env) g p"
    "drop (sd_next s) (sd_planned s) = tg_calls g @ rest"
    by (auto simp: sched_ok_def group_recorded_def)
  have n: "length (tg_calls g) \<le> length (sd_planned s) - sd_next s"
    using arg_cong [OF g(2), of length] by simp
  from ends(2) show ?thesis
  proof (cases rule: group_ends_elim)
    case finished
    have "0 < tg_started g" "tg_started g \<le> length (tg_calls g)"
      using g(1) finished by (auto simp: group_ok_def begun_def group_sizes_def)
    with finished ends(1) n show ?thesis
      by (simp add: sched_rank_def group_rank_def leave_group_def Let_def)
  next
    case skipped
    with ends(1) n show ?thesis by (simp add: sched_rank_def group_rank_def leave_group_def Let_def)
  qed (use ends(1) in \<open>simp_all add: sched_rank_def group_rank_def\<close>)
qed (simp_all add: sched_rank_def)

section \<open>The contract with the world\<close>

locale tool_world =
  fixes ops :: "('w, 'o) world_ops" and log_of :: "'w \<Rightarrow> session_event list"
  assumes append_some: "wo_append ops now d srcs op w = (w', Some s) \<Longrightarrow>
      s = length (log_of w) \<and> log_of w' = log_of w @ [candidate (log_of w) now d srcs op]"
    and append_none: "wo_append ops now d srcs op w = (w', None) \<Longrightarrow> log_of w' = log_of w"
    and accept_quiet: "wo_accept ops now msg w = (w', ok) \<Longrightarrow>
      \<exists>qs. log_of w' = log_of w @ qs \<and> (\<forall>e \<in> set qs. quiet e)"
    and other_quiet: "\<exists>qs. log_of (wo_other ops c w) = log_of w @ qs \<and> (\<forall>e \<in> set qs. quiet e)"
begin

lemma call_recorded:
  assumes "sn_ops env = ops" "appendToolCall env now c w = (w', Some s)"
  shows "\<exists>e. log_of w' = log_of w @ [e] \<and> ev_data e = call_data env c \<and> ev_seq e = s"
  using assms append_some by (fastforce simp: appendToolCall_def call_data_def candidate_def)

lemma result_recorded:
  assumes "sn_ops env = ops" "appendToolResult env now mid c res q w = (w', Some s)"
  shows "\<exists>e. log_of w' = log_of w @ [e] \<and> is_answer e \<and> \<not> is_start e \<and> answer_view e = call_answer env q c"
  using assms append_some
  by (fastforce simp: appendToolResult_def result_data_def candidate_def is_answer_def is_start_def
      answer_view_def call_answer_def result_call_def createToolResultMessage_def)

lemma not_recorded:
  assumes "sn_ops env = ops"
  shows "appendToolCall env now c w = (w', None) \<Longrightarrow> log_of w' = log_of w"
    "appendToolResult env now mid c res q w = (w', None) \<Longrightarrow> log_of w' = log_of w"
  using assms append_none by (auto simp: appendToolCall_def appendToolResult_def)

text \<open>A skipped call adds its call and its result; if an append throws, perhaps only the call.\<close>

lemma skip_recorded:
  assumes ops: "sn_ops env = ops" and log: "log_of w = log0 @ ext"
    and rec: "recorded env planned ext k k" "k < length planned" "planned ! k = c"
    and skip: "appendSkippedToolCall env now later mid c w = (w', ok)"
  shows "\<exists>ext'. log_of w' = log0 @ ext'
    \<and> (if ok then recorded env planned ext' (Suc k) (Suc k) else \<exists>k j. recorded env planned ext' k j)"
proof -
  obtain v r where c: "appendToolCall env now c w = (v, r)" by fastforce
  show ?thesis
  proof (cases r)
    case None
    then show ?thesis using skip c log rec not_recorded(1) [OF ops] by (auto simp: appendSkippedToolCall_def)
  next
    case (Some q)
    obtain u r2 where a: "appendToolResult env later mid c skipped_result q v = (u, r2)" by fastforce
    from call_recorded [OF ops] c Some obtain e where e: "log_of v = log_of w @ [e]"
      "ev_data e = call_data env c" "ev_seq e = q" by blast
    from recorded_call [OF rec(1,2)] e rec(3) have one: "recorded env planned (ext @ [e]) (Suc k) k" by simp
    show ?thesis
    proof (cases r2)
      case None
      then have "log_of w' = log0 @ ext @ [e]" "\<not> ok"
        using skip c a Some e log not_recorded(2) [OF ops] by (auto simp: appendSkippedToolCall_def)
      with one show ?thesis by auto
    next
      case (Some s2)
      from result_recorded [OF ops] a Some obtain f where f: "log_of u = log_of v @ [f]" "is_answer f"
        "\<not> is_start f" "answer_view f = call_answer env q c" by blast
      have "fst (tool_starts (ext @ [e]) ! k) = q"
        using recorded_length [OF rec(1)] e by (simp add: call_event nth_append)
      with recorded_result [OF one] f rec(3) have "recorded env planned ((ext @ [e]) @ [f]) (Suc k) (Suc k)" by simp
      moreover have "log_of w' = log0 @ (ext @ [e]) @ [f]" "ok"
        using skip c a \<open>r = Some q\<close> Some e f log by (auto simp: appendSkippedToolCall_def)
      ultimately show ?thesis by auto
    qed
  qed
qed

lemma start_recorded:
  assumes ops: "sn_ops env = ops" and log: "log_of w = log0 @ ext" and ok: "group_ok k g StartCall"
    and rec: "group_recorded env planned nxt ext g StartCall"
    and st: "start_call env now w g = (w', g', p')"
  shows "\<exists>ext'. log_of w' = log0 @ ext' \<and> group_recorded env planned nxt ext' g' p'"
proof -
  obtain v r where c: "appendToolCall env now (tg_calls g ! tg_nextToStart g) w = (v, r)" by fastforce
  show ?thesis
  proof (cases r)
    case None
    then show ?thesis using st c log not_recorded(1) [OF ops] failed_recorded [OF rec]
      by (auto simp: start_call_def)
  next
    case (Some q)
    let ?n = "tg_started g"
    have n: "tg_nextToStart g = ?n" "?n < length (tg_calls g)" "length (tg_callSeqs g) = length (tg_calls g)"
      using ok by (auto simp: group_ok_def group_sizes_def)
    from rec obtain rest j where d: "drop nxt planned = tg_calls g @ rest"
      and j: "j = tg_committed g" "recorded env planned ext (nxt + ?n) (nxt + j)"
      and seqs: "\<forall>i < ?n. tg_callSeqs g ! i = Some (fst (tool_starts ext ! (nxt + i)))"
      and f: "tg_failure g \<noteq> Some UncommittedCalls"
      by (auto simp: group_recorded_def)
    have at: "nxt + ?n < length planned" "planned ! (nxt + ?n) = tg_calls g ! ?n"
      using group_call_at [OF d n(2)] by blast+
    from call_recorded [OF ops] c Some obtain e where e: "log_of v = log_of w @ [e]"
      "ev_data e = call_data env (tg_calls g ! ?n)" "ev_seq e = q" unfolding n by blast
    have g': "w' = v" "p' = Preparing"
      "g' = g\<lparr>tg_callSeqs := (tg_callSeqs g)[?n := Some q], tg_started := ?n + 1\<rparr>"
      using st c Some n(1) by (auto simp: start_call_def)
    have "recorded env planned (ext @ [e]) (nxt + tg_started g') (nxt + j)"
      using recorded_call [OF j(2) at(1)] e at(2) g' by simp
    moreover have "\<forall>i < tg_started g'. tg_callSeqs g' ! i = Some (fst (tool_starts (ext @ [e]) ! (nxt + i)))"
      using seqs n g' e recorded_length [OF j(2)]
      by (auto simp: less_Suc_eq nth_append call_event)
    ultimately have "group_recorded env planned nxt (ext @ [e]) g' p'"
      using d f j(1) g' by (auto simp: group_recorded_def)
    then show ?thesis using g' e log by auto
  qed
qed

lemma commit_recorded:
  assumes ops: "sn_ops env = ops" and log: "log_of w = log0 @ ext" and ok: "group_ok k g Finishing"
    and rec: "group_recorded env planned nxt ext g Finishing"
    and st: "commit_result env now mid res w g = (w', g', p')"
  shows "\<exists>ext'. log_of w' = log0 @ ext' \<and> group_recorded env planned nxt ext' g' p'"
proof -
  let ?n = "tg_committed g"
  have c: "?n < tg_started g" "?n < length (tg_calls g)" "tg_failure g \<noteq> Some UncommittedCalls"
    using ok ready_slot_started [of k g] rec by (auto simp: group_ok_def group_recorded_def)
  from rec obtain rest where d: "drop nxt planned = tg_calls g @ rest"
    and r: "recorded env planned ext (nxt + tg_started g) (nxt + ?n)"
    and seqs: "\<forall>i < tg_started g. tg_callSeqs g ! i = Some (fst (tool_starts ext ! (nxt + i)))"
    by (auto simp: group_recorded_def)
  let ?q = "fst (tool_starts ext ! (nxt + ?n))"
  obtain v s where a: "appendToolResult env now mid (tg_calls g ! ?n) res ?q w = (v, s)" by fastforce
  show ?thesis
  proof (cases s)
    case None
    then show ?thesis using st a c seqs log not_recorded(2) [OF ops] failed_recorded [OF rec]
      by (auto simp: commit_result_def)
  next
    case (Some s2)
    from result_recorded [OF ops] a Some obtain e where e: "log_of v = log_of w @ [e]" "is_answer e"
      "\<not> is_start e" "answer_view e = call_answer env ?q (tg_calls g ! ?n)" by blast
    have at: "planned ! (nxt + ?n) = tg_calls g ! ?n"
      using group_call_at [OF d c(2)] by blast
    have "recorded env planned (ext @ [e]) (nxt + tg_started g) (Suc (nxt + ?n))"
      using recorded_result [OF r] e c(1) at by simp
    moreover have "tool_starts [e] = []" using e(3) by (simp add: tool_starts_def)
    moreover have "w' = v" "g' = g" "p' = Accepting (xr_contexts res) (xr_concludes res)"
      using st a Some seqs c(1) by (auto simp: commit_result_def)
    ultimately have "log_of w' = log0 @ ext @ [e] \<and> group_recorded env planned nxt (ext @ [e]) g' p'"
      using d seqs c(3) e(1) log by (auto simp: group_recorded_def)
    then show ?thesis by blast
  qed
qed

lemma accept_recorded:
  assumes ops: "sn_ops env = ops" and log: "log_of w = log0 @ ext"
    and rec: "group_recorded env planned nxt ext g (Accepting (c # cs) b)"
    and st: "accept_context env now c cs b w g = (w', g', p')"
  shows "\<exists>ext'. log_of w' = log0 @ ext' \<and> group_recorded env planned nxt ext' g' p'"
proof -
  obtain v ok where a: "wo_accept ops now c w = (v, ok)" by fastforce
  from accept_quiet [OF a] obtain qs where qs: "log_of v = log_of w @ qs" "\<forall>e \<in> set qs. quiet e" by blast
  have rec': "group_recorded env planned nxt (ext @ qs) g (Accepting (c # cs) b)"
    using rec recorded_quiet [OF _ qs(2)] quiet_list [OF qs(2)] by (fastforce simp: group_recorded_def)
  have "group_recorded env planned nxt (ext @ qs) g (Accepting cs b)"
    using rec' by (rule recorded_move) (use rec' in \<open>auto simp: group_recorded_def\<close>)
  with failed_recorded [OF rec'] st a qs ops log show ?thesis
    by (cases ok) (auto simp: accept_context_def)
qed

lemma group_move_recorded:
  assumes ops: "sn_ops env = ops" and log: "log_of w = log0 @ ext" and ok: "group_ok (sn_max env) g p"
    and rec: "group_recorded env planned nxt ext g p"
    and mv: "group_move env signal m w g p = Some (w', g', p')"
  shows "\<exists>ext'. log_of w' = log0 @ ext' \<and> group_recorded env planned nxt ext' g' p'"
proof -
  have stay: "\<exists>ext'. log_of w' = log0 @ ext' \<and> group_recorded env planned nxt ext' g' p'"
    if "w' = w" "group_recorded env planned nxt ext g' p'"
    using that log by blast
  have f: "tg_failure g \<noteq> Some UncommittedCalls" using rec by (simp add: group_recorded_def)
  note move = recorded_move [OF rec] and failed = failed_recorded [OF rec]
  from mv show ?thesis
  proof (cases rule: group_move_elim)
    case (settled i s)
    then show ?thesis using stay settled_recorded [OF rec] by simp
  next
    case fill
    with f show ?thesis by (intro stay) (auto intro!: move simp: fill_test_def)
  next
    case (reclassify mode)
    with f show ?thesis by (intro stay) (auto intro!: move )
  next
    case (start now)
    then show ?thesis using start_recorded [OF ops log] ok rec by blast
  next
    case (prepared s)
    with f show ?thesis by (intro stay) (auto intro!: move simp: prepared_call_def split: if_splits option.splits)
  next
    case prepare_throws
    then show ?thesis using stay failed by simp
  next
    case started
    with f show ?thesis by (intro stay) (auto intro!: move simp: after_start_def Let_def split: if_splits)
  next
    case commit
    with f show ?thesis by (intro stay) (auto intro!: move simp: commit_test_def split: option.splits)
  next
    case (finished now mid res)
    then show ?thesis using commit_recorded [OF ops log] ok rec by blast
  next
    case finish_throws
    then show ?thesis using stay failed by simp
  next
    case (accept c cs b now)
    then show ?thesis using accept_recorded [OF ops log] rec by blast
  next
    case (accepted b)
    with f show ?thesis by (intro stay) (auto intro!: move simp: commit_next_def)
  next
    case committed
    with f show ?thesis by (intro stay) (auto intro!: move simp: after_commit_def split: if_splits)
  next
    case race
    with f show ?thesis by (intro stay) (auto intro!: move )
  next
    case skip
    have "tg_started g \<le> length (tg_calls g)" using ok by (simp add: group_ok_def group_sizes_def)
    then show ?thesis using skip pool_empty [of "sn_max env" g] ok
      by (intro stay) (auto intro!: move simp: f)
  next
    case (raced i)
    with f show ?thesis by (intro stay) (auto intro!: move simp: race_settled_def Let_def split: if_splits)
  qed
qed

lemma move_recorded:
  assumes ops: "sn_ops env = ops" and k: "0 < sn_max env" and log: "log_of (sd_world s) = log0 @ ext"
    and ok: "sched_ok env ext s" and mv: "sched_move env m s = Some t"
  shows "sd_planned t = sd_planned s \<and> (\<exists>ext'. log_of (sd_world t) = log0 @ ext' \<and> sched_ok env ext' t)"
  using mv
proof (cases rule: sched_move_elim)
  case (enter mode)
  let ?calls = "if mode = Parallel then drop (sd_next s) (sd_planned s) else [sd_planned s ! sd_next s]"
  have calls: "?calls \<noteq> []" "mode = Exclusive \<Longrightarrow> length ?calls = 1" using enter(2) by auto
  have "\<exists>rest. drop (sd_next s) (sd_planned s) = ?calls @ rest"
    using enter(2) by (auto simp: Cons_nth_drop_Suc [symmetric])
  moreover have "group_ok (sn_max env) (next_group mode s) FillTest"
    unfolding next_group_def using calls by (rule new_group_ok)
  moreover have "recorded env (sd_planned s) ext (sd_next s) (sd_next s)" using ok enter(1) by (simp add: sched_ok_def)
  ultimately have "sched_ok env ext t"
    using enter by (simp add: sched_ok_def group_recorded_def next_group_def new_group_def)
  then show ?thesis using enter log by auto
next
  case returned
  then show ?thesis using ok log by (auto simp: sched_ok_def)
next
  case (inside g p w g' p')
  have g: "group_ok (sn_max env) g p" "group_recorded env (sd_planned s) (sd_next s) ext g p"
    "sd_next s \<le> length (sd_planned s)"
    using ok inside(1) by (auto simp: sched_ok_def)
  from group_move_recorded [OF ops log g(1,2) inside(2)] group_move_ok [OF g(1) k inside(2)] inside(3) g(3)
  show ?thesis by (auto simp: sched_ok_def)
next
  case (ends g p)
  have g: "group_ok (sn_max env) g p" "group_recorded env (sd_planned s) (sd_next s) ext g p"
    "sd_next s \<le> length (sd_planned s)"
    using ok ends(1) by (auto simp: sched_ok_def)
  then obtain rest j where d: "drop (sd_next s) (sd_planned s) = tg_calls g @ rest"
    and j: "answers_at g p j" "recorded env (sd_planned s) ext (sd_next s + starts_at g p) (sd_next s + j)"
    and f: "tg_failure g \<noteq> Some UncommittedCalls"
    by (auto simp: group_recorded_def)
  have n: "sd_next s + length (tg_calls g) \<le> length (sd_planned s)"
    using arg_cong [OF d, of length] g(3) by simp
  from ends(2) show ?thesis
  proof (cases rule: group_ends_elim)
    case unfinished
    then show ?thesis using pool_empty g(1) by blast
  next
    case finished
    then show ?thesis using j n g(1) log
      by (auto simp: sched_ok_def leave_group_def Let_def group_ok_def group_sizes_def)
  next
    case drained
    then have "tg_failure g \<noteq> None" using g(1) by (simp add: group_ok_def)
    with drained f g(3) j(2) log show ?thesis by (auto simp: sched_ok_def)
  next
    case skipped
    then show ?thesis using j n log by (auto simp: sched_ok_def leave_group_def Let_def)
  next
    case (skip_threw c cs now later mid w)
    then have sk: "length (c # cs) \<le> length (tg_calls g)"
      "c # cs = drop (length (tg_calls g) - length (c # cs)) (tg_calls g)"
      using g(1) by (auto simp: group_ok_def)
    note head = suffix_head [OF sk(2,1)]
    let ?i = "length (tg_calls g) - length (c # cs)"
    have r: "recorded env (sd_planned s) ext (sd_next s + ?i) (sd_next s + ?i)" using j skip_threw(1) by simp
    have at: "sd_next s + ?i < length (sd_planned s)" "sd_planned s ! (sd_next s + ?i) = c"
      using group_call_at [OF d head(1)] head(2) by simp_all
    from skip_recorded [OF ops log r at skip_threw(2)] skip_threw(3) g(3) show ?thesis
      by (auto simp: sched_ok_def)
  next
    case (skip c cs now later mid w)
    then have sk: "length (c # cs) \<le> length (tg_calls g)"
      "c # cs = drop (length (tg_calls g) - length (c # cs)) (tg_calls g)"
      using g(1) by (auto simp: group_ok_def)
    note head = suffix_head [OF sk(2,1)]
    let ?i = "length (tg_calls g) - length (c # cs)"
    have r: "recorded env (sd_planned s) ext (sd_next s + ?i) (sd_next s + ?i)" using j skip(1) by simp
    have at: "sd_next s + ?i < length (sd_planned s)" "sd_planned s ! (sd_next s + ?i) = c"
      using group_call_at [OF d head(1)] head(2) by simp_all
    from skip_recorded [OF ops log r at skip(2)] obtain ext' where e: "log_of w = log0 @ ext'"
      "recorded env (sd_planned s) ext' (Suc (sd_next s + ?i)) (Suc (sd_next s + ?i))" by auto
    have "group_ok (sn_max env) g (Skipping cs)"
      using g(1) skip(1) head(3,4) by (auto simp: group_ok_def group_flight_def)
    moreover have "group_recorded env (sd_planned s) (sd_next s) ext' g (Skipping cs)"
      using d f e(2) head(4) by (auto simp: group_recorded_def)
    ultimately show ?thesis using skip(3) g(3) e(1) by (auto simp: sched_ok_def)
  qed
next
  case rest_done
  then show ?thesis using ok log by (auto simp: sched_ok_def)
next
  case (rest_threw c cs now later mid w)
  then have sk: "length (c # cs) \<le> length (sd_planned s)"
    "c # cs = drop (length (sd_planned s) - length (c # cs)) (sd_planned s)"
    "recorded env (sd_planned s) ext (length (sd_planned s) - length (c # cs)) (length (sd_planned s) - length (c # cs))"
    "sd_next s \<le> length (sd_planned s)"
    using ok by (auto simp: sched_ok_def)
  note head = suffix_head [OF sk(2,1)]
  from skip_recorded [OF ops log sk(3) head(1,2) rest_threw(2)] rest_threw(3) sk(4) show ?thesis
    by (auto simp: sched_ok_def)
next
  case (rest c cs now later mid w)
  then have sk: "length (c # cs) \<le> length (sd_planned s)"
    "c # cs = drop (length (sd_planned s) - length (c # cs)) (sd_planned s)"
    "recorded env (sd_planned s) ext (length (sd_planned s) - length (c # cs)) (length (sd_planned s) - length (c # cs))"
    "sd_next s \<le> length (sd_planned s)"
    using ok by (auto simp: sched_ok_def)
  note head = suffix_head [OF sk(2,1)]
  from skip_recorded [OF ops log sk(3) head(1,2) rest(2)] rest(3) sk(1,4) head(3,4) show ?thesis
    by (auto simp: sched_ok_def)
qed

lemma append_grows: "length (log_of w) \<le> length (log_of (fst (wo_append ops now d srcs op w)))"
proof -
  obtain w' r where a: "wo_append ops now d srcs op w = (w', r)" by fastforce
  then show ?thesis using append_some [of now d srcs op w w'] append_none [of now d srcs op w w']
    by (cases r) auto
qed

lemma skip_grows:
  assumes "sn_ops env = ops" "appendSkippedToolCall env now later mid c w = (w', ok)"
  shows "length (log_of w) \<le> length (log_of w')"
proof -
  obtain v r where c: "appendToolCall env now c w = (v, r)" by fastforce
  have v: "length (log_of w) \<le> length (log_of v)"
    using append_grows c assms(1) unfolding appendToolCall_def by (metis fst_conv)
  show ?thesis
  proof (cases r)
    case None
    then show ?thesis using assms(2) c v by (simp add: appendSkippedToolCall_def)
  next
    case (Some q)
    obtain u r2 where a: "appendToolResult env later mid c skipped_result q v = (u, r2)" by fastforce
    then have "length (log_of v) \<le> length (log_of u)"
      using append_grows assms(1) unfolding appendToolResult_def by (metis fst_conv)
    then show ?thesis using assms(2) c v a Some by (auto simp: appendSkippedToolCall_def split: option.splits)
  qed
qed

lemma group_grows:
  assumes ops: "sn_ops env = ops" and mv: "group_move env signal m w g p = Some (w', g', p')"
  shows "length (log_of w) \<le> length (log_of w')"
  using mv
proof (cases rule: group_move_elim)
  case (start now)
  have "w' = fst (appendToolCall env now (tg_calls g ! tg_nextToStart g) w)"
    using start(2) by (auto simp: start_call_def split: prod.splits option.splits)
  then show ?thesis using append_grows ops by (simp add: appendToolCall_def)
next
  case (finished now mid res)
  show ?thesis
  proof (cases "tg_callSeqs g ! tg_committed g")
    case None
    with finished(2) show ?thesis by (simp add: commit_result_def)
  next
    case (Some q)
    with finished(2) have "w' = fst (appendToolResult env now mid (tg_calls g ! tg_committed g) res q w)"
      by (auto simp: commit_result_def split: prod.splits option.splits)
    then show ?thesis using append_grows ops by (simp add: appendToolResult_def)
  qed
next
  case (accept c cs b now)
  have "w' = fst (wo_accept ops now c w)"
    using accept(2) ops by (auto simp: accept_context_def split: prod.splits bool.splits)
  then show ?thesis using accept_quiet [of now c w w'] by (cases "wo_accept ops now c w") fastforce
qed simp_all

lemma move_grows:
  assumes ops: "sn_ops env = ops" and mv: "sched_move env m s = Some t"
  shows "length (log_of (sd_world s)) \<le> length (log_of (sd_world t))"
  using mv
proof (cases rule: sched_move_elim)
  case (inside g p w g' p')
  then show ?thesis using group_grows [OF ops inside(2)] by simp
next
  case (ends g p)
  from ends(2) show ?thesis
    by (cases rule: group_ends_elim) (simp_all add: leave_group_def Let_def skip_grows [OF ops])
qed (simp_all add: skip_grows [OF ops])

text \<open>What holds of every state a run reaches, whatever happens in between.\<close>

lemma step_recorded:
  assumes ops: "sn_ops env = ops" and k: "0 < sn_max env" and log: "log_of (sd_world s) = log0 @ ext"
    and ok: "sched_ok env ext s" and st: "sched_step env s own t"
  shows "sd_planned t = sd_planned s \<and> (\<exists>ext'. log_of (sd_world t) = log0 @ ext' \<and> sched_ok env ext' t)"
  using st
proof cases
  case (own m)
  then show ?thesis using move_recorded [OF ops k log ok] by blast
next
  case cancelled
  then show ?thesis using log ok by auto
next
  case (elsewhere c)
  from other_quiet [of c "sd_world s"] obtain qs where
    "log_of (wo_other ops c (sd_world s)) = log_of (sd_world s) @ qs" "\<forall>e \<in> set qs. quiet e" by blast
  with elsewhere log ops sched_ok_quiet [OF ok] show ?thesis by auto
qed

lemma reach_recorded:
  assumes ops: "sn_ops env = ops" and k: "0 < sn_max env"
    and reach: "sched_reach env (executeToolCalls w signal planned) s"
  shows "sd_planned s = planned \<and> (\<exists>ext. log_of (sd_world s) = log_of w @ ext \<and> sched_ok env ext s)"
  using reach
proof induction
  case start
  have "sched_ok env [] (executeToolCalls w signal planned)"
    by (simp add: sched_ok_def executeToolCalls_def recorded_def tool_starts_def tool_answers_def)
  then show ?case by (auto simp: executeToolCalls_def)
next
  case (step t own u)
  then show ?case using step_recorded [OF ops k] by blast
qed

lemma step_rank:
  assumes "sn_ops env = ops" "0 < sn_max env"
    "sched_reach env (executeToolCalls w signal planned) s" "sched_step env s own t"
  shows "own \<Longrightarrow> (sched_rank t, sched_rank s) \<in> less_than <*lex*> less_than"
    "\<not> own \<Longrightarrow> sched_rank t = sched_rank s"
proof -
  from reach_recorded [OF assms(1-3)] obtain ext where ok: "sched_ok env ext s" by blast
  show "(sched_rank t, sched_rank s) \<in> less_than <*lex*> less_than" if own
    using assms(4) that by cases (auto intro: sched_move_rank [OF ok])
  show "sched_rank t = sched_rank s" if "\<not> own"
    using assms(4) that by cases (auto simp: sched_rank_def cong: sched_point.case_cong)
qed

end

section \<open>The session's validators\<close>

definition accepted :: "session_event list \<Rightarrow> bool" where
  "accepted log \<longleftrightarrow> returns (seedSession log) \<and> returns (foldSurface log)"

definition open_at :: "session_event list \<Rightarrow> int \<Rightarrow> int \<Rightarrow> bool" where
  "open_at log turn step \<longleftrightarrow>
     (\<exists>tr. seedSession log = Inr tr \<and> tc_openTurn tr = Some turn \<and> tc_openStep tr = Some step)"

lemma accepted_bound:
  assumes "accepted log" "e \<in> set log"
  shows "ev_seq e < length log"
proof -
  from assms(1) obtain nodes reps where "foldSurface log = Inr (nodes, reps)"
    by (auto simp: accepted_def returns_iff)
  then have "contiguous log" by (elim foldSurface_inv) (simp add: surface_inv_def)
  with assms(2) show ?thesis by (auto simp: in_set_conv_nth contiguous_def)
qed

lemma accepted_snoc:
  assumes "accepted log" "seedSession log = Inr tr" "returns (trace_step tr e)"
    and "\<And>st. returns (planSurfaceEvent st e (length log) log 0)"
  shows "accepted (log @ [e])"
proof -
  from assms(1) obtain nodes reps where "foldSurface log = Inr (nodes, reps)"
    by (auto simp: accepted_def returns_iff)
  then obtain st where "hrun fold_step [] surface_start log = Inr (st, reps, length log)"
    by (rule foldSurface_inv)
  moreover obtain plan where "planSurfaceEvent st e (length log) log 0 = Inr plan"
    using assms(4) [of st] by (auto simp: returns_iff)
  ultimately have "returns (foldSurface (log @ [e]))"
    by (simp add: foldSurface_hrun hrun_snoc fold_step_eq)
  moreover have "returns (seedSession (log @ [e]))"
    using assms(2,3) by (simp add: seedSession_def run_snoc)
  ultimately show ?thesis by (simp add: accepted_def)
qed

lemma trace_seq_bound:
  assumes "accepted log" "seedSession log = Inr tr"
  shows "tc_lastSeq tr < int (length log)"
proof (cases log rule: rev_cases)
  case Nil
  then show ?thesis using assms(2) by (auto simp: seedSession_def freshTrace_def)
next
  case (snoc xs x)
  then obtain u where "trace_step u x = Inr tr"
    using assms(2) by (auto simp: seedSession_def run_snoc rbind_Inr_iff)
  then have "tc_lastSeq tr = int (ev_seq x)" by (rule trace_step_seq(2))
  then show ?thesis using accepted_bound [OF assms(1), of x] snoc by simp
qed

lemma call_accepted:
  assumes "accepted log" "open_at log (sn_turn env) (sn_step env)"
  shows "accepted (log @ [candidate log now (call_data env c) None None])"
proof -
  from assms(2) obtain tr where tr: "seedSession log = Inr tr" "tc_openTurn tr = Some (sn_turn env)"
    "tc_openStep tr = Some (sn_step env)" by (auto simp: open_at_def)
  show ?thesis
  proof (rule accepted_snoc [OF assms(1) tr(1)])
    show "returns (trace_step tr (candidate log now (call_data env c) None None))"
      using tr trace_seq_bound [OF assms(1) tr(1)]
      by (simp add: trace_step_def validateEvent_def candidate_def call_data_def requireOpenStep_def)
    show "returns (planSurfaceEvent st (candidate log now (call_data env c) None None) (length log) log 0)" for st
      by (simp add: planSurfaceEvent_def surfaceOpOf_def candidate_def call_data_def)
  qed
qed

lemma result_accepted:
  assumes "accepted log" "seedSession log = Inr tr" "tc_openTurn tr = Some (sn_turn env)"
    "tc_openStep tr = Some (sn_step env)" "pl_id c \<in> set (tc_pendingCalls tr)"
    "q < length log" "int (length log) \<le> MAX_SAFE_INTEGER"
  shows "accepted (log @ [candidate log now (result_data env mid c res) (Some (JArr [num q])) (Some append_op)])"
proof (rule accepted_snoc [OF assms(1,2)])
  let ?e = "candidate log now (result_data env mid c res) (Some (JArr [num q])) (Some append_op)"
  show "returns (trace_step tr ?e)"
    using assms trace_seq_bound [OF assms(1,2)]
    by (simp add: trace_step_def validateEvent_def candidate_def result_data_def validateResult_def
        requireOpenStep_def createToolResultMessage_def result_call_def Let_def)
  show "returns (planSurfaceEvent st ?e (length log) log 0)" for st
    using assms(6,7)
    by (simp add: planSurfaceEvent_def surfaceOpOf_def candidate_def result_data_def assertProvenance_def
        citesShadowed_def Let_def)
qed

text \<open>A call that was recorded and not yet answered is pending, and the step stays open.\<close>

definition started_id :: "session_event \<Rightarrow> string option" where
  "started_id e = (case ev_data e of ToolCall _ _ c _ _ \<Rightarrow> Some c | _ \<Rightarrow> None)"

lemma pending_calls:
  assumes "seedSession log0 = Inr tr0" "seedSession (log0 @ ext) = Inr tr"
    "\<forall>e \<in> set ext. quiet e \<or> is_start e \<or> is_answer e"
  shows "tc_openTurn tr = tc_openTurn tr0 \<and> tc_openStep tr = tc_openStep tr0
    \<and> (\<forall>c. Some c \<in> started_id ` set ext \<longrightarrow> Some c \<notin> (snd \<circ> snd \<circ> snd) ` set (tool_answers ext)
         \<longrightarrow> c \<in> set (tc_pendingCalls tr))"
  using assms(2,3)
proof (induction ext arbitrary: tr rule: rev_induct)
  case Nil
  then show ?case using assms(1) by simp
next
  case (snoc e ext)
  from snoc.prems(1) obtain u where u: "seedSession (log0 @ ext) = Inr u" "trace_step u e = Inr tr"
    by (auto simp: seedSession_def run_snoc rbind_Inr_iff simp flip: append_assoc)
  note ih = snoc.IH [OF u(1)]
  have k: "quiet e \<or> is_start e \<or> is_answer e" and all: "\<forall>e \<in> set ext. quiet e \<or> is_start e \<or> is_answer e"
    using snoc.prems(2) by auto
  from u(2) show ?case
  proof (cases rule: trace_step_elim)
    case (tool_call turn step c n a)
    then show ?thesis using ih [OF all]
      by (auto simp: tool_answers_def is_answer_def started_id_def)
  next
    case (rewrite r)
    then show ?thesis using ih [OF all]
      by (auto simp: tool_answers_def is_answer_def started_id_def)
  next
    case (tool_result r b bs)
    then show ?thesis using ih [OF all]
      by (cases "result_call (tr_message r)")
        (auto simp: tool_answers_def is_answer_def started_id_def answer_view_def)
  next
    case plain
    then have "started_id e = None" "\<not> is_answer e"
      by (cases "ev_data e"; simp add: started_id_def is_answer_def)+
    then show ?thesis using ih [OF all] plain(2) by (auto simp: tool_answers_def)
  qed (use k in \<open>auto simp: quiet_def is_start_def is_answer_def\<close>)
qed

lemma answer_due:
  assumes rec: "recorded env planned ext k j" and j: "j < k" and dist: "distinct (map pl_id planned)"
    and opened: "open_at log0 (sn_turn env) (sn_step env)" and tr: "seedSession (log0 @ ext) = Inr tr"
  shows "tc_openTurn tr = Some (sn_turn env)" "tc_openStep tr = Some (sn_step env)"
    "pl_id (planned ! j) \<in> set (tc_pendingCalls tr)" "fst (tool_starts ext ! j) \<in> ev_seq ` set ext"
proof -
  from opened obtain tr0 where tr0: "seedSession log0 = Inr tr0" "tc_openTurn tr0 = Some (sn_turn env)"
    "tc_openStep tr0 = Some (sn_step env)" by (auto simp: open_at_def)
  have calm: "\<forall>e \<in> set ext. quiet e \<or> is_start e \<or> is_answer e" using rec by (simp add: recorded_def)
  note pend = pending_calls [OF tr0(1) tr calm]
  show "tc_openTurn tr = Some (sn_turn env)" "tc_openStep tr = Some (sn_step env)" using pend tr0 by auto
  have n: "j < length planned" "j < length (tool_starts ext)"
    using rec j recorded_length [OF rec] by (auto simp: recorded_def)
  from n(2) obtain e where e: "e \<in> set ext" "is_start e" "tool_starts ext ! j = (ev_seq e, ev_data e)"
    using nth_mem [OF n(2)] by (auto simp: tool_starts_def)
  then show "fst (tool_starts ext ! j) \<in> ev_seq ` set ext" by auto
  have "map snd (tool_starts ext) ! j = map (call_data env) (take k planned) ! j"
    using rec by (simp add: recorded_def)
  then have "ev_data e = call_data env (planned ! j)" using e(3) n j by simp
  then have "Some (pl_id (planned ! j)) \<in> started_id ` set ext"
    using e(1) by (force simp: started_id_def call_data_def)
  moreover have "map (snd \<circ> snd \<circ> snd) (tool_answers ext) = map (Some \<circ> pl_id) (take j planned)"
    using rec n by (intro nth_equalityI) (auto simp: recorded_def call_answer_def)
  then have "(snd \<circ> snd \<circ> snd) ` set (tool_answers ext) = (Some \<circ> pl_id) ` set (take j planned)"
    by (metis list.set_map)
  then have "Some (pl_id (planned ! j)) \<notin> (snd \<circ> snd \<circ> snd) ` set (tool_answers ext)"
    using dist n(1) by (auto simp: in_set_conv_nth distinct_conv_nth)
  ultimately show "pl_id (planned ! j) \<in> set (tc_pendingCalls tr)" using pend by blast
qed

definition refused_append :: "'w sched \<Rightarrow> bool" where
  "refused_append s \<longleftrightarrow>
     (case sd_point s of
        InGroup g p \<Rightarrow> tg_failure g = Some AppendThrew
      | ThrewCalls err \<Rightarrow> err = AppendThrew
      | _ \<Rightarrow> False)"

text \<open>A world whose \<open>append\<close> refuses only what the validators refuse, and that keeps its log accepted.\<close>

locale guarded_world = tool_world +
  assumes admitted: "accepted (log_of w @ [candidate (log_of w) now d srcs op]) \<Longrightarrow>
      snd (wo_append ops now d srcs op w) \<noteq> None"
    and accept_keeps: "accepted (log_of w) \<Longrightarrow> accepted (log_of (fst (wo_accept ops now msg w)))"
    and other_keeps: "accepted (log_of w) \<Longrightarrow> accepted (log_of (wo_other ops c w))"
begin

lemma append_admitted:
  assumes "accepted (log_of w @ [candidate (log_of w) now d srcs op])"
  obtains w' where "wo_append ops now d srcs op w = (w', Some (length (log_of w)))"
    "log_of w' = log_of w @ [candidate (log_of w) now d srcs op]"
proof -
  obtain w' r where a: "wo_append ops now d srcs op w = (w', r)" by fastforce
  with admitted [OF assms] obtain s where "r = Some s" by auto
  with a append_some [of now d srcs op w w' s] that show thesis by simp
qed

lemma call_goes:
  assumes ops: "sn_ops env = ops" and acc: "accepted (log_of w)"
    and opened: "open_at (log_of w) (sn_turn env) (sn_step env)"
  obtains w' where "appendToolCall env now c w = (w', Some (length (log_of w)))"
    "log_of w' = log_of w @ [candidate (log_of w) now (call_data env c) None None]"
    "accepted (log_of w')"
proof -
  from call_accepted [OF acc opened] have a: "accepted (log_of w @ [candidate (log_of w) now (call_data env c) None None])" .
  from append_admitted [OF this] a that ops show thesis
    by (metis appendToolCall_def call_data_def)
qed

lemma result_goes:
  assumes ops: "sn_ops env = ops" and log: "log_of w = log0 @ ext" and acc: "accepted (log_of w)"
    and rec: "recorded env planned ext k j" "j < k" "distinct (map pl_id planned)"
    and opened: "open_at log0 (sn_turn env) (sn_step env)"
    and small: "int (length (log_of w)) \<le> MAX_SAFE_INTEGER"
  obtains w' where "appendToolResult env now mid (planned ! j) res (fst (tool_starts ext ! j)) w
      = (w', Some (length (log_of w)))" "accepted (log_of w')"
proof -
  from acc log obtain tr where tr: "seedSession (log0 @ ext) = Inr tr" by (auto simp: accepted_def returns_iff)
  note due = answer_due [OF rec opened tr]
  have "fst (tool_starts ext ! j) < length (log0 @ ext)"
    using due(4) acc log accepted_bound [of "log0 @ ext"] by auto
  from result_accepted [OF _ tr due(1,2,3) this, of now mid res] acc small log
  have a: "accepted (log_of w @ [candidate (log_of w) now (result_data env mid (planned ! j) res)
      (Some (JArr [num (fst (tool_starts ext ! j))])) (Some append_op)])" by simp
  from append_admitted [OF this] a that ops show thesis
    by (metis appendToolResult_def)
qed

lemma open_still:
  assumes "open_at log0 (sn_turn env) (sn_step env)" "recorded env planned ext k j" "accepted (log0 @ ext)"
  shows "open_at (log0 @ ext) (sn_turn env) (sn_step env)"
proof -
  from assms(1,3) obtain tr0 tr where tr: "seedSession log0 = Inr tr0" "seedSession (log0 @ ext) = Inr tr"
    "tc_openTurn tr0 = Some (sn_turn env)" "tc_openStep tr0 = Some (sn_step env)"
    by (auto simp: open_at_def accepted_def returns_iff)
  have "\<forall>e \<in> set ext. quiet e \<or> is_start e \<or> is_answer e" using assms(2) by (simp add: recorded_def)
  from pending_calls [OF tr(1,2) this] tr show ?thesis by (auto simp: open_at_def)
qed

lemma skip_goes:
  assumes ops: "sn_ops env = ops" and log: "log_of w = log0 @ ext" and acc: "accepted (log_of w)"
    and rec: "recorded env planned ext k k" "k < length planned" "planned ! k = c"
    and dist: "distinct (map pl_id planned)" and opened: "open_at log0 (sn_turn env) (sn_step env)"
    and small: "int (length (log_of w')) \<le> MAX_SAFE_INTEGER"
    and skip: "appendSkippedToolCall env now later mid c w = (w', ok)"
  shows "ok \<and> accepted (log_of w')"
proof -
  have "open_at (log_of w) (sn_turn env) (sn_step env)" using open_still [OF opened rec(1)] acc log by simp
  from call_goes [OF ops acc this] obtain v where v: "appendToolCall env now c w = (v, Some (length (log_of w)))"
    "log_of v = log_of w @ [candidate (log_of w) now (call_data env c) None None]" "accepted (log_of v)" by blast
  let ?e = "candidate (log_of w) now (call_data env c) None None"
  have e: "ev_data ?e = call_data env c" "ev_seq ?e = length (log_of w)" by (simp_all add: candidate_def)
  have one: "recorded env planned (ext @ [?e]) (Suc k) k" using recorded_call [OF rec(1,2)] rec(3) e by simp
  have "fst (tool_starts (ext @ [?e]) ! k) = length (log_of w)"
    using recorded_length [OF rec(1)] e by (simp add: call_event nth_append)
  moreover have "length (log_of v) \<le> length (log_of w')"
  proof -
    obtain u r where a: "appendToolResult env later mid c skipped_result (length (log_of w)) v = (u, r)" by fastforce
    then have "length (log_of v) \<le> length (log_of u)"
      using append_grows ops unfolding appendToolResult_def by (metis fst_conv)
    then show ?thesis using skip v(1) a by (auto simp: appendSkippedToolCall_def split: option.splits)
  qed
  ultimately obtain u where "appendToolResult env later mid c skipped_result (length (log_of w)) v = (u, Some (length (log_of v)))"
    "accepted (log_of u)"
    using result_goes [OF ops _ v(3) one _ dist opened, of later mid skipped_result] v(2) small log rec(3) by auto
  with v(1) skip show ?thesis by (auto simp: appendSkippedToolCall_def)
qed

lemma guarded_group:
  assumes ops: "sn_ops env = ops" and log: "log_of w = log0 @ ext" and ok: "group_ok (sn_max env) g p"
    and rec: "group_recorded env planned nxt ext g p" and acc: "accepted (log_of w)"
    and dist: "distinct (map pl_id planned)" and opened: "open_at log0 (sn_turn env) (sn_step env)"
    and small: "int (length (log_of w)) \<le> MAX_SAFE_INTEGER" and f: "tg_failure g \<noteq> Some AppendThrew"
    and mv: "group_move env signal m w g p = Some (w', g', p')"
  shows "accepted (log_of w') \<and> tg_failure g' \<noteq> Some AppendThrew"
proof -
  have fail: "tg_failure (fail_with e g) \<noteq> Some AppendThrew" if "e \<noteq> AppendThrew" for e
    using f that by (auto simp: fail_with_def split: option.splits)
  from rec obtain rest j where d: "drop nxt planned = tg_calls g @ rest" and j: "answers_at g p j"
    "recorded env planned ext (nxt + starts_at g p) (nxt + j)"
    by (auto simp: group_recorded_def)
  from mv show ?thesis
  proof (cases rule: group_move_elim)
    case (settled i s)
    then show ?thesis using acc f fail by (auto simp: settle_def Let_def fail_with_def split: option.splits)
  next
    case (start now)
    have "open_at (log_of w) (sn_turn env) (sn_step env)"
      using open_still [OF opened j(2)] acc log by simp
    from call_goes [OF ops acc this] obtain v where
      "appendToolCall env now (tg_calls g ! tg_nextToStart g) w = (v, Some (length (log_of w)))"
      "accepted (log_of v)" by blast
    with start(2) f show ?thesis by (auto simp: start_call_def)
  next
    case (prepared s)
    then show ?thesis using acc f by (auto simp: prepared_call_def split: if_splits option.splits)
  next
    case (finished now mid res)
    have c: "tg_committed g < tg_started g" "tg_committed g < length (tg_calls g)"
      using ok ready_slot_started [of "sn_max env" g] finished(1) by (auto simp: group_ok_def)
    have r: "recorded env planned ext (nxt + tg_started g) (nxt + tg_committed g)" using j finished(1) by simp
    have q: "tg_callSeqs g ! tg_committed g = Some (fst (tool_starts ext ! (nxt + tg_committed g)))"
      using rec finished(1) c(1) by (auto simp: group_recorded_def)
    have at: "planned ! (nxt + tg_committed g) = tg_calls g ! tg_committed g"
      using group_call_at [OF d c(2)] by blast
    from result_goes [OF ops log acc r _ dist opened small, of now mid res] c(1) at obtain v where
      "appendToolResult env now mid (tg_calls g ! tg_committed g) res (fst (tool_starts ext ! (nxt + tg_committed g))) w
        = (v, Some (length (log_of w)))" "accepted (log_of v)" by auto
    with finished(2) q f show ?thesis by (auto simp: commit_result_def)
  next
    case (accept c cs b now)
    obtain v r where a: "wo_accept ops now c w = (v, r)" by fastforce
    with accept_keeps [OF acc, of now c] accept(2) f fail ops show ?thesis
      by (cases r) (auto simp: accept_context_def)
  next
    case (raced i)
    then show ?thesis using acc f by (auto simp: race_settled_def Let_def split: if_splits)
  qed (use acc f fail in \<open>auto simp: after_start_def after_commit_def commit_next_def Let_def split: if_splits\<close>)
qed

lemma guarded_move:
  assumes ops: "sn_ops env = ops" and log: "log_of (sd_world s) = log0 @ ext" and ok: "sched_ok env ext s"
    and acc: "accepted (log_of (sd_world s))" and dist: "distinct (map pl_id (sd_planned s))"
    and opened: "open_at log0 (sn_turn env) (sn_step env)" and f: "\<not> refused_append s"
    and mv: "sched_move env m s = Some t"
    and small: "int (length (log_of (sd_world s))) \<le> MAX_SAFE_INTEGER"
      "int (length (log_of (sd_world t))) \<le> MAX_SAFE_INTEGER"
  shows "accepted (log_of (sd_world t)) \<and> \<not> refused_append t"
  using mv
proof (cases rule: sched_move_elim)
  case (enter mode)
  then show ?thesis using acc by (simp add: refused_append_def next_group_def new_group_def)
next
  case (inside g p w g' p')
  have g: "group_ok (sn_max env) g p" "group_recorded env (sd_planned s) (sd_next s) ext g p"
    "tg_failure g \<noteq> Some AppendThrew"
    using ok inside(1) f by (auto simp: sched_ok_def refused_append_def)
  from guarded_group [OF ops log g(1,2) acc dist opened small(1) g(3) inside(2)] inside(3) show ?thesis
    by (simp add: refused_append_def)
next
  case (ends g p)
  have g: "group_ok (sn_max env) g p" "group_recorded env (sd_planned s) (sd_next s) ext g p"
    "tg_failure g \<noteq> Some AppendThrew"
    using ok ends(1) f by (auto simp: sched_ok_def refused_append_def)
  then obtain rest j where d: "drop (sd_next s) (sd_planned s) = tg_calls g @ rest"
    and j: "answers_at g p j" "recorded env (sd_planned s) ext (sd_next s + starts_at g p) (sd_next s + j)"
    by (auto simp: group_recorded_def)
  have skip_at: "recorded env (sd_planned s) ext (sd_next s + i) (sd_next s + i)"
      "sd_next s + i < length (sd_planned s)" "sd_planned s ! (sd_next s + i) = c"
    if "p = Skipping (c # cs)" "i = length (tg_calls g) - length (c # cs)" for c cs i
  proof -
    have sk: "length (c # cs) \<le> length (tg_calls g)"
      "c # cs = drop (length (tg_calls g) - length (c # cs)) (tg_calls g)"
      using g(1) that(1) by (auto simp: group_ok_def)
    note head = suffix_head [OF sk(2,1)]
    show "recorded env (sd_planned s) ext (sd_next s + i) (sd_next s + i)"
      "sd_next s + i < length (sd_planned s)" "sd_planned s ! (sd_next s + i) = c"
      using group_call_at [OF d head(1)] head(2) j that by simp_all
  qed
  from ends(2) show ?thesis
  proof (cases rule: group_ends_elim)
    case drained
    with acc g(3) show ?thesis by (auto simp: refused_append_def split: option.splits)
  next
    case (skip_threw c cs now later mid w)
    with skip_goes [OF ops log acc skip_at [OF skip_threw(1) refl] dist opened _ skip_threw(2)] small(2)
    show ?thesis by simp
  next
    case (skip c cs now later mid w)
    with skip_goes [OF ops log acc skip_at [OF skip(1) refl] dist opened _ skip(2)] small(2) g(3)
    show ?thesis by (simp add: refused_append_def)
  qed (use acc in \<open>simp_all add: refused_append_def leave_group_def Let_def\<close>)
next
  case (rest_threw c cs now later mid w)
  then have sk: "length (c # cs) \<le> length (sd_planned s)"
    "c # cs = drop (length (sd_planned s) - length (c # cs)) (sd_planned s)"
    "recorded env (sd_planned s) ext (length (sd_planned s) - length (c # cs)) (length (sd_planned s) - length (c # cs))"
    using ok by (auto simp: sched_ok_def)
  note head = suffix_head [OF sk(2,1)]
  from skip_goes [OF ops log acc sk(3) head(1,2) dist opened _ rest_threw(2)] rest_threw(3) small(2) show ?thesis
    by simp
next
  case (rest c cs now later mid w)
  then have sk: "length (c # cs) \<le> length (sd_planned s)"
    "c # cs = drop (length (sd_planned s) - length (c # cs)) (sd_planned s)"
    "recorded env (sd_planned s) ext (length (sd_planned s) - length (c # cs)) (length (sd_planned s) - length (c # cs))"
    using ok by (auto simp: sched_ok_def)
  note head = suffix_head [OF sk(2,1)]
  from skip_goes [OF ops log acc sk(3) head(1,2) dist opened _ rest(2)] rest(3) small(2) show ?thesis
    by (simp add: refused_append_def)
qed (use acc in \<open>simp_all add: refused_append_def\<close>)

lemma guarded_reach:
  assumes ops: "sn_ops env = ops" and k: "0 < sn_max env"
    and acc: "accepted (log_of w)" and dist: "distinct (map pl_id planned)"
    and opened: "open_at (log_of w) (sn_turn env) (sn_step env)"
    and reach: "sched_reach env (executeToolCalls w signal planned) s"
    and small: "int (length (log_of (sd_world s))) \<le> MAX_SAFE_INTEGER"
  shows "accepted (log_of (sd_world s)) \<and> \<not> refused_append s"
  using reach small
proof induction
  case start
  then show ?case using acc by (simp add: executeToolCalls_def refused_append_def)
next
  case (step s own t)
  from reach_recorded [OF ops k step.hyps(1)] obtain ext where s: "sd_planned s = planned"
    "log_of (sd_world s) = log_of w @ ext" "sched_ok env ext s" by blast
  from step.hyps(2) show ?case
  proof cases
    case (own m)
    have "length (log_of (sd_world s)) \<le> length (log_of (sd_world t))"
      using move_grows [OF ops own(2)] by simp
    with step own guarded_move [OF ops s(2,3) _ _ opened _ own(2)] dist s(1) show ?thesis by simp
  next
    case cancelled
    with step show ?thesis by (simp add: refused_append_def cong: sched_point.case_cong)
  next
    case (elsewhere c)
    from other_quiet [of c "sd_world s"] have "length (log_of (sd_world s)) \<le> length (log_of (sd_world t))"
      using elsewhere ops by auto
    with step elsewhere other_keeps ops show ?thesis by (simp add: refused_append_def cong: sched_point.case_cong)
  qed
qed

end

end
