(* ===== verification/Agent_World.thy ===== *)
theory Agent_World
  imports Tool_Calls
begin

text \<open>
  The world of core/agent-loop: an agent's inbox (core/agent/src/inbox.ts) over its session log, with
  the append that the loop and everyone else use. It meets the contracts of the scheduler, so the
  properties of the scheduler become properties of what an agent records.
\<close>

section \<open>An inbox over a log\<close>

text \<open>Whether the session admits an event is a parameter; \<open>session_admits\<close> is what its validators do.\<close>

definition log_put ::
  "(session_event list \<Rightarrow> session_event \<Rightarrow> bool) \<Rightarrow> int \<Rightarrow> event_data \<Rightarrow> json option \<Rightarrow> json option \<Rightarrow>
   session_event list \<Rightarrow> session_event list \<times> nat option" where
  "log_put admits now d srcs op log =
     (let e = candidate log now d srcs op in
      if admits log e then (log @ [e], Some (ev_seq e)) else (log, None))"

definition session_admits :: "session_event list \<Rightarrow> session_event \<Rightarrow> bool" where
  "session_admits log e \<longleftrightarrow> accepted (log @ [e])"

definition log_durably ::
  "(session_event list \<Rightarrow> session_event \<Rightarrow> bool) \<Rightarrow> int \<Rightarrow> (session_event list, unit) durable_append" where
  "log_durably admits now log sp =
     (case log_put admits now (InboxSpliced sp) None None log of
        (log', None) \<Rightarrow> (log', Inl ())
      | (log', Some _) \<Rightarrow> (log', Inr sp))"

text \<open>What others do while the scheduler works: calls of the inbox, and events that concern no call.\<close>

datatype outside_call =
    InboxCall int inbox_op
  | LogCall int event_data "json option" "json option"

type_synonym agent_world = "session_event list inbox"

definition agent_append ::
  "(session_event list \<Rightarrow> session_event \<Rightarrow> bool) \<Rightarrow> int \<Rightarrow> event_data \<Rightarrow> json option \<Rightarrow> json option \<Rightarrow>
   agent_world \<Rightarrow> agent_world \<times> nat option" where
  "agent_append admits now d srcs op ib =
     (let (log, r) = log_put admits now d srcs op (ib_session ib) in (ib\<lparr>ib_session := log\<rparr>, r))"

text \<open>The acceptor that the loop passes: \<open>inbox.splice('next-step', inbox.nextStep.length, 0, [context])\<close>.\<close>

definition agent_accept ::
  "(session_event list \<Rightarrow> session_event \<Rightarrow> bool) \<Rightarrow> int \<Rightarrow> message \<Rightarrow> agent_world \<Rightarrow> agent_world \<times> bool" where
  "agent_accept admits now m ib =
     (case splice_inbox (log_durably admits now) NextStep (jsnat (length (ib_nextStep ib))) (jsnat 0) [m] ib of
        (ib', r) \<Rightarrow> (ib', returns r))"

fun agent_other ::
  "(session_event list \<Rightarrow> session_event \<Rightarrow> bool) \<Rightarrow> outside_call \<Rightarrow> agent_world \<Rightarrow> agent_world" where
  "agent_other admits (InboxCall now c) ib = fst (inbox_exec (log_durably admits now) c ib)"
| "agent_other admits (LogCall now d srcs op) ib =
     (if quiet (candidate (ib_session ib) now d srcs op) then fst (agent_append admits now d srcs op ib) else ib)"

definition agent_ops ::
  "(session_event list \<Rightarrow> session_event \<Rightarrow> bool) \<Rightarrow> (agent_world, outside_call) world_ops" where
  "agent_ops admits =
     \<lparr>wo_append = agent_append admits, wo_accept = agent_accept admits, wo_other = agent_other admits\<rparr>"

section \<open>It meets the contracts\<close>

text \<open>Whatever an append of a splice keeps of the session, every call of the inbox keeps.\<close>

lemma mutate_keeps:
  assumes "\<And>s sp s' r. P s \<Longrightarrow> durably s sp = (s', r) \<Longrightarrow> P s'" "P (ib_session ib)"
  shows "P (ib_session (fst (mutate durably t start cnt ins disc ib)))"
  using assms(2)
  by (auto simp: mutate_def Let_def split: sum.splits prod.splits dest: assms(1))

lemma inbox_exec_keeps:
  assumes step: "\<And>s sp s' r. P s \<Longrightarrow> durably s sp = (s', r) \<Longrightarrow> P s'" and ib: "P (ib_session ib)"
  shows "P (ib_session (fst (inbox_exec durably c ib)))"
proof -
  have m: "P (ib_session ib')" if "mutate durably t start cnt ins disc ib0 = (ib', r)" "P (ib_session ib0)"
    for t start cnt ins disc ib0 ib' r
    using mutate_keeps [of P durably ib0 t start cnt ins disc, OF step that(2)] that(1) by simp
  have e: "P (ib_session ib')" if "edit_message durably i ins ib = (ib', r)" for i ins ib' r
    using that ib
    by (auto simp: edit_message_def splice_inbox_def split: option.splits prod.splits sum.splits dest: m)
  show ?thesis
  proof (cases c)
    case Clear
    then show ?thesis using ib
      by (auto simp: clear_inbox_def splice_inbox_def call_state_def split: prod.splits sum.splits dest!: m)
  next
    case (Claim t turn)
    then show ?thesis using ib
      by (auto simp: claim_def call_state_def Let_def split: prod.splits sum.splits if_splits dest!: m)
  next
    case (ReplaceId i msg)
    then show ?thesis using e by (cases "edit_message durably i [msg] ib") (auto simp: replace_message_def call_state_def)
  next
    case (RemoveId i)
    then show ?thesis using e by (cases "edit_message durably i [] ib") (auto simp: remove_message_def call_state_def)
  qed (use mutate_keeps [of P durably ib] step ib in
      \<open>simp_all add: append_message_def prepend_message_def splice_inbox_def call_state_def\<close>)
qed

definition grown :: "session_event list \<Rightarrow> session_event list \<Rightarrow> bool" where
  "grown log0 log \<longleftrightarrow> (\<exists>qs. log = log0 @ qs \<and> (\<forall>e \<in> set qs. quiet e))"

lemma log_put_cases:
  assumes "log_put admits now d srcs op log = (log', r)"
  obtains (put) "log' = log @ [candidate log now d srcs op]" "r = Some (length log)"
      "admits log (candidate log now d srcs op)"
    | (refused) "log' = log" "r = None" "\<not> admits log (candidate log now d srcs op)"
  using assms by (auto simp: log_put_def Let_def candidate_def split: if_splits)

lemma durably_keeps:
  assumes "log_durably admits now log sp = (log', r)"
  shows "grown log0 log \<Longrightarrow> grown log0 log'"
    "admits = session_admits \<Longrightarrow> accepted log \<Longrightarrow> accepted log'"
proof -
  obtain x y where p: "log_put admits now (InboxSpliced sp) None None log = (x, y)" by fastforce
  then have x: "log' = x" using assms by (auto simp: log_durably_def split: option.splits)
  have q: "quiet (candidate log now (InboxSpliced sp) None None)" by (simp add: quiet_def candidate_def)
  show "grown log0 log \<Longrightarrow> grown log0 log'"
    using p x q by (cases rule: log_put_cases) (auto simp: grown_def)
  show "admits = session_admits \<Longrightarrow> accepted log \<Longrightarrow> accepted log'"
    using p x by (cases rule: log_put_cases) (auto simp: session_admits_def)
qed

lemma agent_appended:
  assumes "agent_append admits now d srcs op ib = (ib', r)"
  obtains (put) "ib_session ib' = ib_session ib @ [candidate (ib_session ib) now d srcs op]"
      "r = Some (length (ib_session ib))" "admits (ib_session ib) (candidate (ib_session ib) now d srcs op)"
    | (refused) "ib_session ib' = ib_session ib" "r = None"
      "\<not> admits (ib_session ib) (candidate (ib_session ib) now d srcs op)"
  using assms by (auto simp: agent_append_def split: prod.splits elim!: log_put_cases)

lemma agent_accept_keeps:
  assumes "agent_accept admits now m ib = (ib', ok)"
  shows "grown (ib_session ib) (ib_session ib')"
    "admits = session_admits \<Longrightarrow> accepted (ib_session ib) \<Longrightarrow> accepted (ib_session ib')"
proof -
  have ib': "ib' = fst (mutate (log_durably admits now) NextStep (jsnat (length (ib_nextStep ib))) (jsnat 0) [m] True ib)"
    using assms by (auto simp: agent_accept_def splice_inbox_def split: prod.splits)
  have "grown (ib_session ib) (ib_session ib)" by (simp add: grown_def)
  then show "grown (ib_session ib) (ib_session ib')"
    unfolding ib' by (intro mutate_keeps [where P = "grown (ib_session ib)"]) (auto dest: durably_keeps(1))
  show "accepted (ib_session ib')" if "admits = session_admits" "accepted (ib_session ib)"
    unfolding ib' using that by (intro mutate_keeps [where P = accepted]) (auto dest: durably_keeps(2))
qed

lemma agent_other_keeps:
  shows "grown (ib_session ib) (ib_session (agent_other admits c ib))"
    "admits = session_admits \<Longrightarrow> accepted (ib_session ib) \<Longrightarrow> accepted (ib_session (agent_other admits c ib))"
proof -
  have g: "grown (ib_session ib) (ib_session ib)" by (simp add: grown_def)
  show "grown (ib_session ib) (ib_session (agent_other admits c ib))"
  proof (cases c)
    case (InboxCall now c)
    then show ?thesis using g
      by (simp, intro inbox_exec_keeps [where P = "grown (ib_session ib)"]) (auto dest: durably_keeps(1))
  next
    case (LogCall now d srcs op)
    obtain ib' r where a: "agent_append admits now d srcs op ib = (ib', r)" by fastforce
    then show ?thesis by (cases rule: agent_appended) (use LogCall g a in \<open>auto simp: grown_def\<close>)
  qed
  show "accepted (ib_session (agent_other admits c ib))" if "admits = session_admits" "accepted (ib_session ib)"
  proof (cases c)
    case (InboxCall now c)
    then show ?thesis using that
      by (simp, intro inbox_exec_keeps [where P = accepted]) (auto dest: durably_keeps(2))
  next
    case (LogCall now d srcs op)
    obtain ib' r where a: "agent_append admits now d srcs op ib = (ib', r)" by fastforce
    then show ?thesis by (cases rule: agent_appended) (use LogCall that a in \<open>auto simp: session_admits_def\<close>)
  qed
qed

interpretation agent: tool_world "agent_ops admits" ib_session for admits
proof
  show "s = length (ib_session w) \<and> ib_session w' = ib_session w @ [candidate (ib_session w) now d srcs op]"
    if "wo_append (agent_ops admits) now d srcs op w = (w', Some s)" for now d srcs op w w' s
    using that by (auto simp: agent_ops_def elim: agent_appended)
  show "ib_session w' = ib_session w"
    if "wo_append (agent_ops admits) now d srcs op w = (w', None)" for now d srcs op w w'
    using that by (auto simp: agent_ops_def elim: agent_appended)
  show "\<exists>qs. ib_session w' = ib_session w @ qs \<and> (\<forall>e \<in> set qs. quiet e)"
    if "wo_accept (agent_ops admits) now msg w = (w', ok)" for now msg w w' ok
    using agent_accept_keeps(1) [of admits now msg w w' ok] that by (simp add: agent_ops_def grown_def)
  show "\<exists>qs. ib_session (wo_other (agent_ops admits) c w) = ib_session w @ qs \<and> (\<forall>e \<in> set qs. quiet e)" for c w
    using agent_other_keeps(1) [of w admits c] by (simp add: agent_ops_def grown_def)
qed

interpretation guarded: guarded_world "agent_ops session_admits" ib_session
proof
  show "snd (wo_append (agent_ops session_admits) now d srcs op w) \<noteq> None"
    if "accepted (ib_session w @ [candidate (ib_session w) now d srcs op])" for w now d srcs op
    using that by (simp add: agent_ops_def agent_append_def log_put_def session_admits_def Let_def)
  show "accepted (ib_session (fst (wo_accept (agent_ops session_admits) now msg w)))"
    if "accepted (ib_session w)" for w now msg
    using agent_accept_keeps(2) [of session_admits now msg w] that
    by (cases "agent_accept session_admits now msg w") (simp add: agent_ops_def)
  show "accepted (ib_session (wo_other (agent_ops session_admits) c w))" if "accepted (ib_session w)" for w c
    using agent_other_keeps(2) that by (simp add: agent_ops_def)
qed

section \<open>Properties of the scheduler\<close>

text \<open>A sequence with finitely many descents, and standstills in between.\<close>

lemma finitely_many_descents:
  assumes "wf R" "\<And>i. own i \<Longrightarrow> (r (Suc i), r i) \<in> R" "\<And>i. \<not> own i \<Longrightarrow> r (Suc i) = r i"
  shows "\<exists>n. \<forall>i \<ge> n. \<not> own i"
proof -
  obtain z where z: "z \<in> range r" "\<And>y. (y, z) \<in> R \<Longrightarrow> y \<notin> range r"
    using wfE_min [OF assms(1), of "r 0" "range r"] by blast
  then obtain n where n: "\<And>i. (r i, r n) \<notin> R" by blast
  have "r i = r n \<and> \<not> own i" if "n \<le> i" for i
    using that
  proof (induction rule: dec_induct)
    case base
    show ?case using assms(2) n by blast
  next
    case (step i)
    then have "r (Suc i) = r n" using assms(3) by simp
    then show ?case using assms(2) n by metis
  qed
  then show ?thesis by blast
qed

text \<open>
  C36: the scheduler records calls and results in the order of the model. In whatever order tools
  settle, whoever cancels and whatever else is logged meanwhile, the step's calls stand in the log in
  the order of the message, the results answer a first part of them in that order, and each result
  cites the very event of its call. When the scheduler returns, every call has been recorded and
  answered exactly once. Meanwhile the pool never exceeds its bound, an exclusive call never shares
  it, and the scheduler never finds a settled call it failed to commit.
\<close>

theorem tool_calls_answered_in_order:
  assumes "sn_ops env = agent_ops admits" "0 < sn_max env"
    and "sched_reach env (executeToolCalls ib signal planned) s"
  shows "\<exists>ext k j. ib_session (sd_world s) = ib_session ib @ ext \<and> recorded env planned ext k j
      \<and> (case sd_point s of
           ReturnedCalls _ \<Rightarrow> k = length planned \<and> j = length planned
         | InGroup g p \<Rightarrow> length (tg_inFlight g) \<le> sn_max env
             \<and> (tg_mode g = Exclusive \<longrightarrow> length (tg_calls g) = 1)
         | ThrewCalls err \<Rightarrow> err \<noteq> UncommittedCalls
         | _ \<Rightarrow> True)"
proof -
  from agent.reach_recorded [OF assms] obtain ext where e: "ib_session (sd_world s) = ib_session ib @ ext"
    "sched_ok env ext s" "sd_planned s = planned" by blast
  then show ?thesis
    by (cases "sd_point s") (fastforce simp: sched_ok_def group_recorded_def group_ok_def group_sizes_defs)+
qed


text \<open>
  C38: the scheduler comes to an end. In any run, with cancellations and other work between its moves
  for as long as one likes, the scheduler makes only finitely many moves; and it is never stuck:
  until it has returned or thrown, some answer of the environment lets it go on.
\<close>

theorem tool_calls_come_to_an_end:
  assumes "sn_ops env = agent_ops admits" "0 < sn_max env"
    and "f 0 = executeToolCalls ib signal planned"
    and "\<And>i. sched_step env (f i) (own i) (f (Suc i))"
  shows "(\<exists>n. \<forall>i \<ge> n. \<not> own i) \<and> (\<forall>i. sched_final (f i) \<or> (\<exists>m. sched_move env m (f i) \<noteq> None))"
proof -
  have reach: "sched_reach env (executeToolCalls ib signal planned) (f i)" for i
    by (induction i) (auto simp: assms(3) intro: sched_reach.intros assms(4))
  have "\<exists>n. \<forall>i \<ge> n. \<not> own i"
    by (rule finitely_many_descents [of "less_than <*lex*> less_than" own "\<lambda>i. sched_rank (f i)"])
      (use agent.step_rank [OF assms(1,2) reach assms(4)] in auto)
  moreover have "sched_final (f i) \<or> (\<exists>m. sched_move env m (f i) \<noteq> None)" for i
    using agent.reach_recorded [OF assms(1,2) reach [of i]] sched_progress by blast
  ultimately show ?thesis by blast
qed

section \<open>Two parallel calls that settle in the other order\<close>

fun sched_moves :: "('w, 'o) sched_env \<Rightarrow> 'w sched \<Rightarrow> sched_answer list \<Rightarrow> 'w sched option" where
  "sched_moves env s [] = Some s"
| "sched_moves env s (m # ms) = Option.bind (sched_move env m s) (\<lambda>t. sched_moves env t ms)"

lemma moves_reach:
  "sched_moves env s ms = Some t \<Longrightarrow> sched_reach env s0 s \<Longrightarrow> sched_reach env s0 t"
proof (induction ms arbitrary: s)
  case (Cons m ms)
  then obtain u where u: "sched_move env m s = Some u" "sched_moves env u ms = Some t"
    by (auto simp: Option.bind_eq_Some_conv)
  have "sched_reach env s0 u" using Cons.prems(2) sched_step.own [OF u(1)] by (rule sched_reach.step)
  with Cons.IH [OF u(2)] show ?case by blast
qed simp

definition sample_calls :: "planned_call list" where
  "sample_calls =
     [\<lparr>pl_id = ''a'', pl_name = ''r'', pl_arguments = [], pl_parsed = JObj []\<rparr>,
      \<lparr>pl_id = ''b'', pl_name = ''r'', pl_arguments = [], pl_parsed = JObj []\<rparr>]"

definition sample_inbox_world :: agent_world where
  "sample_inbox_world = empty_inbox [log_event 0 0 (TurnStart 1), log_event 1 0 (StepStart 1 1)]"

definition sample_sched :: "(agent_world, outside_call) sched_env" where
  "sample_sched = \<lparr>sn_ops = agent_ops session_admits, sn_turn = 1, sn_step = 1, sn_max = 2\<rparr>"

definition sample_result :: exec_result where
  "sample_result = \<lparr>xr_content = [TextBlock ''x''], xr_isError = False, xr_error = None, xr_meta = None,
     xr_contexts = [], xr_concludes = False\<rparr>"

definition sample_moves :: "sched_answer list" where
  "sample_moves =
     [Classify Parallel, Go, BeginAt 1, Prepared None, Go, Go, Go,
      Go, Classify Parallel, BeginAt 2, Prepared None, Go, Go, Go, Go, Go,
      Settled 1 (Some \<lparr>sl_result = sample_result, sl_needsPost = False\<rparr>), Raced 1, Go, Go, Go, Go,
      Settled 0 (Some \<lparr>sl_result = sample_result, sl_needsPost = False\<rparr>), Raced 0,
      Go, FinishedAt 3 ''m'' sample_result, Go, Go, FinishedAt 4 ''n'' sample_result, Go, Go, Go, Go, Go, Go]"

definition sample_returned :: "agent_world sched" where
  "sample_returned =
     the (sched_moves sample_sched (executeToolCalls sample_inbox_world False sample_calls) sample_moves)"

lemma sample_sched_run:
  "sched_moves sample_sched (executeToolCalls sample_inbox_world False sample_calls) sample_moves = Some sample_returned"
  "sd_point sample_returned = ReturnedCalls False" "length (ib_session (sd_world sample_returned)) = 6"
  by code_simp+

lemma sample_sched_reach:
  "sched_reach sample_sched (executeToolCalls sample_inbox_world False sample_calls) sample_returned"
  using moves_reach [OF sample_sched_run(1) sched_reach.start] .

lemma sample_sched_fields: "sn_ops sample_sched = agent_ops session_admits" "0 < sn_max sample_sched"
  by (simp_all add: sample_sched_def)

lemma sample_world_open: "accepted (ib_session sample_inbox_world)"
  by code_simp

theorem tool_calls_answered_in_order_witness:
  "\<exists>ext. ib_session (sd_world sample_returned) = ib_session sample_inbox_world @ ext
     \<and> recorded sample_sched sample_calls ext 2 2"
  using tool_calls_answered_in_order [OF sample_sched_fields sample_sched_reach]
  by (auto simp: sample_sched_run(2) sample_calls_def numeral_2_eq_2)


theorem tool_calls_come_to_an_end_witness:
  "\<exists>f own. f 0 = executeToolCalls sample_inbox_world True [] \<and> own (0 :: nat)
     \<and> (\<exists>n. \<not> (\<exists>i \<ge> n. own i)) \<and> sched_final (f (1 :: nat))"
proof -
  let ?s = "executeToolCalls sample_inbox_world True []"
  let ?f = "\<lambda>i :: nat. if i = 0 then ?s else ?s\<lparr>sd_point := ReturnedCalls False\<rparr>"
  have final: "?s\<lparr>sd_point := ReturnedCalls False\<rparr> = ?s\<lparr>sd_point := ReturnedCalls False, sd_signal := True\<rparr>"
    by (simp add: executeToolCalls_def)
  have "sched_move sample_sched Go ?s = Some (?s\<lparr>sd_point := ReturnedCalls False\<rparr>)"
    by (simp add: sched_move_def executeToolCalls_def)
  then have "sched_step sample_sched (?f i) (i = 0) (?f (Suc i))" for i
    using sched_step.own [of sample_sched Go ?s] sched_step.cancelled [of sample_sched "?s\<lparr>sd_point := ReturnedCalls False\<rparr>"] final
    by (cases i) simp_all
  from tool_calls_come_to_an_end [where f = ?f and own = "\<lambda>i. i = 0", OF sample_sched_fields _ this, of sample_inbox_world True "[]"]
  have "\<exists>n. \<not> (\<exists>i \<ge> n. i = (0 :: nat))" by auto
  then show ?thesis
    by (intro exI [of _ ?f] exI [of _ "\<lambda>i. i = 0"]) (simp add: sched_final_def)
qed

end
