(* ===== verification/Assembler.thy ===== *)
theory Assembler
  imports Prelude Session_Types Js_Strings
begin

text \<open>
  The assembler of streamed responses, llm/llm/src/assembler.ts: chunks of a model's stream, in any
  interleaving of block indexes, become the content blocks of an assistant message. The results: the
  incremental assembler computes what a reference definition reads off the whole stream, block by
  block; what an interruption keeps is text the stream really carried, and a truncated response
  never carries a tool call; and the replay metadata that is kept matches the blocks one to one.
\<close>

section \<open>Chunks\<close>

datatype finish_reason =
    FinishStop
  | FinishToolCalls
  | FinishMaxTokens
  | FinishAborted json
  | FinishError json
  | FinishOther string

record replay_envelope =
  rv_response :: json
  rv_blocks :: "json list option"

datatype stream_chunk =
    BlockStart nat string
  | TextPiece nat string
  | ReasoningPiece nat string
  | CallPiece nat string "string option" string
  | BlockEnd nat content_block
  | UsageChunk json
  | FinishChunk finish_reason "replay_envelope option"

fun block_type :: "content_block \<Rightarrow> string" where
  "block_type (TextBlock _) = ''text''"
| "block_type (ReasoningBlock _) = ''reasoning''"
| "block_type (ImageBlock _) = ''image''"
| "block_type (ToolCallBlock _ _ _) = ''tool-call''"
| "block_type (ToolResultBlock _ _ _) = ''tool-result''"

section \<open>The assembler\<close>

record partial_block =
  pb_blockType :: string
  pb_text :: string
  pb_toolCallId :: "string option"
  pb_toolCallName :: "string option"
  pb_toolCallArguments :: string
  pb_block :: "content_block option"

record assembler =
  ba_partials :: "(nat \<times> partial_block) list"
  ba_order :: "nat list"
  ba_usage :: "json option"
  ba_finish :: "finish_reason option"
  ba_replayState :: "replay_envelope option"

definition new_assembler :: assembler where
  "new_assembler = \<lparr>ba_partials = [], ba_order = [], ba_usage = None, ba_finish = None, ba_replayState = None\<rparr>"

definition empty_partial :: "string \<Rightarrow> partial_block" where
  "empty_partial t = \<lparr>pb_blockType = t, pb_text = [], pb_toolCallId = None, pb_toolCallName = None,
     pb_toolCallArguments = [], pb_block = None\<rparr>"

definition ensure :: "nat \<Rightarrow> string \<Rightarrow> assembler \<Rightarrow> assembler" where
  "ensure i t a =
     (case map_of (ba_partials a) i of
        Some _ \<Rightarrow> a
      | None \<Rightarrow> a\<lparr>ba_partials := map_set i (empty_partial t) (ba_partials a), ba_order := ba_order a @ [i]\<rparr>)"

text \<open>
  The change of one partial. \<open>ensure\<close> hands out a reference to the partial; it is written back
  unless it was closed by a \<open>block-end\<close>.
\<close>

definition amend :: "nat \<Rightarrow> string \<Rightarrow> (partial_block \<Rightarrow> partial_block) \<Rightarrow> assembler \<Rightarrow> assembler" where
  "amend i t f a =
     (let a' = ensure i t a in
      case map_of (ba_partials a') i of
        None \<Rightarrow> a'
      | Some p \<Rightarrow> if pb_block p \<noteq> None then a' else a'\<lparr>ba_partials := map_set i (f p) (ba_partials a')\<rparr>)"

fun push :: "stream_chunk \<Rightarrow> assembler \<Rightarrow> assembler" where
  "push (BlockStart i t) a = ensure i t a"
| "push (TextPiece i s) a = amend i ''text'' (\<lambda>p. p\<lparr>pb_text := pb_text p @ s\<rparr>) a"
| "push (ReasoningPiece i s) a = amend i ''reasoning'' (\<lambda>p. p\<lparr>pb_text := pb_text p @ s\<rparr>) a"
| "push (CallPiece i c n s) a =
     amend i ''tool-call''
       (\<lambda>p. p\<lparr>pb_toolCallId := Some c,
              pb_toolCallName := (case n of Some (x # xs) \<Rightarrow> Some (x # xs) | _ \<Rightarrow> pb_toolCallName p),
              pb_toolCallArguments := pb_toolCallArguments p @ s\<rparr>) a"
| "push (BlockEnd i b) a = amend i (block_type b) (\<lambda>p. p\<lparr>pb_block := Some b\<rparr>) a"
| "push (UsageChunk u) a = a\<lparr>ba_usage := Some u\<rparr>"
| "push (FinishChunk r v) a = a\<lparr>ba_finish := Some r, ba_replayState := v\<rparr>"

definition push_all :: "stream_chunk list \<Rightarrow> assembler" where
  "push_all chunks = fold push chunks new_assembler"

definition finish_of :: "assembler \<Rightarrow> finish_reason" where
  "finish_of a = (case ba_finish a of Some r \<Rightarrow> r | None \<Rightarrow> FinishStop)"

text \<open>\<open>assemble\<close> throws on an open block of another type.\<close>

definition assemble :: "partial_block \<Rightarrow> nat \<Rightarrow> string + content_block" where
  "assemble p i =
     (case pb_block p of
        Some b \<Rightarrow> Inr b
      | None \<Rightarrow>
          if pb_blockType p = ''text'' then Inr (TextBlock (pb_text p))
          else if pb_blockType p = ''reasoning'' then Inr (ReasoningBlock (pb_text p))
          else if pb_blockType p = ''tool-call''
          then Inr (ToolCallBlock (case pb_toolCallId p of Some c \<Rightarrow> c | None \<Rightarrow> ''call-'' @ show_nat i)
                 (case pb_toolCallName p of Some n \<Rightarrow> n | None \<Rightarrow> []) (pb_toolCallArguments p))
          else Inl (pb_blockType p))"

definition mustGet :: "assembler \<Rightarrow> nat \<Rightarrow> string + partial_block" where
  "mustGet a i = (case map_of (ba_partials a) i of Some p \<Rightarrow> Inr p | None \<Rightarrow> Inl [])"

definition kept_at :: "bool list \<Rightarrow> 'a list \<Rightarrow> 'a list" where
  "kept_at kept xs = map snd (filter fst (zip kept xs))"

text \<open>The blocks and the replay metadata that goes with them.\<close>

definition assembled :: "assembler \<Rightarrow> string + content_block list \<times> replay_envelope option" where
  "assembled a =
     rbind (map_result (\<lambda>i. rbind (mustGet a i) (\<lambda>p. assemble p i)) (ba_order a)) (\<lambda>everything.
       let kept = (if finish_of a = FinishMaxTokens
                   then Some (map (\<lambda>b. block_type b \<noteq> ''tool-call'') everything) else None);
           blocks = (case kept of None \<Rightarrow> everything | Some k \<Rightarrow> kept_at k everything)
       in case ba_replayState a of
            None \<Rightarrow> Inr (blocks, None)
          | Some env \<Rightarrow>
              (case rv_blocks env of
                 None \<Rightarrow> Inr (blocks, Some env)
               | Some metas \<Rightarrow>
                   if length metas \<noteq> length everything then Inr (blocks, None)
                   else Inr (blocks,
                     (case kept of
                        None \<Rightarrow> Some env
                      | Some k \<Rightarrow>
                          if length blocks = length everything then Some env
                          else Some (env\<lparr>rv_blocks := Some (kept_at k metas)\<rparr>)))))"

fun plain_text :: "content_block \<Rightarrow> string option" where
  "plain_text (TextBlock s) = Some s"
| "plain_text (ReasoningBlock s) = Some s"
| "plain_text _ = None"

definition interrupted_block :: "assembler \<Rightarrow> nat \<Rightarrow> content_block option" where
  "interrupted_block a i =
     (case map_of (ba_partials a) i of
        None \<Rightarrow> None
      | Some p \<Rightarrow>
          let t = (case pb_block p of Some b \<Rightarrow> block_type b | None \<Rightarrow> pb_blockType p) in
          if t \<noteq> ''text'' \<and> t \<noteq> ''reasoning'' then None
          else (case assemble p i of Inr b \<Rightarrow> Some b | Inl _ \<Rightarrow> None))"

definition has_text :: "content_block \<Rightarrow> bool" where
  "has_text b = (case plain_text b of Some s \<Rightarrow> js_trim s \<noteq> [] | None \<Rightarrow> False)"

definition interruptedBlocks :: "assembler \<Rightarrow> content_block list" where
  "interruptedBlocks a = filter has_text (List.map_filter (interrupted_block a) (ba_order a))"

section \<open>A chunk as the log keeps it\<close>

fun finish_json :: "finish_reason \<Rightarrow> json" where
  "finish_json FinishStop = JObj [(''kind'', JStr ''stop'')]"
| "finish_json FinishToolCalls = JObj [(''kind'', JStr ''tool-calls'')]"
| "finish_json FinishMaxTokens = JObj [(''kind'', JStr ''max-tokens'')]"
| "finish_json (FinishAborted f) = JObj [(''kind'', JStr ''aborted''), (''failure'', f)]"
| "finish_json (FinishError f) = JObj [(''kind'', JStr ''error''), (''failure'', f)]"
| "finish_json (FinishOther k) = JObj [(''kind'', JStr k)]"

definition envelope_json :: "replay_envelope \<Rightarrow> json" where
  "envelope_json v = JObj ([(''response'', rv_response v)]
     @ (case rv_blocks v of None \<Rightarrow> [] | Some bs \<Rightarrow> [(''blocks'', JArr bs)]))"

fun chunk_json :: "stream_chunk \<Rightarrow> json" where
  "chunk_json (BlockStart i t) =
     JObj [(''type'', JStr ''block-start''), (''index'', num i), (''blockType'', JStr t)]"
| "chunk_json (TextPiece i s) = JObj [(''type'', JStr ''text-delta''), (''index'', num i), (''text'', JStr s)]"
| "chunk_json (ReasoningPiece i s) =
     JObj [(''type'', JStr ''reasoning-delta''), (''index'', num i), (''text'', JStr s)]"
| "chunk_json (CallPiece i c n s) =
     JObj ([(''type'', JStr ''tool-call-delta''), (''index'', num i), (''id'', JStr c)]
       @ (case n of None \<Rightarrow> [] | Some x \<Rightarrow> [(''name'', JStr x)]) @ [(''argumentsDelta'', JStr s)])"
| "chunk_json (BlockEnd i b) = JObj [(''type'', JStr ''block-end''), (''index'', num i), (''block'', block_json b)]"
| "chunk_json (UsageChunk u) = JObj [(''type'', JStr ''usage''), (''usage'', u)]"
| "chunk_json (FinishChunk r v) =
     JObj ([(''type'', JStr ''finish''), (''reason'', finish_json r)]
       @ (case v of None \<Rightarrow> [] | Some e \<Rightarrow> [(''replayState'', envelope_json e)]))"

section \<open>The reference: reading the blocks off the whole stream\<close>

text \<open>The index a chunk is for, and the type that it gives a block when it is its first chunk.\<close>

fun chunk_index :: "stream_chunk \<Rightarrow> nat option" where
  "chunk_index (BlockStart i _) = Some i"
| "chunk_index (TextPiece i _) = Some i"
| "chunk_index (ReasoningPiece i _) = Some i"
| "chunk_index (CallPiece i _ _ _) = Some i"
| "chunk_index (BlockEnd i _) = Some i"
| "chunk_index _ = None"

fun opening_type :: "stream_chunk \<Rightarrow> string" where
  "opening_type (BlockStart _ t) = t"
| "opening_type (TextPiece _ _) = ''text''"
| "opening_type (ReasoningPiece _ _) = ''reasoning''"
| "opening_type (CallPiece _ _ _ _) = ''tool-call''"
| "opening_type (BlockEnd _ b) = block_type b"
| "opening_type _ = []"

fun closing :: "stream_chunk \<Rightarrow> content_block option" where
  "closing (BlockEnd _ b) = Some b"
| "closing _ = None"

fun text_piece :: "stream_chunk \<Rightarrow> string" where
  "text_piece (TextPiece _ s) = s"
| "text_piece (ReasoningPiece _ s) = s"
| "text_piece _ = []"

fun call_piece :: "stream_chunk \<Rightarrow> string" where
  "call_piece (CallPiece _ _ _ s) = s"
| "call_piece _ = []"

fun piece_id :: "stream_chunk \<Rightarrow> string option" where
  "piece_id (CallPiece _ c _ _) = Some c"
| "piece_id _ = None"

fun piece_name :: "stream_chunk \<Rightarrow> string option" where
  "piece_name (CallPiece _ _ (Some (x # xs)) _) = Some (x # xs)"
| "piece_name _ = None"

definition chunks_for :: "nat \<Rightarrow> stream_chunk list \<Rightarrow> stream_chunk list" where
  "chunks_for i chunks = filter (\<lambda>c. chunk_index c = Some i) chunks"

text \<open>The chunks of a block before its first \<open>block-end\<close>.\<close>

definition open_chunks :: "nat \<Rightarrow> stream_chunk list \<Rightarrow> stream_chunk list" where
  "open_chunks i chunks = takeWhile (\<lambda>c. closing c = None) (chunks_for i chunks)"

definition first_seen :: "stream_chunk list \<Rightarrow> nat list" where
  "first_seen chunks = rev (remdups (rev (List.map_filter chunk_index chunks)))"

definition read_block :: "stream_chunk list \<Rightarrow> nat \<Rightarrow> partial_block" where
  "read_block chunks i =
     (let pieces = open_chunks i chunks in
      \<lparr>pb_blockType = opening_type (hd (chunks_for i chunks)),
       pb_text = concat (map text_piece pieces),
       pb_toolCallId = last_of (List.map_filter piece_id pieces),
       pb_toolCallName = last_of (List.map_filter piece_name pieces),
       pb_toolCallArguments = concat (map call_piece pieces),
       pb_block = (case List.map_filter closing (chunks_for i chunks) of [] \<Rightarrow> None | b # _ \<Rightarrow> Some b)\<rparr>)"

definition reference :: "stream_chunk list \<Rightarrow> assembler" where
  "reference chunks =
     (let finishes = List.map_filter (\<lambda>c. case c of FinishChunk r v \<Rightarrow> Some (r, v) | _ \<Rightarrow> None) chunks in
      \<lparr>ba_partials = map (\<lambda>i. (i, read_block chunks i)) (first_seen chunks),
       ba_order = first_seen chunks,
       ba_usage = last_of (List.map_filter (\<lambda>c. case c of UsageChunk u \<Rightarrow> Some u | _ \<Rightarrow> None) chunks),
       ba_finish = map_option fst (last_of finishes),
       ba_replayState = (case last_of finishes of Some (_, v) \<Rightarrow> v | None \<Rightarrow> None)\<rparr>)"

section \<open>One chunk more\<close>

lemma last_of_append: "last_of (xs @ ys) = (if ys = [] then last_of xs else last_of ys)"
  by (simp add: last_of_def)

lemma first_seen_snoc:
  "first_seen (cs @ [c]) =
     (case chunk_index c of
        None \<Rightarrow> first_seen cs
      | Some i \<Rightarrow> if i \<in> set (first_seen cs) then first_seen cs else first_seen cs @ [i])"
proof (cases "chunk_index c")
  case (Some i)
  let ?xs = "rev (List.map_filter chunk_index cs)"
  have "rev (remdups (i # ?xs)) = (if i \<in> set ?xs then rev (remdups ?xs) else rev (remdups ?xs) @ [i])"
    by simp
  then show ?thesis using Some by (simp add: first_seen_def map_filter_snoc)
qed (simp add: first_seen_def map_filter_snoc)

lemma first_seen_distinct: "distinct (first_seen cs)"
  by (simp add: first_seen_def)

lemma first_seen_iff: "i \<in> set (first_seen cs) \<longleftrightarrow> chunks_for i cs \<noteq> []"
  by (induction cs rule: rev_induct)
    (auto simp: first_seen_snoc chunks_for_def first_seen_def [of "[]"] split: option.splits)

lemma chunks_for_snoc:
  "chunks_for i (cs @ [c]) = (if chunk_index c = Some i then chunks_for i cs @ [c] else chunks_for i cs)"
  by (simp add: chunks_for_def)

lemma takeWhile_snoc:
  "takeWhile p (xs @ [x]) = (if \<forall>y \<in> set xs. p y then xs @ (if p x then [x] else []) else takeWhile p xs)"
  by (induction xs) auto

definition closed_in :: "stream_chunk list \<Rightarrow> bool" where
  "closed_in cs \<longleftrightarrow> (\<exists>c \<in> set cs. closing c \<noteq> None)"

lemma closings_Nil: "List.map_filter closing cs = [] \<longleftrightarrow> \<not> closed_in cs"
  by (induction cs) (auto simp: List.map_filter_simps closed_in_def split: option.splits)

lemma open_chunks_snoc:
  "open_chunks i (cs @ [c]) =
     (if chunk_index c = Some i \<and> \<not> closed_in (chunks_for i cs) \<and> closing c = None
      then open_chunks i cs @ [c] else open_chunks i cs)"
proof (cases "closed_in (chunks_for i cs)")
  case False
  then have every: "\<forall>c \<in> set (chunks_for i cs). closing c = None" by (auto simp: closed_in_def)
  then have "open_chunks i cs = chunks_for i cs"
    by (simp add: open_chunks_def takeWhile_eq_all_conv)
  then show ?thesis using False every
    by (simp add: open_chunks_def [of i "cs @ [c]"] open_chunks_def [symmetric] chunks_for_snoc takeWhile_snoc)
qed (auto simp: open_chunks_def chunks_for_snoc takeWhile_snoc closed_in_def)

lemma read_block_other:
  "chunk_index c \<noteq> Some i \<Longrightarrow> read_block (cs @ [c]) i = read_block cs i"
  by (simp add: read_block_def open_chunks_snoc chunks_for_snoc)

lemma read_block_open:
  "pb_block (read_block cs i) \<noteq> None \<longleftrightarrow> closed_in (chunks_for i cs)"
  using closings_Nil [of "chunks_for i cs"]
  by (cases "List.map_filter closing (chunks_for i cs)") (simp_all add: read_block_def Let_def)

lemma read_block_closed:
  assumes "closed_in (chunks_for i cs)"
  shows "read_block (cs @ [c]) i = read_block cs i"
proof -
  have ne: "chunks_for i cs \<noteq> []" "List.map_filter closing (chunks_for i cs) \<noteq> []"
    using assms closings_Nil by (auto simp: closed_in_def)
  then obtain b bs where "List.map_filter closing (chunks_for i cs) = b # bs" by (cases "List.map_filter closing (chunks_for i cs)") auto
  then show ?thesis using assms ne
    by (auto simp: read_block_def Let_def open_chunks_snoc chunks_for_snoc map_filter_snoc split: option.splits)
qed

text \<open>What a chunk does to the partial it is for.\<close>

fun extend :: "stream_chunk \<Rightarrow> partial_block \<Rightarrow> partial_block" where
  "extend (TextPiece _ s) p = p\<lparr>pb_text := pb_text p @ s\<rparr>"
| "extend (ReasoningPiece _ s) p = p\<lparr>pb_text := pb_text p @ s\<rparr>"
| "extend (CallPiece _ c n s) p =
     p\<lparr>pb_toolCallId := Some c,
       pb_toolCallName := (case n of Some (x # xs) \<Rightarrow> Some (x # xs) | _ \<Rightarrow> pb_toolCallName p),
       pb_toolCallArguments := pb_toolCallArguments p @ s\<rparr>"
| "extend (BlockEnd _ b) p = p\<lparr>pb_block := Some b\<rparr>"
| "extend _ p = p"

lemma push_indexed:
  assumes "chunk_index c = Some i"
  shows "push c a = (if c = BlockStart i (opening_type c) then ensure i (opening_type c) a
                     else amend i (opening_type c) (extend c) a)"
proof -
  have "extend (TextPiece j s) = (\<lambda>p. p\<lparr>pb_text := pb_text p @ s\<rparr>)"
    "extend (ReasoningPiece j s) = (\<lambda>p. p\<lparr>pb_text := pb_text p @ s\<rparr>)"
    "extend (BlockEnd j b) = (\<lambda>p. p\<lparr>pb_block := Some b\<rparr>)"
    "extend (CallPiece j d n s) =
       (\<lambda>p. p\<lparr>pb_toolCallId := Some d,
              pb_toolCallName := (case n of Some (x # xs) \<Rightarrow> Some (x # xs) | _ \<Rightarrow> pb_toolCallName p),
              pb_toolCallArguments := pb_toolCallArguments p @ s\<rparr>)" for j s b d n
    by (rule ext, simp)+
  then show ?thesis using assms by (cases c) (simp_all del: extend.simps)
qed

lemma read_block_extend:
  assumes i: "chunk_index c = Some i" and live: "\<not> closed_in (chunks_for i cs)"
    and seen: "chunks_for i cs \<noteq> []"
  shows "read_block (cs @ [c]) i = extend c (read_block cs i)"
proof -
  have none: "List.map_filter closing (chunks_for i cs) = []" using live by (simp add: closings_Nil)
  show ?thesis using assms none
    by (cases c)
      (auto simp: read_block_def Let_def open_chunks_snoc chunks_for_snoc map_filter_snoc last_of_append last_of_def [of "[x]" for x]
        split: option.splits list.splits)
qed

lemma read_block_first:
  assumes i: "chunk_index c = Some i" and new: "chunks_for i cs = []"
  shows "read_block (cs @ [c]) i = extend c (empty_partial (opening_type c))"
proof -
  have o: "open_chunks i (cs @ [c]) = (if closing c = None then [c] else [])"
    using assms by (simp add: open_chunks_def chunks_for_snoc)
  show ?thesis using assms o
    by (cases c)
      (auto simp: read_block_def Let_def empty_partial_def chunks_for_snoc List.map_filter_simps last_of_def
        split: option.splits list.splits)
qed

lemma map_set_keyed:
  "distinct xs \<Longrightarrow> i \<in> set xs \<Longrightarrow>
   map_set i v (map (\<lambda>j. (j, f j)) xs) = map (\<lambda>j. (j, if j = i then v else f j)) xs"
  by (induction xs) auto

lemma map_set_new: "i \<notin> set xs \<Longrightarrow> map_set i v (map (\<lambda>j. (j, f j)) xs) = map (\<lambda>j. (j, f j)) xs @ [(i, v)]"
  by (induction xs) auto

lemma map_of_keyed: "map_of (map (\<lambda>j. (j, f j)) xs) i = (if i \<in> set xs then Some (f i) else None)"
  by (induction xs) auto

lemma push_all_snoc [simp]: "push_all (cs @ [c]) = push c (push_all cs)"
  by (simp add: push_all_def)

lemma push_keeps_rest:
  assumes "chunk_index c = Some i"
  shows "ba_usage (push c a) = ba_usage a" "ba_finish (push c a) = ba_finish a"
    "ba_replayState (push c a) = ba_replayState a"
  using assms
  by (cases c; auto simp: ensure_def amend_def Let_def split: option.splits)+

lemma push_partials:
  assumes i: "chunk_index c = Some i"
    and a: "ba_partials a = map (\<lambda>i. (i, read_block cs i)) (first_seen cs)" "ba_order a = first_seen cs"
  shows "ba_partials (push c a) = map (\<lambda>i. (i, read_block (cs @ [c]) i)) (first_seen (cs @ [c]))
    \<and> ba_order (push c a) = first_seen (cs @ [c])"
proof -
  have other: "map (\<lambda>j. (j, if j = i then read_block (cs @ [c]) i else read_block cs j)) xs
      = map (\<lambda>j. (j, read_block (cs @ [c]) j)) xs" for xs
    using i read_block_other [of c] by (auto intro!: map_cong)
  show ?thesis
  proof (cases "i \<in> set (first_seen cs)")
    case True
    then have seen: "chunks_for i cs \<noteq> []" by (simp add: first_seen_iff)
    have at: "map_of (ba_partials a) i = Some (read_block cs i)" using a True by (simp add: map_of_keyed)
    have order: "first_seen (cs @ [c]) = first_seen cs" using True i by (simp add: first_seen_snoc)
    show ?thesis
    proof (cases "closed_in (chunks_for i cs)")
      case closed: True
      have "push c a = a" using at i closed read_block_open [of cs i]
        by (auto simp: push_indexed ensure_def amend_def)
      moreover have "read_block (cs @ [c]) j = read_block cs j" for j
        using read_block_closed [OF closed] read_block_other [of c j] i by (cases "j = i") auto
      ultimately show ?thesis using a order by simp
    next
      case live: False
      note e = read_block_extend [OF i live seen]
      have "ba_order (push c a) = ba_order a" using at i by (auto simp: push_indexed ensure_def amend_def)
      moreover have "ba_partials (push c a) = map_set i (read_block (cs @ [c]) i) (ba_partials a)"
      proof (cases "c = BlockStart i (opening_type c)")
        case True
        then have x: "extend c p = p" for p by (cases c) auto
        have "push c a = a" using at True i by (simp add: push_indexed ensure_def)
        moreover have "map_set i (read_block cs i) (ba_partials a) = ba_partials a"
          using a map_set_keyed [OF first_seen_distinct \<open>i \<in> set (first_seen cs)\<close>, of "read_block cs i" "read_block cs"]
          by (simp cong: if_cong)
        ultimately show ?thesis using e x by simp
      next
        case False
        then show ?thesis using at i live read_block_open [of cs i] e
          by (auto simp: push_indexed ensure_def amend_def)
      qed
      ultimately show ?thesis
        using a order other map_set_keyed [OF first_seen_distinct True, of "read_block (cs @ [c]) i" "read_block cs"]
        by simp
    qed
  next
    case False
    then have new: "chunks_for i cs = []" by (simp add: first_seen_iff)
    have at: "map_of (ba_partials a) i = None" using a False by (simp add: map_of_keyed)
    have order: "first_seen (cs @ [c]) = first_seen cs @ [i]" using False i by (simp add: first_seen_snoc)
    note e = read_block_first [OF i new]
    have "read_block (cs @ [c]) j = read_block cs j" if "j \<in> set (first_seen cs)" for j
      using that False i by (intro read_block_other) auto
    then have others: "map (\<lambda>j. (j, read_block (cs @ [c]) j)) (first_seen cs)
        = map (\<lambda>j. (j, read_block cs j)) (first_seen cs)" by simp
    let ?e = "ensure i (opening_type c) a"
    have ens: "ba_partials ?e = ba_partials a @ [(i, empty_partial (opening_type c))]" "ba_order ?e = ba_order a @ [i]"
      using at a False by (auto simp: ensure_def map_set_new)
    show ?thesis
    proof (cases "c = BlockStart i (opening_type c)")
      case True
      then have "extend c p = p" for p by (cases c) auto
      then show ?thesis using True i ens e a order others by (simp add: push_indexed)
    next
      case amended: False
      have "map_of (ba_partials ?e) i = Some (empty_partial (opening_type c))"
        using ens at by (simp add: map_of_append map_add_def)
      then have p: "push c a = ?e\<lparr>ba_partials := map_set i (extend c (empty_partial (opening_type c))) (ba_partials ?e)\<rparr>"
        using i amended by (simp add: push_indexed amend_def empty_partial_def Let_def)
      have "map_set i v (xs @ [(i, u)]) = xs @ [(i, v)]" if "i \<notin> fst ` set xs" for v u and xs :: "(nat \<times> partial_block) list"
        using that by (induction xs) auto
      then have "map_set i v (ba_partials ?e) = ba_partials a @ [(i, v)]" for v
        using ens a False by (simp add: image_image)
      then show ?thesis using p ens a order others e by simp
    qed
  qed
qed

lemma push_all_reference: "push_all chunks = reference chunks"
proof (induction chunks rule: rev_induct)
  case Nil
  then show ?case
    by (simp add: push_all_def new_assembler_def reference_def first_seen_def List.map_filter_simps)
next
  case (snoc c cs)
  show ?case
  proof (cases "chunk_index c")
    case None
    then have "read_block (cs @ [c]) = read_block cs" "first_seen (cs @ [c]) = first_seen cs"
      using read_block_other [of c] by (auto simp: first_seen_snoc)
    then show ?thesis using None snoc
      by (cases c) (simp_all add: reference_def Let_def map_filter_snoc)
  next
    case (Some i)
    have "ba_partials (push c (push_all cs)) = map (\<lambda>i. (i, read_block (cs @ [c]) i)) (first_seen (cs @ [c]))
        \<and> ba_order (push c (push_all cs)) = first_seen (cs @ [c])"
      by (rule push_partials [OF Some]) (simp_all add: snoc reference_def Let_def)
    moreover have "ba_usage (push c (push_all cs)) = ba_usage (reference (cs @ [c]))
        \<and> ba_finish (push c (push_all cs)) = ba_finish (reference (cs @ [c]))
        \<and> ba_replayState (push c (push_all cs)) = ba_replayState (reference (cs @ [c]))"
      using Some push_keeps_rest [OF Some, of "push_all cs"] snoc
      by (cases c) (simp_all add: reference_def Let_def map_filter_snoc)
    ultimately show ?thesis by (simp add: assembler.equality reference_def Let_def)
  qed
qed

text \<open>
  C39: the incremental assembler computes what reading the whole stream gives: the blocks stand in the
  order in which their indexes were first seen; a block is the one its first \<open>block-end\<close> carries, and
  until then the concatenation of its pieces with its last call id and its last name; what follows
  the end of a block is ignored; the last usage and the last finish count.
\<close>

theorem assembler_reads_stream: "push_all chunks = reference chunks"
  by (rule push_all_reference)

section \<open>What a message may carry\<close>

lemma kept_at_length: "length xs = length k \<Longrightarrow> length (kept_at k xs) = length (filter id k)"
proof (induction k arbitrary: xs)
  case (Cons b k)
  then show ?case by (cases xs) (auto simp: kept_at_def)
qed (simp add: kept_at_def)

lemma kept_at_filter: "kept_at (map p xs) xs = filter p xs"
  by (induction xs) (simp_all add: kept_at_def)

lemma read_block_text:
  "pb_block (read_block cs i) = None \<Longrightarrow> pb_text (read_block cs i) = concat (map text_piece (chunks_for i cs))"
proof -
  assume "pb_block (read_block cs i) = None"
  then have "\<not> closed_in (chunks_for i cs)" using read_block_open by blast
  then have "open_chunks i cs = chunks_for i cs"
    by (auto simp: open_chunks_def closed_in_def takeWhile_eq_all_conv)
  then show ?thesis by (simp add: read_block_def Let_def)
qed

lemma read_block_end:
  assumes "pb_block (read_block cs i) = Some b"
  shows "BlockEnd i b \<in> set cs"
proof -
  from assms have "b \<in> set (List.map_filter closing (chunks_for i cs))"
    by (auto simp: read_block_def Let_def split: list.splits)
  then obtain c where c: "c \<in> set cs" "chunk_index c = Some i" "closing c = Some b"
    by (auto simp: chunks_for_def List.map_filter_def)
  from c(2,3) have "c = BlockEnd i b" by (cases c) simp_all
  with c(1) show ?thesis by simp
qed

text \<open>Text of block \<open>i\<close>: what a \<open>block-end\<close> carried for it, or all its pieces together.\<close>

definition streamed_text :: "stream_chunk list \<Rightarrow> nat \<Rightarrow> content_block \<Rightarrow> bool" where
  "streamed_text cs i b \<longleftrightarrow>
     BlockEnd i b \<in> set cs \<or> plain_text b = Some (concat (map text_piece (chunks_for i cs)))"

lemma interrupted_block_cases:
  assumes "interrupted_block (reference cs) i = Some b"
  shows "i \<in> set (first_seen cs) \<and> plain_text b \<noteq> None \<and> streamed_text cs i b"
proof -
  have at: "map_of (ba_partials (reference cs)) i = (if i \<in> set (first_seen cs) then Some (read_block cs i) else None)"
    by (simp add: reference_def Let_def map_of_keyed)
  with assms have i: "i \<in> set (first_seen cs)" by (auto simp: interrupted_block_def split: if_splits)
  let ?p = "read_block cs i"
  show ?thesis
  proof (cases "pb_block ?p")
    case None
    then show ?thesis using assms at i read_block_text [OF None]
      by (auto simp: interrupted_block_def assemble_def streamed_text_def Let_def split: if_splits)
  next
    case (Some e)
    then have "e = b" "block_type b = ''text'' \<or> block_type b = ''reasoning''"
      using assms at i by (auto simp: interrupted_block_def assemble_def Let_def split: if_splits)
    then show ?thesis using i read_block_end [OF Some] by (cases b) (auto simp: streamed_text_def)
  qed
qed

lemma assembled_cases:
  assumes "assembled a = Inr (blocks, replay)"
  obtains everything where
    "map_result (\<lambda>i. rbind (mustGet a i) (\<lambda>p. assemble p i)) (ba_order a) = Inr everything"
    "blocks = (if finish_of a = FinishMaxTokens
       then filter (\<lambda>b. block_type b \<noteq> ''tool-call'') everything else everything)"
    "\<And>env ms. replay = Some env \<Longrightarrow> rv_blocks env = Some ms \<Longrightarrow> length ms = length blocks"
proof -
  from assms obtain everything where
    e: "map_result (\<lambda>i. rbind (mustGet a i) (\<lambda>p. assemble p i)) (ba_order a) = Inr everything"
    by (auto simp: assembled_def rbind_Inr_iff)
  let ?k = "map (\<lambda>b. block_type b \<noteq> ''tool-call'') everything"
  have len: "length (kept_at ?k ms) = length (kept_at ?k everything)" if "length ms = length everything" for ms :: "json list"
    using kept_at_length [of ms ?k] kept_at_length [of everything ?k] that by simp
  show thesis
  proof (rule that [OF e])
    show "blocks = (if finish_of a = FinishMaxTokens
       then filter (\<lambda>b. block_type b \<noteq> ''tool-call'') everything else everything)"
      using assms e by (auto simp: assembled_def Let_def kept_at_filter split: option.splits if_splits)
    show "length ms = length blocks" if "replay = Some env" "rv_blocks env = Some ms" for env ms
      using assms e that len by (auto simp: assembled_def Let_def split: option.splits if_splits)
  qed
qed

text \<open>
  C40: what a message carries is safe to keep. A response cut by the token limit has no tool call left;
  replay metadata that is kept has one entry per block; and what an interruption keeps is text or
  reasoning that is not blank and that the stream really carried: the content of a \<open>block-end\<close>, or
  the concatenation of all the pieces of its block.
\<close>

theorem assembled_message_is_safe:
  "(\<forall>blocks replay. assembled (push_all chunks) = Inr (blocks, replay) \<longrightarrow>
      (finish_of (push_all chunks) = FinishMaxTokens \<longrightarrow> (\<forall>b \<in> set blocks. block_type b \<noteq> ''tool-call''))
      \<and> (\<forall>env ms. replay = Some env \<and> rv_blocks env = Some ms \<longrightarrow> length ms = length blocks))
   \<and> (\<forall>b \<in> set (interruptedBlocks (push_all chunks)).
        has_text b \<and> (\<exists>i \<in> set (first_seen chunks). streamed_text chunks i b))"
proof (intro conjI allI impI ballI)
  fix blocks replay assume a: "assembled (push_all chunks) = Inr (blocks, replay)"
  show "block_type b \<noteq> ''tool-call''" if "finish_of (push_all chunks) = FinishMaxTokens" "b \<in> set blocks" for b
    using a that by (elim assembled_cases) auto
  show "length ms = length blocks" if "replay = Some env \<and> rv_blocks env = Some ms" for env ms
    using a that by (elim assembled_cases) auto
next
  fix b assume b: "b \<in> set (interruptedBlocks (push_all chunks))"
  then show "has_text b" by (simp add: interruptedBlocks_def)
  from b obtain i where "interrupted_block (push_all chunks) i = Some b"
    by (auto simp: interruptedBlocks_def List.map_filter_def)
  then show "\<exists>i \<in> set (first_seen chunks). streamed_text chunks i b"
    using interrupted_block_cases [of chunks i b] push_all_reference [of chunks] by auto
qed

definition cut_stream :: "stream_chunk list" where
  "cut_stream =
     [TextPiece 0 ''a'', CallPiece 1 ''c'' (Some ''n'') ''{'', TextPiece 0 ''b'',
      FinishChunk FinishMaxTokens (Some \<lparr>rv_response = JNull, rv_blocks = Some [num 1, num 2]\<rparr>)]"

theorem assembled_message_is_safe_witness:
  "assembled (push_all cut_stream)
     = Inr ([TextBlock ''ab''], Some \<lparr>rv_response = JNull, rv_blocks = Some [num 1]\<rparr>)
   \<and> length [num 1] = length [TextBlock ''ab'']
   \<and> interruptedBlocks (push_all cut_stream) = [TextBlock ''ab'']
   \<and> streamed_text cut_stream 0 (TextBlock ''ab'')"
proof -
  have a: "assembled (push_all cut_stream)
     = Inr ([TextBlock ''ab''], Some \<lparr>rv_response = JNull, rv_blocks = Some [num 1]\<rparr>)"
    by code_simp
  moreover have i: "interruptedBlocks (push_all cut_stream) = [TextBlock ''ab'']" by code_simp
  moreover have "length [num 1] = length [TextBlock ''ab'']"
    using assembled_message_is_safe [of cut_stream] a by simp
  moreover have "\<exists>i \<in> set (first_seen cut_stream). streamed_text cut_stream i (TextBlock ''ab'')"
    using assembled_message_is_safe [of cut_stream] i by simp
  then have "streamed_text cut_stream 0 (TextBlock ''ab'')"
    by (auto simp: streamed_text_def cut_stream_def chunks_for_def)
  ultimately show ?thesis by blast
qed

end
