(* ===== verification/Spec2Isabelle.thy ===== *)
theory Spec2Isabelle
  imports Prelude Json Deque Session_Types Seq_Ranges Surface Session_Trace Repair Request_Header
    Session_Admission Session_Log Inbox Session_Store Consumed_Work Tool_Pairing Chunk_Rows
    Goal_Fold Goal_Service Projections Projection_Restore
    Projection_Cache Schedule_Runtime Agent_World Assembler
begin

text \<open>
  A verification library for the event-sourced core of the agent harness under
  src/deepseek-harness/packages. File names below are relative to that directory.

  The program. An agent's whole state is the log of its session: an append-only array of events
  (core/session). The events with a surface operation form the conversation a model sees (the
  surface); replacements compact it. Every other state is a fold of the log: the trace invariant
  that vets events before they are published, the agent's inbox, the goal, the account of consumed
  work, the balance of tool calls and results. A registry (session/session-projection) drives such
  folds, serves them to clients and restores them from checkpoints; a cache stores the checkpoints.

  Conventions. A thrown error is \<open>Inl\<close>, a returned value \<open>Inr\<close>; a part of the code that throws after
  changing state returns the state and the error. A JavaScript \<open>Map\<close> is an association list in
  insertion order, a \<open>Set\<close> a list without repetitions, an object that came from JSON a value of
  \<open>json\<close>. Sequence numbers are \<open>nat\<close>, times and turn numbers \<open>int\<close>; a JavaScript number that arrives
  unchecked is \<open>jsnum\<close>, which has the negative zero, the infinities and NaN, and fractions as
  quotients. Strings are char lists, so a code unit is one of 256 characters, not of 65536.
  Freezing and structured cloning are identities on values.

  The theories, in the order they build on each other.

  \<^item> Prelude: results, folds that stop at a throw (\<open>run\<close>, \<open>hrun\<close>, \<open>run_keep\<close>), the locales
    \<open>checked_fold\<close>, \<open>history_fold\<close> (invariants of such folds) and \<open>simulation\<close> (an object that
    answers as another one does), maps, arrays, decimals.
  \<^item> Json: util/values/src/index.ts, the value model and the two structural equalities.
  \<^item> Deque: util/deque/src/index.ts, the circular buffer; it refines a list.
  \<^item> Session_Types: the event union of core/session/src/types.ts and the messages of llm/llm.
  \<^item> Seq_Ranges: core/session/src/seq-ranges.ts, an encoding of sequence sets; round trip, bounds.
  \<^item> Surface: core/session/src/surface.ts. The incremental surface manager refines the full fold;
    nodes and shadowed ranges account for every surface event once.
  \<^item> Session_Trace: core/session/src/invariant.ts, the companion that vets every event: brackets
    of turns and steps, open tool calls, the two-phase dispatch.
  \<^item> Repair: core/session/src/repair.ts, the closers of an interrupted log.
  \<^item> Request_Header, Session_Admission: header reconstruction, and the raw validators of the load
    boundary in core/session/src/index.ts.
  \<^item> Session_Log: the class Session of core/session/src/index.ts. Its caches never show: it answers
    as recomputing from the log does; a stored session reopens.
  \<^item> Session_Store: the store of the same file: identities, entries, announcement, forking, with
    listeners that act between the two halves of a dispatch. Minting an identity tries candidates
    up to the number of used ones plus one, which is enough by the pigeonhole principle.
  \<^item> Inbox: core/agent/src/inbox.ts, pending messages kept by durable splices.
  \<^item> Consumed_Work: core/agent/src/consumed-work.ts, a one-pass account against its specification.
  \<^item> Tool_Pairing: compaction/compaction/src/tool-pairing.ts, a per-session balance cache.
  \<^item> Chunk_Rows: core/session/src/chunk-rows.ts, packed storage rows of streamed chunks. Sums of
    times are exact up to the edge of the safe range and may round beyond it, as doubles do.
  \<^item> Goal_Fold, Goal_Service: goal/goal/src: the strict fold of a goal stream, the projection that
    keeps its first failure, and the service with its compare-and-set mutations and activation.
  \<^item> Projections, Projection_Restore, Projection_Cache: the projection registry and the persisted
    cache. The goal projection is registered as a unit, which ties the goal service to the registry:
    the state it reads is the fold of the log.

  What is not modelled. Listeners are modelled where the code's correctness depends on what they do
  between two halves of a dispatch (Session_Store, Session_Trace, Projections); elsewhere a
  notification is a recorded output or left out. Registration with the Cordis container, disposal
  fibers, logging and timers are left out. Paths are POSIX paths. The agent loop, the tools and
  their sandboxes, the model adapters, the storage back ends, the hooks, workflows and subagents,
  the type generator, and every user interface are outside the library; PROJECT.json lists them.
\<close>

end
